(* ===== verification/Go_Prelude.thy ===== *)
theory Go_Prelude
  imports Main "HOL-Library.AList" "HOL-Library.Multiset" "HOL-Library.Word"
    "HOL-Library.Signed_Division"
begin

text \<open>
  Shared vocabulary of the development: the Go values the connector computes with and the
  generic lemmas the component theories rest on.

  \<^item> Errors and panics are values. An error that a function returns is a value of
    \<open>err\<close> (the variables of \<^verbatim>\<open>common/errdef\<close>, \<^verbatim>\<open>common/config\<close> and
    \<^verbatim>\<open>httpcli\<close> by name, every error a library hands back as \<open>ErrExternal\<close>); a
    run-time panic is a value of \<open>panic\<close>.
  \<^item> \<open>int64\<close> quantities that the code compares or divides are \<open>int\<close> with the
    wrap-around written out (\<open>wrap64\<close>, \<open>wrap32\<close>); bytes and the atomic counters are
    words. Go's \<open>/\<close> truncates: it is \<open>sdiv\<close>.
  \<^item> A Go map is an association list with distinct keys (\<open>gomap_ok\<close>). The order in
    which \<^verbatim>\<open>for range\<close> visits it is chosen by the run time, so every loop takes the
    visiting order as an argument, and \<open>range_order\<close> says that it is a permutation of the
    keys.
\<close>

section \<open>Errors, panics, results\<close>

datatype err =
    ErrUnknown | ErrCancel | ErrPanic | ErrUnexpected | ErrNotFound | ErrAlreadyExist
  | ErrParameter | ErrKey | ErrAddress
  | ErrConfigContent | ErrDurationFormat | ErrTCPAddrFormat | ErrRemoteServer
  | ErrExternal string

datatype panic =
    PanicErr err | PanicText string
  | IndexOutOfRange | SliceBounds | NilDereference | DivideByZero | TypeAssertion

text \<open>A computation that may panic, and one that may also return an error.\<close>

type_synonym 'a may_panic = "panic + 'a"
type_synonym 'a result = "err + 'a"

definition bind_panic :: "'a may_panic \<Rightarrow> ('a \<Rightarrow> 'b may_panic) \<Rightarrow> 'b may_panic" where
  "bind_panic r f = (case r of Inl p \<Rightarrow> Inl p | Inr x \<Rightarrow> f x)"

lemma bind_panic_simps [simp]:
  "bind_panic (Inl p) f = Inl p"
  "bind_panic (Inr x) f = f x"
  by (simp_all add: bind_panic_def)

lemma bind_panic_eq_Inr [simp]:
  "bind_panic r f = Inr y \<longleftrightarrow> (\<exists>x. r = Inr x \<and> f x = Inr y)"
  by (cases r) auto

lemma bind_panic_eq_Inl:
  "bind_panic r f = Inl p \<longleftrightarrow> r = Inl p \<or> (\<exists>x. r = Inr x \<and> f x = Inl p)"
  by (cases r) auto

section \<open>Machine integers\<close>

type_synonym byte = "8 word"
type_synonym bytes = "8 word list"

definition wrap64 :: "int \<Rightarrow> int" where
  "wrap64 x = (x + 2 ^ 63) mod 2 ^ 64 - 2 ^ 63"

definition wrap32 :: "int \<Rightarrow> int" where
  "wrap32 x = (x + 2 ^ 31) mod 2 ^ 32 - 2 ^ 31"

definition in_int64 :: "int \<Rightarrow> bool" where
  "in_int64 x \<longleftrightarrow> - (2 ^ 63) \<le> x \<and> x < 2 ^ 63"

definition in_int32 :: "int \<Rightarrow> bool" where
  "in_int32 x \<longleftrightarrow> - (2 ^ 31) \<le> x \<and> x < 2 ^ 31"

lemma wrap64_id [simp]: "in_int64 x \<Longrightarrow> wrap64 x = x"
  by (simp add: wrap64_def in_int64_def)

lemma wrap32_id [simp]: "in_int32 x \<Longrightarrow> wrap32 x = x"
  by (simp add: wrap32_def in_int32_def)

lemma in_int64_wrap64 [simp]: "in_int64 (wrap64 x)"
  unfolding in_int64_def wrap64_def
  using pos_mod_bound [of "2 ^ 64" "x + 2 ^ 63"] pos_mod_sign [of "2 ^ 64" "x + 2 ^ 63"] by simp

lemma in_int32_wrap32 [simp]: "in_int32 (wrap32 x)"
  unfolding in_int32_def wrap32_def
  using pos_mod_bound [of "2 ^ 32" "x + 2 ^ 31"] pos_mod_sign [of "2 ^ 32" "x + 2 ^ 31"] by simp

lemma wrap64_add: "wrap64 (wrap64 x + y) = wrap64 (x + y)"
proof -
  have "((x + 2 ^ 63) mod 2 ^ 64 - 2 ^ 63 + y + 2 ^ 63) mod 2 ^ 64
      = ((x + 2 ^ 63) mod 2 ^ 64 + y) mod (2 ^ 64 :: int)"
    by (simp add: algebra_simps)
  also have "\<dots> = (x + 2 ^ 63 + y) mod 2 ^ 64"
    by (rule mod_add_left_eq)
  finally show ?thesis by (simp add: wrap64_def algebra_simps)
qed

lemma wrap32_add: "wrap32 (wrap32 x + y) = wrap32 (x + y)"
proof -
  have "((x + 2 ^ 31) mod 2 ^ 32 - 2 ^ 31 + y + 2 ^ 31) mod 2 ^ 32
      = ((x + 2 ^ 31) mod 2 ^ 32 + y) mod (2 ^ 32 :: int)"
    by (simp add: algebra_simps)
  also have "\<dots> = (x + 2 ^ 31 + y) mod 2 ^ 32"
    by (rule mod_add_left_eq)
  finally show ?thesis by (simp add: wrap32_def algebra_simps)
qed

lemma wrap32_add_right: "wrap32 (y + wrap32 x) = wrap32 (y + x)"
  by (metis add.commute wrap32_add)

lemma wrap64_add_right: "wrap64 (y + wrap64 x) = wrap64 (y + x)"
  by (metis add.commute wrap64_add)

lemmas wrap_add_simps = wrap32_add wrap32_add_right wrap64_add wrap64_add_right

lemma sdiv_nonneg: "0 \<le> (x :: int) \<Longrightarrow> 0 < y \<Longrightarrow> x sdiv y = x div y"
  by (simp add: signed_divide_int_def sgn_if)

section \<open>Go maps\<close>

type_synonym ('k, 'v) gomap = "('k \<times> 'v) list"

definition gomap_ok :: "('k, 'v) gomap \<Rightarrow> bool" where
  "gomap_ok m \<longleftrightarrow> distinct (map fst m)"

definition keys_of :: "('k, 'v) gomap \<Rightarrow> 'k set" where
  "keys_of m = fst ` set m"

definition range_order :: "('k, 'v) gomap \<Rightarrow> 'k list \<Rightarrow> bool" where
  "range_order m ks \<longleftrightarrow> distinct ks \<and> set ks = keys_of m"

text \<open>\<^verbatim>\<open>for k, v := range m\<close> with a body that does not change \<open>m\<close>, visiting \<open>ks\<close>.\<close>

definition range_loop :: "('k \<Rightarrow> 'v \<Rightarrow> 's \<Rightarrow> 's) \<Rightarrow> ('k, 'v) gomap \<Rightarrow> 'k list \<Rightarrow> 's \<Rightarrow> 's" where
  "range_loop body m ks s =
     fold (\<lambda>k t. case map_of m k of None \<Rightarrow> t | Some v \<Rightarrow> body k v t) ks s"

named_theorems gomap_simps \<open>lookups after the map operations\<close>

lemma gomap_ok_Nil [simp]: "gomap_ok []"
  by (simp add: gomap_ok_def)

lemma gomap_ok_single [simp]: "gomap_ok [(k, v)]"
  by (simp add: gomap_ok_def)

lemma gomap_ok_update [simp]: "gomap_ok m \<Longrightarrow> gomap_ok (AList.update k v m)"
  by (simp add: gomap_ok_def distinct_update)

lemma gomap_ok_delete [simp]: "gomap_ok m \<Longrightarrow> gomap_ok (AList.delete k m)"
  by (simp add: gomap_ok_def distinct_delete)

lemma map_of_update [gomap_simps]:
  "map_of (AList.update k v m) k' = (if k' = k then Some v else map_of m k')"
  by (simp add: update_conv')

lemma map_of_delete [gomap_simps]:
  "map_of (AList.delete k m) k' = (if k' = k then None else map_of m k')"
  by (simp add: delete_conv')

lemma keys_of_conv: "k \<in> keys_of m \<longleftrightarrow> map_of m k \<noteq> None"
  by (simp add: keys_of_def map_of_eq_None_iff)

lemma keys_of_update [simp]: "keys_of (AList.update k v m) = insert k (keys_of m)"
  by (auto simp: keys_of_conv gomap_simps split: if_splits)

lemma keys_of_delete [simp]: "keys_of (AList.delete k m) = keys_of m - {k}"
  by (auto simp: keys_of_conv gomap_simps split: if_splits)

lemma finite_keys_of [simp]: "finite (keys_of m)"
  by (simp add: keys_of_def)

lemma gomap_ok_card: "gomap_ok m \<Longrightarrow> card (keys_of m) = length m"
  by (metis distinct_card gomap_ok_def keys_of_def length_map list.set_map)

lemma gomap_empty_iff: "m = [] \<longleftrightarrow> (\<forall>k. map_of m k = None)"
  by (cases m) auto

lemma set_delete_subset: "set (AList.delete k m) \<subseteq> set m"
  by (auto simp: AList.delete_eq)

lemma set_update_subset: "set (AList.update k v m) \<subseteq> insert (k, v) (set m)"
  by (induction m) auto

lemma range_orderD:
  assumes "range_order m ks"
  shows "distinct ks" and "k \<in> set ks \<longleftrightarrow> map_of m k \<noteq> None"
  using assms by (auto simp: range_order_def keys_of_conv)

lemma range_order_map_fst: "gomap_ok m \<Longrightarrow> range_order m (map fst m)"
  by (simp add: range_order_def gomap_ok_def keys_of_def)

lemma range_loop_Nil [simp]: "range_loop body m [] s = s"
  by (simp add: range_loop_def)

lemma range_loop_Cons [simp]:
  "range_loop body m (k # ks) s =
     range_loop body m ks (case map_of m k of None \<Rightarrow> s | Some v \<Rightarrow> body k v s)"
  by (simp add: range_loop_def)

lemma range_loop_append [simp]:
  "range_loop body m (ks @ js) s = range_loop body m js (range_loop body m ks s)"
  by (simp add: range_loop_def)

text \<open>What every body keeps, the loop keeps.\<close>

lemma range_loop_invariant:
  assumes "P s" and "\<And>k v t. map_of m k = Some v \<Longrightarrow> k \<in> set ks \<Longrightarrow> P t \<Longrightarrow> P (body k v t)"
  shows "P (range_loop body m ks s)"
  using assms by (induction ks arbitrary: s) (auto split: option.split)

subsection \<open>Loops whose body commutes\<close>

text \<open>
  A loop over a map means the same in every visiting order when its body commutes with
  itself at different keys. The accounting loops of the connector (queue lengths, transferred
  bytes) are of this kind; they interpret the locale.
\<close>

locale commuting_body =
  fixes body :: "'k \<Rightarrow> 'v \<Rightarrow> 's \<Rightarrow> 's"
  assumes commute: "k \<noteq> k' \<Longrightarrow> body k v (body k' v' s) = body k' v' (body k v s)"
begin

definition visit :: "('k, 'v) gomap \<Rightarrow> 'k \<Rightarrow> 's \<Rightarrow> 's" where
  "visit m k t = (case map_of m k of None \<Rightarrow> t | Some v \<Rightarrow> body k v t)"

lemma visit_commute: "visit m x (visit m y t) = visit m y (visit m x t)"
  by (cases "x = y") (auto simp: visit_def commute split: option.split)

lemma range_loop_visit: "range_loop body m ks s = fold (visit m) ks s"
  by (simp add: range_loop_def visit_def [abs_def])

lemma fold_visit_perm: "mset ks = mset js \<Longrightarrow> fold (visit m) ks s = fold (visit m) js s"
proof (induction ks arbitrary: js s)
  case Nil
  then show ?case by simp
next
  case (Cons k ks)
  then have "k \<in> set js" by (metis list.set_intros(1) set_mset_mset)
  then obtain as bs where js: "js = as @ k # bs" by (meson split_list)
  then have "mset ks = mset (as @ bs)" using Cons.prems by simp
  then have IH: "fold (visit m) ks (visit m k s) = fold (visit m) (as @ bs) (visit m k s)"
    by (rule Cons.IH)
  have "fold (visit m) as (visit m k t) = visit m k (fold (visit m) as t)" for t
    by (induction as arbitrary: t) (simp_all add: visit_commute [of m _ k])
  with IH js show ?case by simp
qed

lemma order_irrelevant:
  assumes "range_order m ks" and "range_order m js"
  shows "range_loop body m ks s = range_loop body m js s"
proof -
  have "mset ks = mset js"
    using assms by (simp add: range_order_def flip: set_eq_iff_mset_eq_distinct)
  then show ?thesis unfolding range_loop_visit by (rule fold_visit_perm)
qed

end

section \<open>Compare-and-delete registries\<close>

text \<open>
  Both managers of the connector keep registries from names to client objects with the same
  contract: entering overwrites, leaving removes an entry only when it still holds the
  object that leaves. The locale states the contract and what a client of it may rely on;
  \<open>Rooms\<close> and \<open>Clients\<close> interpret it on their operations.
\<close>

datatype ('k, 'v) reg_op = Enter 'k 'v | Leave 'k 'v

fun reg_spec :: "('k \<Rightarrow> 'v option) \<Rightarrow> ('k, 'v) reg_op list \<Rightarrow> 'k \<Rightarrow> 'v option" where
  "reg_spec m [] = m"
| "reg_spec m (Enter k v # ops) = reg_spec (m(k := Some v)) ops"
| "reg_spec m (Leave k v # ops) = reg_spec (if m k = Some v then m(k := None) else m) ops"

locale owner_registry =
  fixes lookup :: "'s \<Rightarrow> 'k \<Rightarrow> 'v option"
    and enter :: "'k \<Rightarrow> 'v \<Rightarrow> 's \<Rightarrow> 's"
    and leave :: "'k \<Rightarrow> 'v \<Rightarrow> 's \<Rightarrow> 's"
    and valid :: "'k \<Rightarrow> bool"
    and inv :: "'s \<Rightarrow> bool"
  assumes lookup_enter:
      "inv s \<Longrightarrow> valid k \<Longrightarrow> lookup (enter k v s) k' = (if k' = k then Some v else lookup s k')"
    and lookup_leave:
      "inv s \<Longrightarrow>
       lookup (leave k v s) k' = (if k' = k \<and> lookup s k = Some v then None else lookup s k')"
    and inv_enter: "inv s \<Longrightarrow> valid k \<Longrightarrow> inv (enter k v s)"
    and inv_leave: "inv s \<Longrightarrow> inv (leave k v s)"
begin

fun run :: "('k, 'v) reg_op list \<Rightarrow> 's \<Rightarrow> 's" where
  "run [] s = s"
| "run (Enter k v # ops) s = run ops (enter k v s)"
| "run (Leave k v # ops) s = run ops (leave k v s)"

definition valid_ops :: "('k, 'v) reg_op list \<Rightarrow> bool" where
  "valid_ops ops \<longleftrightarrow> (\<forall>k v. Enter k v \<in> set ops \<longrightarrow> valid k)"

lemma valid_ops_simps [simp]:
  "valid_ops []"
  "valid_ops (Enter k v # ops) \<longleftrightarrow> valid k \<and> valid_ops ops"
  "valid_ops (Leave k v # ops) \<longleftrightarrow> valid_ops ops"
  by (auto simp: valid_ops_def)

lemma lookup_enter_fun: "inv s \<Longrightarrow> valid k \<Longrightarrow> lookup (enter k v s) = (lookup s)(k := Some v)"
  by (rule ext) (simp add: lookup_enter)

lemma lookup_leave_fun:
  "inv s \<Longrightarrow>
   lookup (leave k v s) = (if lookup s k = Some v then (lookup s)(k := None) else lookup s)"
  by (rule ext) (simp add: lookup_leave)

text \<open>Every sequence of operations refines the abstract map.\<close>

lemma run_refines: "inv s \<Longrightarrow> valid_ops ops \<Longrightarrow> lookup (run ops s) = reg_spec (lookup s) ops"
proof (induction ops arbitrary: s)
  case Nil
  then show ?case by simp
next
  case (Cons a ops)
  then show ?case
    by (cases a) (simp_all add: lookup_enter_fun lookup_leave_fun inv_enter inv_leave)
qed

lemma inv_run: "inv s \<Longrightarrow> valid_ops ops \<Longrightarrow> inv (run ops s)"
proof (induction ops arbitrary: s)
  case Nil
  then show ?case by simp
next
  case (Cons a ops)
  then show ?case by (cases a) (simp_all add: inv_enter inv_leave)
qed

text \<open>An object that was superseded cannot evict its successor.\<close>

lemma superseded_cannot_evict:
  "inv s \<Longrightarrow> valid k \<Longrightarrow> v \<noteq> v' \<Longrightarrow> lookup (leave k v (enter k v' s)) k = Some v'"
  by (simp add: lookup_leave lookup_enter inv_enter)

lemma leave_own: "inv s \<Longrightarrow> valid k \<Longrightarrow> lookup (leave k v (enter k v s)) k = None"
  by (simp add: lookup_leave lookup_enter inv_enter)

lemma never_held_after_leave: "inv s \<Longrightarrow> lookup (leave k v s) k \<noteq> Some v"
  by (simp add: lookup_leave)

end

section \<open>Reachable states of a step relation\<close>

text \<open>
  The concurrent parts of the connector are step relations. The locale carries an inductive
  invariant over every run; the step relations of the service, of the outbound pump and of
  the upstream connection interpret it.
\<close>

inductive reachable :: "('s \<Rightarrow> bool) \<Rightarrow> ('s \<Rightarrow> 's \<Rightarrow> bool) \<Rightarrow> 's \<Rightarrow> bool"
  for init :: "'s \<Rightarrow> bool" and step :: "'s \<Rightarrow> 's \<Rightarrow> bool" where
  reach_init: "init s \<Longrightarrow> reachable init step s"
| reach_step: "reachable init step s \<Longrightarrow> step s t \<Longrightarrow> reachable init step t"

locale inductive_invariant =
  fixes init :: "'s \<Rightarrow> bool"
    and step :: "'s \<Rightarrow> 's \<Rightarrow> bool"
    and inv :: "'s \<Rightarrow> bool"
  assumes inv_init: "init s \<Longrightarrow> inv s"
    and inv_step: "step s t \<Longrightarrow> inv s \<Longrightarrow> inv t"
begin

lemma reachable_inv: "reachable init step s \<Longrightarrow> inv s"
  by (induction rule: reachable.induct) (auto intro: inv_init inv_step)

lemma steps_inv: "step\<^sup>*\<^sup>* s t \<Longrightarrow> inv s \<Longrightarrow> inv t"
  by (induction rule: rtranclp_induct) (auto intro: inv_step)

end

lemma reachable_steps:
  "reachable init step s \<Longrightarrow> step\<^sup>*\<^sup>* s t \<Longrightarrow> reachable init step t"
  by (rotate_tac, induction rule: rtranclp_induct) (auto intro: reach_step)

section \<open>Maps of pointers\<close>

text \<open>
  A map whose values are pointers, read through the objects \<open>objs\<close> they point to. Two keys that never
  share an object (\<open>pointers_distinct\<close>) make an update of one object an update of one key.
\<close>

definition deref_map :: "'v list \<Rightarrow> ('k, nat) gomap \<Rightarrow> ('k, 'v) gomap" where
  "deref_map objs m = map (\<lambda>(k, a). (k, objs ! a)) m"

definition pointers_distinct :: "'v list \<Rightarrow> ('k, nat) gomap \<Rightarrow> bool" where
  "pointers_distinct objs m \<longleftrightarrow> gomap_ok m \<and> (\<forall>k a. map_of m k = Some a \<longrightarrow> a < length objs) \<and>
     (\<forall>k l a. map_of m k = Some a \<longrightarrow> map_of m l = Some a \<longrightarrow> k = l)"

lemma map_of_deref [simp]: "map_of (deref_map objs m) k = map_option (\<lambda>a. objs ! a) (map_of m k)"
  by (induction m) (auto simp: deref_map_def)

lemma deref_map_cong:
  assumes "gomap_ok m" and "\<And>k a. map_of m k = Some a \<Longrightarrow> objs' ! a = objs ! a"
  shows "deref_map objs' m = deref_map objs m"
  using assms by (auto simp: deref_map_def gomap_ok_def)

lemma pointers_distinctD:
  assumes "pointers_distinct objs m"
  shows "gomap_ok m" and "map_of m k = Some a \<Longrightarrow> a < length objs"
    and "map_of m k = Some a \<Longrightarrow> map_of m l = Some a \<Longrightarrow> k = l"
  using assms unfolding pointers_distinct_def by blast+

lemma pointers_distinct_length:
  "length objs' = length objs \<Longrightarrow> pointers_distinct objs' m = pointers_distinct objs m"
  by (simp add: pointers_distinct_def)

lemma pointers_distinct_new:
  "pointers_distinct objs m \<Longrightarrow> pointers_distinct (objs @ [v]) (AList.update k (length objs) m)"
  unfolding pointers_distinct_def by (auto simp: gomap_simps less_SucI split: if_splits)

lemma pointers_distinct_delete: "pointers_distinct objs m \<Longrightarrow> pointers_distinct objs (AList.delete k m)"
  unfolding pointers_distinct_def by (auto simp: gomap_simps split: if_splits)

lemma update_fresh: "map_of m k = None \<Longrightarrow> AList.update k v m = m @ [(k, v)]"
  by (induction m) (auto split: if_splits)

lemma update_nth_key: "gomap_ok m \<Longrightarrow> AList.update k v m =
   (if map_of m k = None then m @ [(k, v)] else map (\<lambda>(l, x). (l, if l = k then v else x)) m)"
proof (induction m)
  case (Cons e m)
  obtain l x where e: "e = (l, x)" by fastforce
  have "map (\<lambda>(l, x). (l, if l = k then v else x)) m = m" if "k \<notin> fst ` set m"
    using that by (intro map_idI) (force split: prod.splits)
  with Cons e show ?case by (cases "k \<in> fst ` set m") (force simp: gomap_ok_def map_of_eq_None_iff)+
qed simp

text \<open>Writing to the object of a key.\<close>

lemma deref_map_update:
  assumes "pointers_distinct objs m" and "map_of m k = Some a"
  shows "deref_map (objs[a := v]) m = AList.update k v (deref_map objs m)"
proof -
  note ok = pointers_distinctD [OF assms(1)]
  have "objs[a := v] ! b = (if l = k then v else objs ! b)" if "(l, b) \<in> set m" for l b
  proof -
    have "map_of m l = Some b" using that ok(1) by (simp add: gomap_ok_def)
    then have "b = a \<longleftrightarrow> l = k" using assms(2) ok(3) by auto
    then show ?thesis using ok(2) [OF assms(2)] by (auto simp: nth_list_update)
  qed
  moreover have "gomap_ok (deref_map objs m)" using ok(1) by (auto simp: gomap_ok_def deref_map_def comp_def split_def)
  ultimately show ?thesis using assms(2) by (auto simp: update_nth_key) (auto simp: deref_map_def)
qed

text \<open>A new object for a new key.\<close>

lemma deref_map_new:
  assumes "pointers_distinct objs m" and "map_of m k = None"
  shows "deref_map (objs @ [v]) (AList.update k (length objs) m) = AList.update k v (deref_map objs m)"
proof -
  have "deref_map (objs @ [v]) m = deref_map objs m"
    using pointers_distinctD [OF assms(1)] by (intro deref_map_cong) (simp_all add: nth_append)
  then show ?thesis using assms(2) by (simp add: update_fresh) (simp add: deref_map_def)
qed

lemma deref_map_delete: "deref_map objs (AList.delete k m) = AList.delete k (deref_map objs m)"
  by (induction m) (auto simp: deref_map_def)

section \<open>Decimal numerals\<close>

text \<open>\<^verbatim>\<open>strconv.FormatUint(n, 10)\<close> and the \<^verbatim>\<open>%d\<close> verb on non-negative numbers.\<close>

definition digit_char :: "nat \<Rightarrow> char" where
  "digit_char d = char_of (48 + d)"

fun decimal :: "nat \<Rightarrow> string" where
  "decimal n = (if n < 10 then [digit_char n] else decimal (n div 10) @ [digit_char (n mod 10)])"

declare decimal.simps [simp del]

definition digit_val :: "char \<Rightarrow> nat" where
  "digit_val c = of_char c - 48"

definition is_digit :: "char \<Rightarrow> bool" where
  "is_digit c \<longleftrightarrow> 48 \<le> (of_char c :: nat) \<and> (of_char c :: nat) \<le> 57"

definition decimal_val :: "string \<Rightarrow> nat" where
  "decimal_val s = foldl (\<lambda>a c. a * 10 + digit_val c) 0 s"

lemma digit_val_char [simp]: "d < 10 \<Longrightarrow> digit_val (digit_char d) = d"
  by (simp add: digit_val_def digit_char_def)

lemma is_digit_char [simp]: "d < 10 \<Longrightarrow> is_digit (digit_char d)"
  by (simp add: is_digit_def digit_char_def)

lemma decimal_val_decimal [simp]: "decimal_val (decimal n) = n"
proof (induction n rule: decimal.induct)
  case (1 n)
  show ?case
  proof (cases "n < 10")
    case True
    then show ?thesis by (simp add: decimal.simps [of n] decimal_val_def)
  next
    case False
    with "1.IH" show ?thesis by (simp add: decimal.simps [of n] decimal_val_def)
  qed
qed

lemma decimal_inject [simp]: "decimal m = decimal n \<longleftrightarrow> m = n"
  by (metis decimal_val_decimal)

lemma decimal_digits: "c \<in> set (decimal n) \<Longrightarrow> is_digit c"
  by (induction n rule: decimal.induct) (subst (asm) (2) decimal.simps, auto split: if_splits)

lemma decimal_nonempty [simp]: "decimal n \<noteq> []"
  by (subst decimal.simps) simp

text \<open>A 64-bit counter wraps around.\<close>

lemma unat_next: "unat (of_nat n + 1 :: 64 word) = Suc n mod 2 ^ 64"
proof -
  have "(of_nat n + 1 :: 64 word) = of_nat (Suc n)" by simp
  then show ?thesis by (simp only: unat_of_nat) simp
qed

section \<open>Strings and bytes\<close>

text \<open>A Go string is a sequence of bytes; the conversions \<^verbatim>\<open>[]byte(s)\<close> and
  \<^verbatim>\<open>string(b)\<close> copy them.\<close>

definition string_bytes :: "string \<Rightarrow> bytes" where
  "string_bytes s = map of_char s"

definition bytes_string :: "bytes \<Rightarrow> string" where
  "bytes_string b = map (\<lambda>x. char_of (unat x)) b"

lemma char_of_byte: "char_of (unat (of_char c :: byte)) = c"
proof -
  have "(of_char c :: byte) = of_nat (of_char c)" by (simp add: of_nat_of_char)
  then show ?thesis by (simp add: unat_of_nat take_bit_eq_mod)
qed

lemma bytes_string_inverse [simp]: "bytes_string (string_bytes s) = s"
  by (induction s) (simp_all add: bytes_string_def string_bytes_def char_of_byte)

end
