(* ===== verification/Message_Queue.thy ===== *)
theory Message_Queue
  imports Go_Prelude "HOL-Library.Sublist"
begin

text \<open>
  The per-room buffers between the chat handler and the forwarder to the compute servers:
  \<^verbatim>\<open>tocompute.go\<close>, with the message type of \<^verbatim>\<open>RoomMsgToCompute.pb.go\<close>.

  \<open>MessageQueue\<close> is the bounded FIFO of one room, \<open>MessageQueueGroup\<close> the map from
  room ids to queues (\<open>None\<close> is Go's nil map, which the package variable starts as). The
  trimming loop of \<^verbatim>\<open>Add\<close> spins for ever on a queue whose \<^verbatim>\<open>maxSize\<close> is negative,
  so it is a partial function; \<open>mq_ok\<close> is the invariant under which it returns. The locale
  \<open>bounded_fifo\<close> is the contract of one queue, interpreted on the model.
\<close>

section \<open>Data\<close>

record FromConnectorMessage =
  fm_MessageId :: string
  fm_RoomId :: string
  fm_UserId :: string
  fm_Nickname :: string
  fm_Time :: int
  fm_Level :: int
  fm_Type :: int
  fm_Params :: "(string, string) gomap"

record MessageQueue =
  mq_queue :: "FromConnectorMessage list"
  mq_maxSize :: int

type_synonym MessageQueueGroup = "(string, MessageQueue) gomap option"

definition NewMessageQueue :: MessageQueue where
  "NewMessageQueue = \<lparr>mq_queue = [], mq_maxSize = 100\<rparr>"

section \<open>Operations\<close>

text \<open>The loop \<^verbatim>\<open>for ; m.queue.Len() > m.maxSize;\<close> of \<^verbatim>\<open>MessageQueue.Add\<close>.\<close>

partial_function (option) trim ::
  "int \<Rightarrow> FromConnectorMessage list \<Rightarrow> FromConnectorMessage list option" where
  "trim maxSize queue =
     (if int (length queue) > maxSize
      then (case queue of [] \<Rightarrow> trim maxSize queue | e # rest \<Rightarrow> trim maxSize rest)
      else Some queue)"

definition MessageQueue_Add :: "FromConnectorMessage \<Rightarrow> MessageQueue \<Rightarrow> MessageQueue option" where
  "MessageQueue_Add msg m =
     map_option (\<lambda>qs. m\<lparr>mq_queue := qs\<rparr>) (trim (mq_maxSize m) (mq_queue m @ [msg]))"

fun drain_collect ::
  "FromConnectorMessage list \<Rightarrow> int \<Rightarrow> FromConnectorMessage list \<Rightarrow> FromConnectorMessage list" where
  "drain_collect msgs maxLength [] = msgs"
| "drain_collect msgs maxLength (e # es) =
     (if int (length msgs) < maxLength then drain_collect (msgs @ [e]) maxLength es else msgs)"

fun remove_front :: "nat \<Rightarrow> 'a list \<Rightarrow> 'a list" where
  "remove_front 0 queue = queue"
| "remove_front (Suc n) queue =
     remove_front n (case queue of [] \<Rightarrow> [] | e # rest \<Rightarrow> rest)"

definition MessageQueue_DrainTo ::
  "FromConnectorMessage list \<Rightarrow> int \<Rightarrow> MessageQueue \<Rightarrow>
   FromConnectorMessage list \<times> nat \<times> MessageQueue" where
  "MessageQueue_DrainTo msgs maxLength m =
     (let oldLen = length msgs;
          msgs' = drain_collect msgs maxLength (mq_queue m);
          queue' = remove_front (length msgs' - oldLen) (mq_queue m)
      in (msgs', length queue', m\<lparr>mq_queue := queue'\<rparr>))"

text \<open>
  The queue of a room, made on first use. The source looks the room up under the read lock
  and, when there is none, once more under the write lock before it makes one; in one atomic
  step the two lookups agree.
\<close>

definition room_queue ::
  "string \<Rightarrow> MessageQueueGroup \<Rightarrow> (string, MessageQueue) gomap \<times> MessageQueue" where
  "room_queue room mqg =
     (let grp = (case mqg of None \<Rightarrow> [] | Some g \<Rightarrow> g)
      in case map_of grp room of
           Some mq \<Rightarrow> (grp, mq)
         | None \<Rightarrow> (AList.update room NewMessageQueue grp, NewMessageQueue))"

definition MessageQueueGroup_Add ::
  "FromConnectorMessage \<Rightarrow> MessageQueueGroup \<Rightarrow> MessageQueueGroup option" where
  "MessageQueueGroup_Add msg mqg =
     (let (grp, mq) = room_queue (fm_RoomId msg) mqg
      in map_option (\<lambda>mq'. Some (AList.update (fm_RoomId msg) mq' grp)) (MessageQueue_Add msg mq))"

fun drain_rooms ::
  "int \<Rightarrow> string list \<Rightarrow> FromConnectorMessage list \<times> nat \<times> (string, MessageQueue) gomap \<Rightarrow>
   FromConnectorMessage list \<times> nat \<times> (string, MessageQueue) gomap" where
  "drain_rooms maxLength [] s = s"
| "drain_rooms maxLength (k # ks) (msgs, totalRestSize, grp) =
     (case map_of grp k of
        None \<Rightarrow> drain_rooms maxLength ks (msgs, totalRestSize, grp)
      | Some v \<Rightarrow>
          (let (msgs', restSize, v') = MessageQueue_DrainTo msgs maxLength v
           in drain_rooms maxLength ks (msgs', totalRestSize + restSize, AList.update k v' grp)))"

definition MessageQueueGroup_DrainTo ::
  "string list \<Rightarrow> FromConnectorMessage list \<Rightarrow> int \<Rightarrow> MessageQueueGroup \<Rightarrow>
   FromConnectorMessage list \<times> nat \<times> MessageQueueGroup" where
  "MessageQueueGroup_DrainTo order msgs maxLength mqg =
     (case mqg of
        None \<Rightarrow> (msgs, 0, None)
      | Some grp \<Rightarrow>
          (let (msgs', rest, grp') = drain_rooms maxLength order (msgs, 0, grp)
           in (msgs', rest, Some grp')))"

section \<open>One queue\<close>

text \<open>What the loops compute.\<close>

lemma trim_bounded: "trim m qs = Some r \<Longrightarrow> int (length r) \<le> m"
proof (rule trim.raw_induct [where P = "\<lambda>m qs r. int (length r) \<le> m"])
  fix f m qs r
  assume "\<And>m qs r. f m qs = Some r \<Longrightarrow> int (length r) \<le> m"
    and "(if m < int (length qs) then case qs of [] \<Rightarrow> f m qs | e # rest \<Rightarrow> f m rest
          else Some qs) = Some r"
  then show "int (length r) \<le> m"
    by (auto split: if_splits list.splits)
qed

lemma trim_returns: "0 \<le> m \<Longrightarrow> trim m qs = Some (drop (length qs - nat m) qs)"
proof (induction qs)
  case Nil
  then show ?case by (simp add: trim.simps)
next
  case (Cons e es)
  show ?case
  proof (cases "int (length (e # es)) > m")
    case True
    then have "length (e # es) - nat m = Suc (length es - nat m)" using Cons.prems by auto
    with True Cons show ?thesis by (simp add: trim.simps [of m "e # es"])
  next
    case False
    then show ?thesis by (simp add: trim.simps [of m "e # es"])
  qed
qed

lemma trim_diverges: "m < 0 \<Longrightarrow> trim m qs = None"
  using trim_bounded [of m qs] by (cases "trim m qs") auto

lemma drain_collect_take:
  "drain_collect msgs n es = msgs @ take (nat (n - int (length msgs))) es"
proof (induction msgs n es rule: drain_collect.induct)
  case (1 msgs n)
  then show ?case by simp
next
  case (2 msgs n e es)
  show ?case
  proof (cases "int (length msgs) < n")
    case True
    then have "nat (n - int (length msgs)) = Suc (nat (n - int (length (msgs @ [e]))))" by auto
    with True "2.IH" show ?thesis by simp
  next
    case False
    then show ?thesis by simp
  qed
qed

lemma remove_front_drop [simp]: "remove_front n es = drop n es"
  by (induction n es rule: remove_front.induct) (auto split: list.split)

text \<open>The number of messages a drain takes from a queue of \<open>l\<close> messages.\<close>

definition drain_count :: "int \<Rightarrow> nat \<Rightarrow> nat \<Rightarrow> nat" where
  "drain_count maxLength have_len l = min l (nat (maxLength - int have_len))"

lemma MessageQueue_DrainTo_eq:
  "MessageQueue_DrainTo msgs n m =
     (let k = drain_count n (length msgs) (length (mq_queue m))
      in (msgs @ take k (mq_queue m), length (mq_queue m) - k,
          m\<lparr>mq_queue := drop k (mq_queue m)\<rparr>))"
proof -
  let ?k = "drain_count n (length msgs) (length (mq_queue m))"
  have "take (nat (n - int (length msgs))) (mq_queue m) = take ?k (mq_queue m)"
    by (simp add: drain_count_def min_def)
  moreover have "length (msgs @ take ?k (mq_queue m)) - length msgs = ?k"
    by (simp add: drain_count_def)
  ultimately show ?thesis
    by (simp add: MessageQueue_DrainTo_def drain_collect_take Let_def)
qed

text \<open>The invariant of a queue: a non-negative bound, and no more messages than it.\<close>

definition mq_ok :: "MessageQueue \<Rightarrow> bool" where
  "mq_ok m \<longleftrightarrow> 0 \<le> mq_maxSize m \<and> int (length (mq_queue m)) \<le> mq_maxSize m"

lemma mq_ok_New [simp]: "mq_ok NewMessageQueue"
  by (simp add: mq_ok_def NewMessageQueue_def)

definition last_n :: "nat \<Rightarrow> 'a list \<Rightarrow> 'a list" where
  "last_n n xs = drop (length xs - n) xs"

lemma length_last_n [simp]: "length (last_n n xs) = min n (length xs)"
  by (simp add: last_n_def)

lemma last_n_all [simp]: "length xs \<le> n \<Longrightarrow> last_n n xs = xs"
  by (simp add: last_n_def)

lemma last_n_append_last_n [simp]: "last_n n (last_n n xs @ ys) = last_n n (xs @ ys)"
proof (cases "length xs \<le> n")
  case True
  then show ?thesis by simp
next
  case False
  then obtain as bs where xs: "xs = as @ bs" and "length bs = n"
    by (metis append_take_drop_id diff_diff_cancel length_drop nat_le_linear)
  then show ?thesis by (auto simp: last_n_def)
qed

lemma last_n_append_right: "last_n n (xs @ last_n n ys) = last_n n (xs @ ys)"
proof (cases "length ys \<le> n")
  case False
  then have "last_n n (xs @ ys) = last_n n ys" by (simp add: last_n_def)
  moreover have "last_n n (xs @ last_n n ys) = last_n n ys" using False by (simp add: last_n_def)
  ultimately show ?thesis by simp
qed simp

lemma subseq_last_n: "subseq (last_n n xs) xs"
  by (metis append_take_drop_id last_n_def list_emb_append2 subseq_order.order_refl)

lemma MessageQueue_Add_ok:
  assumes "mq_ok m"
  shows "MessageQueue_Add msg m =
    Some (m\<lparr>mq_queue := last_n (nat (mq_maxSize m)) (mq_queue m @ [msg])\<rparr>)"
  using assms by (simp add: MessageQueue_Add_def trim_returns mq_ok_def last_n_def)

lemma mq_ok_Add: "mq_ok m \<Longrightarrow> MessageQueue_Add msg m = Some m' \<Longrightarrow> mq_ok m'"
  by (auto simp: MessageQueue_Add_ok) (auto simp: mq_ok_def)

subsection \<open>The contract of one queue\<close>

locale bounded_fifo =
  fixes add :: "'a \<Rightarrow> 'q \<Rightarrow> 'q option"
    and drain :: "nat \<Rightarrow> 'q \<Rightarrow> 'a list \<times> 'q"
    and contents :: "'q \<Rightarrow> 'a list"
    and cap :: "'q \<Rightarrow> nat"
    and inv :: "'q \<Rightarrow> bool"
  assumes add_returns: "inv q \<Longrightarrow> \<exists>q'. add x q = Some q'"
    and add_contents:
      "inv q \<Longrightarrow> add x q = Some q' \<Longrightarrow> contents q' = last_n (cap q) (contents q @ [x])"
    and add_inv: "inv q \<Longrightarrow> add x q = Some q' \<Longrightarrow> inv q' \<and> cap q' = cap q"
    and drain_contents:
      "inv q \<Longrightarrow> drain n q = (out, q') \<Longrightarrow> out @ contents q' = contents q \<and> length out \<le> n"
    and drain_inv: "inv q \<Longrightarrow> drain n q = (out, q') \<Longrightarrow> inv q' \<and> cap q' = cap q"
begin

fun add_all :: "'a list \<Rightarrow> 'q \<Rightarrow> 'q option" where
  "add_all [] q = Some q"
| "add_all (x # xs) q = Option.bind (add x q) (add_all xs)"

lemma add_all_contents:
  "inv q \<Longrightarrow> length (contents q) \<le> cap q \<Longrightarrow>
   \<exists>q'. add_all xs q = Some q' \<and> contents q' = last_n (cap q) (contents q @ xs) \<and> inv q'"
proof (induction xs arbitrary: q)
  case Nil
  then show ?case by simp
next
  case (Cons x xs)
  from add_returns [OF Cons.prems(1)] obtain p where p: "add x q = Some p" by blast
  note p_facts = add_inv [OF Cons.prems(1) p] add_contents [OF Cons.prems(1) p]
  then have "length (contents p) \<le> cap p" by simp
  from Cons.IH [OF _ this] p_facts obtain q' where
    "add_all xs p = Some q' \<and> contents q' = last_n (cap p) (contents p @ xs) \<and> inv q'"
    by blast
  with p p_facts show ?case by simp
qed

text \<open>
  A history of additions and drains: what came out, then what is still inside, is a
  subsequence of what was put in.
\<close>

inductive history :: "'q \<Rightarrow> 'a list \<Rightarrow> 'a list \<Rightarrow> 'q \<Rightarrow> bool" for q0 where
  start: "history q0 [] [] q0"
| added: "history q0 ins outs q \<Longrightarrow> add x q = Some q' \<Longrightarrow> history q0 (ins @ [x]) outs q'"
| drained: "history q0 ins outs q \<Longrightarrow> drain n q = (out, q') \<Longrightarrow> history q0 ins (outs @ out) q'"

lemma history_inv: "history q0 ins outs q \<Longrightarrow> inv q0 \<Longrightarrow> inv q \<and> cap q = cap q0"
  by (induction rule: history.induct) (auto dest: add_inv drain_inv)

lemma history_subseq:
  assumes "history q0 ins outs q" and "inv q0" and "contents q0 = []"
  shows "subseq (outs @ contents q) ins"
  using assms(1)
proof (induction rule: history.induct)
  case start
  then show ?case using assms by simp
next
  case (added ins outs q x q')
  have "contents q' = last_n (cap q) (contents q @ [x])"
    using added history_inv assms(2) add_contents by blast
  then have "subseq (outs @ contents q') (outs @ contents q @ [x])"
    by (simp add: list_emb_append_mono subseq_last_n)
  also have "subseq (outs @ contents q @ [x]) (ins @ [x])"
    using list_emb_append_mono [OF added.IH, of "[x]" "[x]"] by simp
  finally show ?case .
next
  case (drained ins outs q n out q')
  then have "out @ contents q' = contents q"
    using history_inv assms(2) drain_contents by blast
  with drained.IH show ?case by simp
qed

text \<open>The newest messages, as many as the queue holds, have come out or are still inside.\<close>

lemma history_newest:
  assumes "history q0 ins outs q" and "inv q0" and "contents q0 = []"
  shows "last_n (cap q0) (outs @ contents q) = last_n (cap q0) ins"
  using assms(1)
proof (induction rule: history.induct)
  case start
  then show ?case using assms by simp
next
  case (added ins outs q x q')
  have "contents q' = last_n (cap q0) (contents q @ [x])"
    using added history_inv assms(2) add_contents by metis
  then have "last_n (cap q0) (outs @ contents q') = last_n (cap q0) ((outs @ contents q) @ [x])"
    by (simp add: last_n_append_right)
  also have "\<dots> = last_n (cap q0) (last_n (cap q0) (outs @ contents q) @ [x])" by simp
  also have "\<dots> = last_n (cap q0) (ins @ [x])" by (simp add: added.IH)
  finally show ?case .
next
  case (drained ins outs q n out q')
  then have "out @ contents q' = contents q"
    using history_inv assms(2) drain_contents by blast
  with drained.IH show ?case by simp
qed

end

text \<open>The model's queue, drained into an empty slice with limit \<open>n\<close>, keeps the contract.\<close>

definition mq_drain :: "nat \<Rightarrow> MessageQueue \<Rightarrow> FromConnectorMessage list \<times> MessageQueue" where
  "mq_drain n m = (case MessageQueue_DrainTo [] (int n) m of (out, _, m') \<Rightarrow> (out, m'))"

interpretation mq: bounded_fifo MessageQueue_Add mq_drain mq_queue "\<lambda>m. nat (mq_maxSize m)" mq_ok
  by unfold_locales
    (auto simp: MessageQueue_Add_ok mq_drain_def MessageQueue_DrainTo_eq drain_count_def Let_def,
     auto simp: mq_ok_def)

section \<open>The group\<close>

text \<open>The abstract view of a group: the waiting messages of every room.\<close>

definition queue_of :: "(string, MessageQueue) gomap \<Rightarrow> string \<Rightarrow> FromConnectorMessage list" where
  "queue_of grp r = (case map_of grp r of None \<Rightarrow> [] | Some m \<Rightarrow> mq_queue m)"

definition waiting :: "MessageQueueGroup \<Rightarrow> string \<Rightarrow> FromConnectorMessage list" where
  "waiting mqg r = (case mqg of None \<Rightarrow> [] | Some grp \<Rightarrow> queue_of grp r)"

text \<open>Every queue was made by \<^verbatim>\<open>NewMessageQueue\<close> and holds messages of its own room.\<close>

definition room_mq_ok :: "string \<Rightarrow> MessageQueue \<Rightarrow> bool" where
  "room_mq_ok r m \<longleftrightarrow>
     mq_ok m \<and> mq_maxSize m = 100 \<and> (\<forall>x \<in> set (mq_queue m). fm_RoomId x = r)"

definition group_ok :: "MessageQueueGroup \<Rightarrow> bool" where
  "group_ok mqg \<longleftrightarrow>
     (case mqg of None \<Rightarrow> True
      | Some grp \<Rightarrow> gomap_ok grp \<and> (\<forall>r m. map_of grp r = Some m \<longrightarrow> room_mq_ok r m))"

lemma group_ok_None [simp]: "group_ok None"
  by (simp add: group_ok_def)

lemma room_mq_ok_New [simp]: "room_mq_ok r NewMessageQueue"
  by (simp add: room_mq_ok_def) (simp add: NewMessageQueue_def)

lemma room_mq_ok_Add:
  assumes "room_mq_ok (fm_RoomId msg) m"
  shows "room_mq_ok (fm_RoomId msg) (m\<lparr>mq_queue := last_n 100 (mq_queue m @ [msg])\<rparr>)"
proof -
  have "set (last_n 100 (mq_queue m @ [msg])) \<subseteq> set (mq_queue m @ [msg])"
    by (simp only: last_n_def set_drop_subset)
  with assms show ?thesis by (auto simp: room_mq_ok_def mq_ok_def)
qed

lemma room_mq_ok_drop: "room_mq_ok r m \<Longrightarrow> room_mq_ok r (m\<lparr>mq_queue := drop k (mq_queue m)\<rparr>)"
  by (auto simp: room_mq_ok_def mq_ok_def dest: in_set_dropD)

lemma room_queue_ok:
  assumes "group_ok mqg" and "room_queue r mqg = (grp, m)"
  shows "room_mq_ok r m" and "mq_queue m = waiting mqg r" and "group_ok (Some grp)"
    and "queue_of grp = waiting mqg"
  using assms
  by (auto simp: room_queue_def group_ok_def waiting_def queue_of_def [abs_def] gomap_simps Let_def
      NewMessageQueue_def [THEN arg_cong [where f = mq_queue]] split: option.splits if_splits)

lemma MessageQueueGroup_Add_ok:
  assumes "group_ok mqg"
  shows "\<exists>mqg'. MessageQueueGroup_Add msg mqg = Some mqg' \<and> group_ok mqg' \<and>
    waiting mqg' =
      (waiting mqg)(fm_RoomId msg := last_n 100 (waiting mqg (fm_RoomId msg) @ [msg]))"
proof -
  obtain grp m where rq: "room_queue (fm_RoomId msg) mqg = (grp, m)" by fastforce
  note facts = room_queue_ok [OF assms rq]
  let ?m' = "m\<lparr>mq_queue := last_n 100 (mq_queue m @ [msg])\<rparr>"
  let ?grp' = "AList.update (fm_RoomId msg) ?m' grp"
  have "MessageQueue_Add msg m = Some ?m'"
    using facts(1) by (simp add: MessageQueue_Add_ok room_mq_ok_def)
  then have "MessageQueueGroup_Add msg mqg = Some (Some ?grp')"
    by (simp add: MessageQueueGroup_Add_def rq)
  moreover have "group_ok (Some ?grp')"
    using facts(3) room_mq_ok_Add [OF facts(1)]
    by (auto simp: group_ok_def gomap_simps split: if_splits)
  moreover have "waiting (Some ?grp') =
      (waiting mqg)(fm_RoomId msg := last_n 100 (waiting mqg (fm_RoomId msg) @ [msg]))"
    using facts(2) by (simp add: waiting_def fun_eq_iff queue_of_def gomap_simps
        facts(4) [unfolded queue_of_def fun_eq_iff, rule_format])
  ultimately show ?thesis by blast
qed

text \<open>
  A drain takes a prefix of every room it visits, in visiting order, until the limit is
  reached. \<open>taken\<close> is what it takes from each room.
\<close>

lemma drain_rooms_turn:
  assumes "c = drain_count n (length msgs) (length (queue_of grp k))"
    and "drain_rooms n (k # ks) (msgs, t, grp) = res"
  obtains grp1 where
    "drain_rooms n ks (msgs @ take c (queue_of grp k), t + (length (queue_of grp k) - c), grp1) = res"
    "\<And>j. queue_of grp1 j = (if j = k then drop c (queue_of grp k) else queue_of grp j)"
    "\<And>j. j \<noteq> k \<Longrightarrow> map_of grp1 j = map_of grp j"
proof (rule that)
  let ?grp1 = "case map_of grp k of None \<Rightarrow> grp
     | Some v \<Rightarrow> AList.update k (v\<lparr>mq_queue := drop c (mq_queue v)\<rparr>) grp"
  show "drain_rooms n ks (msgs @ take c (queue_of grp k), t + (length (queue_of grp k) - c), ?grp1) = res"
    using assms by (auto simp: queue_of_def MessageQueue_DrainTo_eq Let_def drain_count_def split: option.splits)
  show "queue_of ?grp1 j = (if j = k then drop c (queue_of grp k) else queue_of grp j)" for j
    by (auto simp: queue_of_def gomap_simps split: option.split)
  show "map_of ?grp1 j = map_of grp j" if "j \<noteq> k" for j
    using that by (auto simp: gomap_simps split: option.split)
qed

lemma drain_rooms_spec:
  assumes "distinct ks" and "drain_rooms n ks (msgs, t, grp) = (msgs', t', grp')"
  shows "\<exists>taken.
    msgs' = msgs @ concat (map taken ks) \<and>
    (\<forall>k \<in> set ks. queue_of grp k = taken k @ queue_of grp' k) \<and>
    t' = t + sum_list (map (\<lambda>k. length (queue_of grp' k)) ks) \<and>
    (\<forall>k. k \<notin> set ks \<longrightarrow> map_of grp' k = map_of grp k) \<and>
    int (length msgs') \<le> max n (int (length msgs)) \<and>
    (t < t' \<longrightarrow> n \<le> int (length msgs'))"
  using assms
proof (induction ks arbitrary: msgs t grp)
  case Nil
  then show ?case by simp
next
  case (Cons k ks)
  define c where "c = drain_count n (length msgs) (length (queue_of grp k))"
  obtain grp1 where step: "drain_rooms n ks (msgs @ take c (queue_of grp k), t + (length (queue_of grp k) - c), grp1) =
      (msgs', t', grp')"
    and q1: "\<And>j. queue_of grp1 j = (if j = k then drop c (queue_of grp k) else queue_of grp j)"
    and other: "\<And>j. j \<noteq> k \<Longrightarrow> map_of grp1 j = map_of grp j"
    by (rule drain_rooms_turn [OF c_def Cons.prems(2)]) blast
  from Cons.prems(1) have dk: "distinct ks" and kk: "k \<notin> set ks" by auto
  from Cons.IH [OF dk step] obtain taken where
    m': "msgs' = (msgs @ take c (queue_of grp k)) @ concat (map taken ks)" and
    tk: "\<forall>j \<in> set ks. queue_of grp1 j = taken j @ queue_of grp' j" and
    t': "t' = t + (length (queue_of grp k) - c) + sum_list (map (\<lambda>k. length (queue_of grp' k)) ks)" and
    fr: "\<forall>j. j \<notin> set ks \<longrightarrow> map_of grp' j = map_of grp1 j" and
    bd: "int (length msgs') \<le> max n (int (length (msgs @ take c (queue_of grp k))))" and
    fl: "t + (length (queue_of grp k) - c) < t' \<longrightarrow> n \<le> int (length msgs')"
    by blast
  have qk: "queue_of grp' k = drop c (queue_of grp k)" using fr kk q1 [of k] by (simp add: queue_of_def)
  have "n \<le> int (length msgs')" if "t < t'"
  proof (cases "t + (length (queue_of grp k) - c) < t'")
    case False
    with that t' have "c < length (queue_of grp k)" by auto
    then have "n \<le> int (length (msgs @ take c (queue_of grp k)))" by (auto simp: c_def drain_count_def)
    with m' show ?thesis by simp
  qed (use fl in blast)
  moreover have "int (length msgs') \<le> max n (int (length msgs))" using bd by (auto simp: c_def drain_count_def)
  moreover let ?taken = "taken(k := take c (queue_of grp k))"
  have "msgs' = msgs @ concat (map ?taken (k # ks))" using m' kk by (simp add: map_fun_upd)
  moreover have "\<forall>j \<in> set (k # ks). queue_of grp j = ?taken j @ queue_of grp' j" using tk qk q1 kk by auto
  moreover have "t' = t + sum_list (map (\<lambda>k. length (queue_of grp' k)) (k # ks))" using t' qk by simp
  moreover have "\<forall>j. j \<notin> set (k # ks) \<longrightarrow> map_of grp' j = map_of grp j" using fr other by auto
  ultimately show ?case by blast
qed

lemma drain_rooms_ok:
  "group_ok (Some grp) \<Longrightarrow> drain_rooms n ks (msgs, t, grp) = (msgs', t', grp') \<Longrightarrow>
   group_ok (Some grp') \<and> keys_of grp' = keys_of grp"
proof (induction ks arbitrary: msgs t grp)
  case Nil
  then show ?case by simp
next
  case (Cons k ks)
  show ?case
  proof (cases "map_of grp k")
    case None
    with Cons show ?thesis by simp
  next
    case (Some v)
    let ?c = "drain_count n (length msgs) (length (mq_queue v))"
    let ?g = "AList.update k (v\<lparr>mq_queue := drop ?c (mq_queue v)\<rparr>) grp"
    have "group_ok (Some ?g)"
      using Cons.prems(1) Some by (auto simp: group_ok_def gomap_simps room_mq_ok_drop)
    moreover have "keys_of ?g = keys_of grp"
      using Some by (auto simp: keys_of_conv)
    ultimately show ?thesis
      using Cons.IH [of ?g] Cons.prems(2) Some
      by (simp add: MessageQueue_DrainTo_eq Let_def)
  qed
qed

lemma sum_list_map_distinct:
  "distinct ks \<Longrightarrow> sum_list (map f ks) = (\<Sum>k \<in> set ks. (f k :: nat))"
  by (simp add: sum_list_distinct_conv_sum_set)

section \<open>Histories of the group\<close>

text \<open>
  The runs of the package variable \<^verbatim>\<open>messageQueueGroup\<close>: it starts as the nil map, chat
  handlers add, the ticker drains into a fresh slice. \<open>group_run ins outs g\<close>: the additions
  \<open>ins\<close> and the drained messages \<open>outs\<close> lead to \<open>g\<close>.
\<close>

inductive group_run ::
  "FromConnectorMessage list \<Rightarrow> FromConnectorMessage list \<Rightarrow> MessageQueueGroup \<Rightarrow> bool" where
  gr_start: "group_run [] [] None"
| gr_add: "group_run ins outs g \<Longrightarrow> MessageQueueGroup_Add x g = Some g' \<Longrightarrow>
    group_run (ins @ [x]) outs g'"
| gr_drain: "group_run ins outs g \<Longrightarrow> \<forall>grp. g = Some grp \<longrightarrow> range_order grp order \<Longrightarrow>
    MessageQueueGroup_DrainTo order [] n g = (out, rest, g') \<Longrightarrow>
    group_run ins (outs @ out) g'"

abbreviation of_room :: "string \<Rightarrow> FromConnectorMessage list \<Rightarrow> FromConnectorMessage list" where
  "of_room r \<equiv> filter (\<lambda>x. fm_RoomId x = r)"

lemma group_okD: "group_ok (Some grp) \<Longrightarrow> map_of grp r = Some m \<Longrightarrow> room_mq_ok r m"
  by (simp add: group_ok_def)

lemma waiting_cases:
  assumes "group_ok g"
  shows "waiting g r = [] \<or> (\<exists>m. room_mq_ok r m \<and> waiting g r = mq_queue m)"
  using assms by (auto simp: waiting_def queue_of_def split: option.split dest: group_okD)

lemma waiting_room: "group_ok g \<Longrightarrow> x \<in> set (waiting g r) \<Longrightarrow> fm_RoomId x = r"
  using waiting_cases [of g r] by (auto simp: room_mq_ok_def)

lemma waiting_bound: "group_ok g \<Longrightarrow> length (waiting g r) \<le> 100"
  using waiting_cases [of g r] by (auto simp: room_mq_ok_def mq_ok_def)

lemma of_room_concat:
  assumes "distinct ks" and "\<And>k x. k \<in> set ks \<Longrightarrow> x \<in> set (f k) \<Longrightarrow> fm_RoomId x = k"
  shows "of_room r (concat (map f ks)) = (if r \<in> set ks then f r else [])"
  using assms
proof (induction ks)
  case Nil
  then show ?case by simp
next
  case (Cons k ks)
  have "of_room r (f k) = (if k = r then f r else [])"
    using Cons.prems(2) by (auto simp: filter_id_conv filter_empty_conv)
  with Cons show ?case by auto
qed

lemma MessageQueueGroup_DrainTo_spec:
  assumes "group_ok (Some grp)" and "range_order grp order"
    and "MessageQueueGroup_DrainTo order msgs n (Some grp) = (msgs', rest, g')"
  shows "\<exists>taken. msgs' = msgs @ concat (map taken order) \<and>
      (\<forall>r. queue_of grp r = taken r @ waiting g' r) \<and>
      rest = (\<Sum>r \<in> keys_of grp. length (waiting g' r)) \<and>
      int (length msgs') \<le> max n (int (length msgs)) \<and>
      (0 < rest \<longrightarrow> n \<le> int (length msgs')) \<and> group_ok g'"
proof -
  from assms(3) obtain grp' where
    d: "drain_rooms n order (msgs, 0, grp) = (msgs', rest, grp')" and g': "g' = Some grp'"
    by (auto simp: MessageQueueGroup_DrainTo_def split: prod.splits)
  from assms(2) have dist: "distinct order" and set_order: "set order = keys_of grp"
    by (auto simp: range_order_def)
  from drain_rooms_spec [OF dist d] obtain taken where
    m': "msgs' = msgs @ concat (map taken order)" and
    tk: "\<forall>k \<in> set order. queue_of grp k = taken k @ queue_of grp' k" and
    rest: "rest = 0 + sum_list (map (\<lambda>k. length (queue_of grp' k)) order)" and
    fr: "\<forall>k. k \<notin> set order \<longrightarrow> map_of grp' k = map_of grp k" and
    bd: "int (length msgs') \<le> max n (int (length msgs))" and
    fl: "0 < rest \<longrightarrow> n \<le> int (length msgs')"
    by (elim exE conjE) (rule that)
  let ?taken = "\<lambda>k. if k \<in> set order then taken k else []"
  have "queue_of grp k = ?taken k @ waiting g' k" for k
    using tk fr by (auto simp: g' waiting_def queue_of_def)
  moreover have "msgs' = msgs @ concat (map ?taken order)"
    using m' by (simp cong: map_cong)
  moreover have "rest = (\<Sum>r \<in> keys_of grp. length (waiting g' r))"
    using rest dist by (simp add: sum_list_map_distinct set_order g' waiting_def)
  moreover have "group_ok g'"
    using drain_rooms_ok [OF assms(1) d] g' by simp
  ultimately show ?thesis using bd fl by (intro exI [of _ ?taken]) simp
qed

text \<open>
  C20: A chat message is stored in the queue of its own room, made on first use: the queue
  becomes the last 100 of its old messages and the new one, and no other room changes. The
  addition always returns and keeps the group well-formed.
\<close>

theorem group_Add_refines:
  assumes "group_ok mqg"
  shows "\<exists>mqg'. MessageQueueGroup_Add msg mqg = Some mqg' \<and> group_ok mqg' \<and>
    waiting mqg' =
      (waiting mqg)(fm_RoomId msg := last_n 100 (waiting mqg (fm_RoomId msg) @ [msg]))"
  using assms by (rule MessageQueueGroup_Add_ok)

text \<open>
  Draining a group, in whatever order the run time visits the rooms, takes from every room
  a prefix of its queue and leaves the rest in order; the slice never grows past the limit, the
  reported rest is the number of messages left behind, and messages are left behind only when
  the limit is reached.
\<close>

theorem group_DrainTo_prefixes:
  assumes "group_ok (Some grp)" and "range_order grp order"
    and "MessageQueueGroup_DrainTo order msgs maxLength (Some grp) = (msgs', rest, g')"
  shows "\<exists>taken. msgs' = msgs @ concat (map taken order) \<and>
      (\<forall>r. queue_of grp r = taken r @ waiting g' r) \<and>
      rest = (\<Sum>r \<in> keys_of grp. length (waiting g' r)) \<and>
      int (length msgs') \<le> max maxLength (int (length msgs)) \<and>
      (0 < rest \<longrightarrow> maxLength \<le> int (length msgs')) \<and> group_ok g'"
  using assms by (rule MessageQueueGroup_DrainTo_spec)

lemma group_run_ok: "group_run ins outs g \<Longrightarrow> group_ok g"
proof (induction rule: group_run.induct)
  case gr_start
  show ?case by simp
next
  case (gr_add ins outs g x g')
  then show ?case using MessageQueueGroup_Add_ok [of g x] by auto
next
  case (gr_drain ins outs g order n out rest g')
  then show ?case
    using MessageQueueGroup_DrainTo_spec [of _ order "[]" n out rest g']
    by (cases g) (auto simp: MessageQueueGroup_DrainTo_def)
qed

lemma drain_of_room:
  assumes "group_ok g" and "\<forall>grp. g = Some grp \<longrightarrow> range_order grp order"
    and "MessageQueueGroup_DrainTo order [] n g = (out, rest, g')"
  shows "of_room r out @ waiting g' r = waiting g r"
proof (cases g)
  case None
  with assms(3) show ?thesis by (auto simp: MessageQueueGroup_DrainTo_def waiting_def)
next
  case (Some grp)
  from Some assms(2) have ro: "range_order grp order" by simp
  from MessageQueueGroup_DrainTo_spec [OF _ ro, of "[]" n out rest g'] assms(1,3) Some
  obtain taken where out: "out = concat (map taken order)"
    and tk: "\<And>r. queue_of grp r = taken r @ waiting g' r" by auto
  have "of_room r out = (if r \<in> set order then taken r else [])"
    unfolding out
  proof (rule of_room_concat)
    show "distinct order" using ro by (rule range_orderD)
    show "fm_RoomId x = k" if "x \<in> set (taken k)" for k x
      using waiting_room [OF assms(1), of x k] that tk [of k] Some by (simp add: waiting_def)
  qed
  moreover have "r \<notin> set order \<Longrightarrow> taken r = []"
    using tk [of r] range_orderD(2) [OF ro, of r] by (auto simp: queue_of_def)
  ultimately have "of_room r out = taken r" by auto
  with tk [of r] Some show ?thesis by (simp add: waiting_def)
qed

lemma add_of_room:
  assumes "group_ok g" and "MessageQueueGroup_Add x g = Some g'"
  shows "waiting g' r = (if fm_RoomId x = r then last_n 100 (waiting g r @ [x]) else waiting g r)"
  using MessageQueueGroup_Add_ok [OF assms(1), of x] assms(2) by auto

lemma group_run_subseq:
  "group_run ins outs g \<Longrightarrow> subseq (of_room r outs @ waiting g r) (of_room r ins)"
proof (induction rule: group_run.induct)
  case gr_start
  show ?case by (simp add: waiting_def)
next
  case (gr_add ins outs g x g')
  note w = add_of_room [OF group_run_ok [OF gr_add.hyps(1)] gr_add.hyps(2), of r]
  show ?case
  proof (cases "fm_RoomId x = r")
    case True
    have "subseq (of_room r outs @ waiting g' r) (of_room r outs @ waiting g r @ [x])"
      using w True by (simp add: list_emb_append_mono subseq_last_n)
    also have "subseq \<dots> (of_room r ins @ [x])"
      using list_emb_append_mono [OF gr_add.IH, of "[x]" "[x]"] by simp
    finally show ?thesis using True by simp
  qed (use w gr_add.IH in simp)
next
  case (gr_drain ins outs g order n out rest g')
  from drain_of_room [OF group_run_ok [OF gr_drain.hyps(1)] gr_drain.hyps(2,3), of r] gr_drain.IH show ?case by simp
qed

text \<open>Of the messages of a room the newest 100 are never lost.\<close>

lemma group_run_newest:
  "group_run ins outs g \<Longrightarrow> last_n 100 (of_room r outs @ waiting g r) = last_n 100 (of_room r ins)"
proof (induction rule: group_run.induct)
  case gr_start
  show ?case by (simp add: waiting_def)
next
  case (gr_add ins outs g x g')
  note w = add_of_room [OF group_run_ok [OF gr_add.hyps(1)] gr_add.hyps(2), of r]
  show ?case
  proof (cases "fm_RoomId x = r")
    case True
    then have "last_n 100 (of_room r outs @ waiting g' r) = last_n 100 ((of_room r outs @ waiting g r) @ [x])"
      using w by (simp add: last_n_append_right)
    also have "\<dots> = last_n 100 (last_n 100 (of_room r outs @ waiting g r) @ [x])" by simp
    also have "\<dots> = last_n 100 (of_room r ins @ [x])" by (simp add: gr_add.IH)
    finally show ?thesis using True by simp
  qed (use w gr_add.IH in simp)
next
  case (gr_drain ins outs g order n out rest g')
  from drain_of_room [OF group_run_ok [OF gr_drain.hyps(1)] gr_drain.hyps(2,3), of r] gr_drain.IH show ?case by simp
qed

text \<open>
  Over every run of additions and drains from the start of the process, the messages of a
  room that were forwarded, followed by those still waiting, are a subsequence of the messages
  added for that room: nothing is duplicated, reordered, invented or moved between rooms, and
  at most 100 messages of a room wait.
\<close>

theorem group_run_fifo:
  assumes "group_run ins outs g"
  shows "subseq (of_room r outs @ waiting g r) (of_room r ins) \<and> length (waiting g r) \<le> 100"
proof
  show "subseq (of_room r outs @ waiting g r) (of_room r ins)"
    using assms by (rule group_run_subseq)
  show "length (waiting g r) \<le> 100"
    using group_run_ok [OF assms] by (rule waiting_bound)
qed

text \<open>
  C40: The trimming loop of \<^verbatim>\<open>MessageQueue.Add\<close> fails to return exactly on a queue with a
  negative bound; with any other bound it stops and keeps the newest messages.
\<close>

theorem MessageQueue_Add_returns_iff:
  "MessageQueue_Add msg m =
     (if mq_maxSize m < 0 then None
      else Some (m\<lparr>mq_queue := last_n (nat (mq_maxSize m)) (mq_queue m @ [msg])\<rparr>))"
  by (simp add: MessageQueue_Add_def trim_returns trim_diverges last_n_def)

text \<open>
  Adding any list of messages to a fresh queue returns and leaves exactly the newest 100
  of them, in order.
\<close>

theorem fresh_queue_keeps_newest:
  "\<exists>m. mq.add_all xs NewMessageQueue = Some m \<and> mq_queue m = last_n 100 xs \<and> mq_ok m"
proof -
  have "length (mq_queue NewMessageQueue) \<le> nat (mq_maxSize NewMessageQueue)"
    by (simp add: NewMessageQueue_def)
  from mq.add_all_contents [OF mq_ok_New this, of xs] show ?thesis
    by (auto simp: NewMessageQueue_def)
qed

section \<open>Witnesses\<close>

definition sample_msg :: "string \<Rightarrow> string \<Rightarrow> FromConnectorMessage" where
  "sample_msg i r = \<lparr>fm_MessageId = i, fm_RoomId = r, fm_UserId = ''u'', fm_Nickname = ''n'',
     fm_Time = 0, fm_Level = 1, fm_Type = 1, fm_Params = [(''content'', ''hi'')]\<rparr>"

definition sample_group :: "(string, MessageQueue) gomap" where
  "sample_group =
     [(''r'', NewMessageQueue\<lparr>mq_queue := [sample_msg ''1'' ''r'', sample_msg ''2'' ''r'']\<rparr>)]"

lemma sample_msg_RoomId [simp]: "fm_RoomId (sample_msg i r) = r"
  by (simp add: sample_msg_def)

lemma sample_group_ok: "group_ok (Some sample_group)"
  by (simp add: sample_group_def group_ok_def room_mq_ok_def mq_ok_def NewMessageQueue_def)

lemma sample_group_waiting:
  "waiting (Some sample_group) ''r'' = [sample_msg ''1'' ''r'', sample_msg ''2'' ''r'']"
  by (simp add: waiting_def queue_of_def sample_group_def)

lemma sample_group_order: "range_order sample_group [''r'']"
  by (simp add: sample_group_def range_order_def keys_of_def)

theorem group_Add_refines_witness:
  "group_ok (Some sample_group) \<and>
   (\<exists>g. MessageQueueGroup_Add (sample_msg ''3'' ''r'') (Some sample_group) = Some g \<and>
      waiting g ''r'' = [sample_msg ''1'' ''r'', sample_msg ''2'' ''r'', sample_msg ''3'' ''r''])"
  using sample_group_ok group_Add_refines [OF sample_group_ok, of "sample_msg ''3'' ''r''"]
  by (auto simp: sample_group_waiting)

theorem group_DrainTo_prefixes_witness:
  "\<exists>g taken. MessageQueueGroup_DrainTo [''r''] [] 1 (Some sample_group) =
       ([sample_msg ''1'' ''r''], 1, g) \<and>
     queue_of sample_group ''r'' = taken @ waiting g ''r'' \<and> taken = [sample_msg ''1'' ''r'']"
proof -
  obtain g where
    g: "MessageQueueGroup_DrainTo [''r''] [] 1 (Some sample_group) = ([sample_msg ''1'' ''r''], 1, g)"
    by (simp add: MessageQueueGroup_DrainTo_def sample_group_def MessageQueue_DrainTo_def)
  from group_DrainTo_prefixes [OF sample_group_ok sample_group_order g] g show ?thesis by auto
qed

theorem group_run_fifo_witness:
  "\<exists>g. group_run [sample_msg ''1'' ''r''] [sample_msg ''1'' ''r''] g \<and>
     subseq (of_room ''r'' [sample_msg ''1'' ''r''] @ waiting g ''r'')
       (of_room ''r'' [sample_msg ''1'' ''r''])"
proof -
  let ?x = "sample_msg ''1'' ''r''"
  let ?g1 = "[(''r'', NewMessageQueue\<lparr>mq_queue := [?x]\<rparr>)]"
  have "MessageQueueGroup_Add ?x None = Some (Some ?g1)"
    by (simp add: MessageQueueGroup_Add_def room_queue_def MessageQueue_Add_ok)
      (simp add: NewMessageQueue_def)
  from gr_add [OF gr_start this] have r1: "group_run [?x] [] (Some ?g1)" by simp
  obtain g rest where "MessageQueueGroup_DrainTo [''r''] [] 10000 (Some ?g1) = ([?x], rest, g)"
    by (simp add: MessageQueueGroup_DrainTo_def MessageQueue_DrainTo_def)
  from gr_drain [OF r1 _ this] have "group_run [?x] [?x] g"
    by (simp add: range_order_def keys_of_def)
  with group_run_fifo [OF this, of "''r''"] show ?thesis by blast
qed

end
