(* ===== verification/Go_Utf8.thy ===== *)
theory Go_Utf8
  imports Go_Prelude
begin

text \<open>
  Go strings are byte sequences that usually hold UTF-8. This theory has the decoding of a string
  into characters that \<^verbatim>\<open>[]rune\<close> and \<^verbatim>\<open>encoding/json\<close> perform, and the encoding
  of a character.
\<close>

section \<open>Strings as runes\<close>

text \<open>
  \<^verbatim>\<open>[]rune(s)\<close>: a string is cut into the encodings of its characters; every byte that does
  not start a valid encoding becomes the replacement character U+FFFD.
\<close>

definition byte_in :: "nat \<Rightarrow> nat \<Rightarrow> char \<Rightarrow> bool" where
  "byte_in lo hi c \<longleftrightarrow> lo \<le> (of_char c :: nat) \<and> (of_char c :: nat) \<le> hi"

text \<open>
  The lead bytes of the encodings of more than one byte: how many bytes follow, and the range of
  the first of them.
\<close>

definition lead_byte :: "char \<Rightarrow> (nat \<times> nat \<times> nat) option" where
  "lead_byte a =
     (if byte_in 0xC2 0xDF a then Some (1, 0x80, 0xBF)
      else if byte_in 0xE0 0xE0 a then Some (2, 0xA0, 0xBF)
      else if byte_in 0xED 0xED a then Some (2, 0x80, 0x9F)
      else if byte_in 0xE1 0xEF a then Some (2, 0x80, 0xBF)
      else if byte_in 0xF0 0xF0 a then Some (3, 0x90, 0xBF)
      else if byte_in 0xF1 0xF3 a then Some (3, 0x80, 0xBF)
      else if byte_in 0xF4 0xF4 a then Some (3, 0x80, 0x8F)
      else None)"

text \<open>The length of the encoding at the front of a string; 0 when it is invalid.\<close>

definition rune_len :: "string \<Rightarrow> nat" where
  "rune_len s =
     (case s of
        [] \<Rightarrow> 0
      | a # r \<Rightarrow>
          (if byte_in 0 0x7F a then 1
           else case lead_byte a of
             None \<Rightarrow> 0
           | Some (n, lo, hi) \<Rightarrow>
               (if n \<le> length r \<and> byte_in lo hi (hd r) \<and> list_all (byte_in 0x80 0xBF) (take (n - 1) (tl r))
                then Suc n else 0)))"

function runes :: "string \<Rightarrow> string list" where
  "runes s =
     (if s = [] then []
      else if rune_len s = 0 then [CHR 0xEF, CHR 0xBF, CHR 0xBD] # runes (drop 1 s)
      else take (rune_len s) s # runes (drop (rune_len s) s))"
  by auto
termination by (relation "measure length") auto

declare runes.simps [simp del]

definition ascii :: "string \<Rightarrow> bool" where
  "ascii s \<longleftrightarrow> list_all (byte_in 0 0x7F) s"

lemma runes_ascii: "ascii s \<Longrightarrow> runes s = map (\<lambda>c. [c]) s"
proof (induction s)
  case (Cons c s)
  then have "rune_len (c # s) = 1" by (simp add: rune_len_def ascii_def)
  with Cons show ?case by (subst runes.simps) (simp add: ascii_def)
qed (simp add: runes.simps)

text \<open>The encoding of a character (\<^verbatim>\<open>utf8.EncodeRune\<close>).\<close>

definition utf8_encode :: "nat \<Rightarrow> string" where
  "utf8_encode n =
     (if n < 0x80 then [char_of n]
      else if n < 0x800 then [char_of (0xC0 + n div 64), char_of (0x80 + n mod 64)]
      else if n < 0x10000 then [char_of (0xE0 + n div 4096), char_of (0x80 + n div 64 mod 64), char_of (0x80 + n mod 64)]
      else [char_of (0xF0 + n div 262144), char_of (0x80 + n div 4096 mod 64), char_of (0x80 + n div 64 mod 64),
            char_of (0x80 + n mod 64)])"

definition replacement_rune :: string where
  "replacement_rune = [CHR 0xEF, CHR 0xBF, CHR 0xBD]"

text \<open>A string with its invalid bytes replaced, and the strings that are left as they are.\<close>

definition coerce_utf8 :: "string \<Rightarrow> string" where
  "coerce_utf8 s = concat (runes s)"

function valid_utf8 :: "string \<Rightarrow> bool" where
  "valid_utf8 s = (if s = [] then True else if rune_len s = 0 then False else valid_utf8 (drop (rune_len s) s))"
  by auto
termination by (relation "measure length") auto

declare valid_utf8.simps [simp del]

section \<open>Facts\<close>

lemma rune_len_Nil [simp]: "rune_len [] = 0"
  by (simp add: rune_len_def)

lemma rune_len_ascii [simp]: "byte_in 0 0x7F c \<Longrightarrow> rune_len (c # s) = 1"
  by (simp add: rune_len_def)

lemma lead_byte_bounds:
  "lead_byte a = Some (n, lo, hi) \<Longrightarrow> 1 \<le> n \<and> n \<le> 3 \<and> 0x80 \<le> lo \<and> hi \<le> 0xBF \<and> byte_in 0xC2 0xF4 a"
  by (auto simp: lead_byte_def byte_in_def split: if_splits)

lemma rune_len_le: "rune_len s \<le> length s" "rune_len s \<le> 4"
  by (auto simp: rune_len_def split: list.split option.split dest: lead_byte_bounds)

text \<open>The length of an encoding is decided by its own bytes.\<close>

lemma rune_len_prefix:
  assumes "rune_len s \<noteq> 0"
  shows "rune_len (take (rune_len s) s @ r) = rune_len s"
proof -
  obtain a t where s: "s = a # t" using assms by (cases s) auto
  show ?thesis
  proof (cases "byte_in 0 0x7F a")
    case True
    with s show ?thesis by simp
  next
    case False
    then obtain n lo hi where l: "lead_byte a = Some (n, lo, hi)" and n: "n \<le> length t" "rune_len s = Suc n"
      and t: "byte_in lo hi (hd t)" "list_all (byte_in 0x80 0xBF) (take (n - 1) (tl t))"
      using assms s by (auto simp: rune_len_def split: option.splits if_splits)
    from lead_byte_bounds [OF l] n obtain b u where u: "t = b # u" "0 < n" by (cases t) auto
    with n t l False s show ?thesis
      by (cases n) (auto simp: rune_len_def)
  qed
qed

text \<open>Only the first byte of an encoding can be an ASCII character.\<close>

lemma rune_len_bytes:
  assumes "rune_len s \<noteq> 0" and "\<not> byte_in 0 0x7F (hd s)"
  shows "list_all (byte_in 0x80 0xF4) (take (rune_len s) s)"
proof -
  obtain a t where s: "s = a # t" using assms by (cases s) auto
  then obtain n lo hi where l: "lead_byte a = Some (n, lo, hi)" and n: "n \<le> length t" "rune_len s = Suc n"
    and t: "byte_in lo hi (hd t)" "list_all (byte_in 0x80 0xBF) (take (n - 1) (tl t))"
    using assms by (auto simp: rune_len_def split: option.splits if_splits)
  from lead_byte_bounds [OF l] n obtain b u where u: "t = b # u" "0 < n" by (cases t) auto
  then show ?thesis
    using lead_byte_bounds [OF l] n t s by (cases n) (auto simp: list_all_iff byte_in_def)
qed

lemma valid_utf8_Nil [simp]: "valid_utf8 []" "coerce_utf8 [] = []"
  by (simp_all add: valid_utf8.simps coerce_utf8_def runes.simps)

lemma valid_utf8_ascii: "ascii s \<Longrightarrow> valid_utf8 s"
proof (induction s)
  case (Cons c s)
  then show ?case by (subst valid_utf8.simps) (simp add: ascii_def)
qed simp

lemma coerce_utf8_rune:
  "rune_len s \<noteq> 0 \<Longrightarrow> coerce_utf8 s = take (rune_len s) s @ coerce_utf8 (drop (rune_len s) s)"
  unfolding coerce_utf8_def by (subst runes.simps) auto

lemma coerce_utf8_bad:
  "rune_len (c # s) = 0 \<Longrightarrow> coerce_utf8 (c # s) = replacement_rune @ coerce_utf8 s"
  unfolding coerce_utf8_def by (subst runes.simps) (simp add: replacement_rune_def)

lemma coerce_utf8_valid [simp]: "valid_utf8 s \<Longrightarrow> coerce_utf8 s = s"
proof (induction s rule: valid_utf8.induct)
  case (1 s)
  show ?case
  proof (cases "s = []")
    case False
    with "1.prems" have "rune_len s \<noteq> 0" "valid_utf8 (drop (rune_len s) s)"
      by (simp_all add: valid_utf8.simps [of s] split: if_splits)
    with "1.IH" False show ?thesis by (simp add: coerce_utf8_rune)
  qed simp
qed

lemma valid_utf8_cons_rune:
  assumes "rune_len u = length u" and "u \<noteq> []"
  shows "valid_utf8 (u @ s) \<longleftrightarrow> valid_utf8 s"
  using rune_len_prefix [of u s] assms by (subst valid_utf8.simps) simp

lemma replacement_rune_len [simp]:
  "replacement_rune \<noteq> []" "rune_len replacement_rune = length replacement_rune"
  by (simp add: replacement_rune_def) code_simp

lemma valid_coerce_utf8 [simp]: "valid_utf8 (coerce_utf8 s)"
proof (induction s rule: runes.induct)
  case (1 s)
  consider "s = []" | "s \<noteq> []" "rune_len s = 0" | "rune_len s \<noteq> 0" by blast
  then show ?case
  proof cases
    case 2
    then obtain c t where "s = c # t" by (cases s) auto
    then show ?thesis
      using "1.IH"(1) 2 by (simp add: coerce_utf8_bad valid_utf8_cons_rune)
  next
    case 3
    have "rune_len (take (rune_len s) s) = length (take (rune_len s) s)"
      using rune_len_prefix [OF 3, of "[]"] rune_len_le(1) [of s] by simp
    moreover have "s \<noteq> []" using 3 by auto
    ultimately show ?thesis
      using "1.IH"(2) 3 by (simp add: coerce_utf8_rune valid_utf8_cons_rune)
  qed simp
qed

section \<open>Valid text\<close>

lemma valid_utf8_append: "valid_utf8 u \<Longrightarrow> valid_utf8 (u @ s) \<longleftrightarrow> valid_utf8 s"
proof (induction u rule: valid_utf8.induct)
  case (1 u)
  show ?case
  proof (cases "u = []")
    case False
    with "1.prems" have n: "rune_len u \<noteq> 0" and v: "valid_utf8 (drop (rune_len u) u)"
      by (simp_all add: valid_utf8.simps [of u] split: if_splits)
    let ?a = "take (rune_len u) u"
    have a: "rune_len ?a = length ?a" "?a \<noteq> []"
      using rune_len_prefix [OF n, of "[]"] rune_len_le(1) [of u] n False by auto
    have "u @ s = ?a @ drop (rune_len u) u @ s" by simp
    then have "valid_utf8 (u @ s) \<longleftrightarrow> valid_utf8 (drop (rune_len u) u @ s)"
      by (metis valid_utf8_cons_rune [OF a])
    also have "\<dots> \<longleftrightarrow> valid_utf8 s" using "1.IH" [OF False n v] .
    finally show ?thesis .
  qed simp
qed

lemma byte_in_char_of: "n < 256 \<Longrightarrow> byte_in lo hi (char_of n) \<longleftrightarrow> lo \<le> n \<and> n \<le> hi"
  by (simp add: byte_in_def take_bit_eq_mod)

lemma rune_len_2:
  fixes a b :: nat
  shows "2 \<le> a \<Longrightarrow> a < 32 \<Longrightarrow> b < 64 \<Longrightarrow> rune_len [char_of (0xC0 + a), char_of (0x80 + b)] = 2"
  by (simp add: rune_len_def byte_in_char_of lead_byte_def)

lemma rune_len_3:
  fixes a b c :: nat
  assumes "a < 16" "b < 64" "c < 64" "a = 0 \<Longrightarrow> 32 \<le> b" "a = 13 \<Longrightarrow> b < 32"
  shows "rune_len [char_of (0xE0 + a), char_of (0x80 + b), char_of (0x80 + c)] = 3"
proof -
  consider "a = 0" | "a = 13" | "0 < a" "a \<noteq> 13" by blast
  then show ?thesis using assms by cases (simp_all add: rune_len_def byte_in_char_of lead_byte_def)
qed

lemma rune_len_4:
  fixes a b c d :: nat
  assumes "a < 5" "b < 64" "c < 64" "d < 64" "a = 0 \<Longrightarrow> 16 \<le> b" "a = 4 \<Longrightarrow> b < 16"
  shows "rune_len [char_of (0xF0 + a), char_of (0x80 + b), char_of (0x80 + c), char_of (0x80 + d)] = 4"
proof -
  consider "a = 0" | "a = 4" | "0 < a" "a < 4" using assms(1) by linarith
  then show ?thesis using assms by cases (simp_all add: rune_len_def byte_in_char_of lead_byte_def)
qed

lemma utf8_encode_rune:
  assumes "n < 0x110000" and "\<not> (0xD800 \<le> n \<and> n < 0xE000)"
  shows "rune_len (utf8_encode n) = length (utf8_encode n) \<and> utf8_encode n \<noteq> []"
proof -
  have d: "n div 4096 = n div 64 div 64" "n div 262144 = n div 4096 div 64" by (simp_all flip: div_mult2_eq)
  have n: "n = 64 * (n div 64) + n mod 64" "n div 64 = 64 * (n div 4096) + n div 64 mod 64"
    "n div 4096 = 64 * (n div 262144) + n div 4096 mod 64"
    unfolding d by presburger+
  have m: "n mod 64 < 64" "n div 64 mod 64 < 64" "n div 4096 mod 64 < 64" by simp_all
  consider "n < 0x80" | "0x80 \<le> n" "n < 0x800" | "0x800 \<le> n" "n < 0x10000" | "0x10000 \<le> n" by linarith
  then show ?thesis
  proof cases
    case 1
    then show ?thesis by (simp add: utf8_encode_def byte_in_char_of)
  next
    case 2
    then have "n div 64 < 32" "2 \<le> n div 64" by simp_all
    with 2 m show ?thesis by (simp add: utf8_encode_def rune_len_2)
  next
    case 3
    then have "n div 4096 < 16" by simp
    moreover have "n div 4096 = 0 \<Longrightarrow> 32 \<le> n div 64 mod 64" "n div 4096 = 13 \<Longrightarrow> n div 64 mod 64 < 32"
      using assms(2) 3 n m by linarith+
    ultimately show ?thesis using 3 m by (simp add: utf8_encode_def rune_len_3)
  next
    case 4
    then have "n div 262144 < 5" using assms(1) by simp
    moreover have "n div 262144 = 0 \<Longrightarrow> 16 \<le> n div 4096 mod 64" "n div 262144 = 4 \<Longrightarrow> n div 4096 mod 64 < 16"
      using assms(1) 4 n m by linarith+
    ultimately show ?thesis using 4 m by (simp add: utf8_encode_def rune_len_4)
  qed
qed

lemma utf8_encode_valid:
  "n < 0x110000 \<Longrightarrow> \<not> (0xD800 \<le> n \<and> n < 0xE000) \<Longrightarrow> valid_utf8 (utf8_encode n)"
  using utf8_encode_rune [of n] valid_utf8_cons_rune [of "utf8_encode n" "[]"] by simp

end
