(* ===== verification/Go_Json_Text.thy ===== *)
theory Go_Json_Text
  imports Go_Utf8
begin

text \<open>
  The text format of \<^verbatim>\<open>encoding/json\<close>: the scanner (\<open>json_parse\<close>) and the printer
  (\<open>json_print\<close>), with the escapes and the treatment of invalid UTF-8 that Go has, and
  their round trip.
\<close>

datatype json =
    JNull | JBool bool | JNum string | JStr string | JArr "json list" | JObj "(string \<times> json) list"

section \<open>The scanner\<close>

definition is_space :: "char \<Rightarrow> bool" where
  "is_space c \<longleftrightarrow> c = CHR '' '' \<or> c = CHR 0x09 \<or> c = CHR 0x0A \<or> c = CHR 0x0D"

definition skip_space :: "string \<Rightarrow> string" where
  "skip_space s = dropWhile is_space s"

subsection \<open>Strings\<close>

definition hex_val :: "char \<Rightarrow> nat option" where
  "hex_val c =
     (let n = (of_char c :: nat)
      in if 48 \<le> n \<and> n \<le> 57 then Some (n - 48)
         else if 97 \<le> n \<and> n \<le> 102 then Some (n - 87)
         else if 65 \<le> n \<and> n \<le> 70 then Some (n - 55)
         else None)"

fun hex4 :: "string \<Rightarrow> nat option" where
  "hex4 (a # b # c # d # _) =
     (case (hex_val a, hex_val b, hex_val c, hex_val d) of
        (Some w, Some x, Some y, Some z) \<Rightarrow> Some (w * 4096 + x * 256 + y * 16 + z)
      | _ \<Rightarrow> None)"
| "hex4 _ = None"

text \<open>The second half of a surrogate pair, when the text goes on with its escape.\<close>

definition low_half :: "string \<Rightarrow> nat option" where
  "low_half s =
     (if take 2 s = [CHR 0x5C, CHR ''u'']
      then case hex4 (drop 2 s) of
          None \<Rightarrow> None
        | Some m \<Rightarrow> (if 0xDC00 \<le> m \<and> m < 0xE000 then Some (m - 0xDC00) else None)
      else None)"

definition unescape :: "char \<Rightarrow> char option" where
  "unescape e =
     (if e = CHR 0x22 \<or> e = CHR 0x5C \<or> e = CHR ''/'' then Some e
      else if e = CHR ''b'' then Some (CHR 0x08)
      else if e = CHR ''f'' then Some (CHR 0x0C)
      else if e = CHR ''n'' then Some (CHR 0x0A)
      else if e = CHR ''r'' then Some (CHR 0x0D)
      else if e = CHR ''t'' then Some (CHR 0x09)
      else None)"

definition put_front :: "string \<Rightarrow> (string \<times> string) option \<Rightarrow> (string \<times> string) option" where
  "put_front u = map_option (\<lambda>(t, r). (u @ t, r))"

text \<open>
  One character of a string literal: its bytes, and how many bytes of the literal follow its
  first one. Control characters are not allowed; half a surrogate pair and a byte that is not
  valid UTF-8 become U+FFFD.
\<close>

definition scan_u :: "string \<Rightarrow> (string \<times> nat) option" where
  "scan_u t =
     (case hex4 t of
        None \<Rightarrow> None
      | Some n \<Rightarrow>
          (if 0xD800 \<le> n \<and> n < 0xE000 then
             (case low_half (drop 4 t) of
                Some m \<Rightarrow>
                  (if n < 0xDC00 then Some (utf8_encode ((n - 0xD800) * 1024 + m + 0x10000), 11)
                   else Some (replacement_rune, 5))
              | None \<Rightarrow> Some (replacement_rune, 5))
           else Some (utf8_encode n, 5)))"

definition scan_char :: "string \<Rightarrow> (string \<times> nat) option" where
  "scan_char s =
     (case s of
        [] \<Rightarrow> None
      | c # r \<Rightarrow>
          (if c = CHR 0x5C then
             (case r of
                [] \<Rightarrow> None
              | e # t \<Rightarrow> (if e = CHR ''u'' then scan_u t else map_option (\<lambda>d. ([d], 1)) (unescape e)))
           else if byte_in 0 0x1F c then None
           else if rune_len s = 0 then Some (replacement_rune, 0)
           else Some (take (rune_len s) s, rune_len s - 1)))"

text \<open>A string literal after its opening quote, with the text after the closing quote.\<close>

function scan_string :: "string \<Rightarrow> (string \<times> string) option" where
  "scan_string [] = None"
| "scan_string (c # r) =
     (if c = CHR 0x22 then Some ([], r)
      else case scan_char (c # r) of
          None \<Rightarrow> None
        | Some (u, n) \<Rightarrow> put_front u (scan_string (drop n r)))"
  by pat_completeness auto
termination by (relation "measure length") auto

declare scan_string.simps [simp del]

subsection \<open>Numbers\<close>

definition scan_digits :: "string \<Rightarrow> (string \<times> string) option" where
  "scan_digits s =
     (if takeWhile is_digit s = [] then None else Some (takeWhile is_digit s, dropWhile is_digit s))"

definition scan_int :: "string \<Rightarrow> (string \<times> string) option" where
  "scan_int s =
     (case s of
        [] \<Rightarrow> None
      | c # r \<Rightarrow> (if c = CHR ''0'' then Some ([c], r) else scan_digits s))"

text \<open>An optional part of a number: it is there exactly when its first character is.\<close>

definition scan_opt :: "(char \<Rightarrow> bool) \<Rightarrow> (string \<Rightarrow> (string \<times> string) option) \<Rightarrow>
    string \<Rightarrow> (string \<times> string) option" where
  "scan_opt P scan s =
     (case s of
        [] \<Rightarrow> Some ([], [])
      | c # r \<Rightarrow> (if P c then put_front [c] (scan r) else Some ([], s)))"

definition is_sign :: "char \<Rightarrow> bool" where
  "is_sign c \<longleftrightarrow> c = CHR ''+'' \<or> c = CHR ''-''"

definition scan_exp :: "string \<Rightarrow> (string \<times> string) option" where
  "scan_exp s =
     (case s of [] \<Rightarrow> None | c # r \<Rightarrow> if is_sign c then put_front [c] (scan_digits r) else scan_digits s)"

definition scan_then :: "(string \<times> string) option \<Rightarrow> (string \<Rightarrow> (string \<times> string) option) \<Rightarrow>
    (string \<times> string) option" where
  "scan_then res scan = (case res of None \<Rightarrow> None | Some (u, r) \<Rightarrow> put_front u (scan r))"

definition scan_unsigned :: "string \<Rightarrow> (string \<times> string) option" where
  "scan_unsigned s =
     scan_then (scan_int s) (\<lambda>r.
     scan_then (scan_opt (\<lambda>c. c = CHR ''.'') scan_digits r)
               (scan_opt (\<lambda>c. c = CHR ''e'' \<or> c = CHR ''E'') scan_exp))"

definition scan_number :: "string \<Rightarrow> (string \<times> string) option" where
  "scan_number s =
     (case s of
        [] \<Rightarrow> None
      | c # r \<Rightarrow> (if c = CHR ''-'' then put_front [c] (scan_unsigned r) else scan_unsigned s))"

subsection \<open>Values\<close>

definition scan_literal :: "string \<Rightarrow> (json \<times> string) option" where
  "scan_literal s =
     (if take 4 s = ''null'' then Some (JNull, drop 4 s)
      else if take 4 s = ''true'' then Some (JBool True, drop 4 s)
      else if take 5 s = ''false'' then Some (JBool False, drop 5 s)
      else map_option (\<lambda>(lit, r). (JNum lit, r)) (scan_number s))"

text \<open>The rest of a scan is shorter than what was scanned; the functions below rest on it.\<close>

lemma put_front_eq_Some:
  "put_front u res = Some (t, r) \<longleftrightarrow> (\<exists>t'. res = Some (t', r) \<and> t = u @ t')"
  by (auto simp: put_front_def)

lemma skip_space_length: "skip_space s = c # r \<Longrightarrow> length r < length s"
  by (metis length_Cons length_dropWhile_le less_eq_Suc_le skip_space_def)

lemma scan_string_length: "scan_string s = Some (t, r) \<Longrightarrow> length r < length s"
proof (induction s arbitrary: t rule: scan_string.induct)
  case (2 c s)
  show ?case
  proof (cases "c = CHR 0x22")
    case False
    with "2.prems" obtain u n t' where "scan_char (c # s) = Some (u, n)" "scan_string (drop n s) = Some (t', r)"
      by (auto simp: scan_string.simps put_front_eq_Some split: option.splits)
    from "2.IH" [OF False this(1) refl this(2)] show ?thesis by simp
  qed (use "2.prems" in \<open>simp add: scan_string.simps\<close>)
qed (simp add: scan_string.simps)

text \<open>
  Arrays and objects. The guards on the length of the rest always hold
  (\<open>scan_value_length\<close>); they make the recursion visibly terminating.
\<close>

function scan_value :: "string \<Rightarrow> (json \<times> string) option"
  and scan_elements :: "string \<Rightarrow> (json list \<times> string) option"
  and scan_members :: "string \<Rightarrow> ((string \<times> json) list \<times> string) option" where
  "scan_value s =
     (case skip_space s of
        [] \<Rightarrow> None
      | c # r \<Rightarrow>
          (if c = CHR 0x22 then map_option (\<lambda>(t, r). (JStr t, r)) (scan_string r)
           else if c = CHR ''['' then
             (case skip_space r of
                [] \<Rightarrow> None
              | d # r' \<Rightarrow>
                  (if d = CHR '']'' then Some (JArr [], r') else map_option (\<lambda>(vs, r). (JArr vs, r)) (scan_elements r)))
           else if c = CHR ''{'' then
             (case skip_space r of
                [] \<Rightarrow> None
              | d # r' \<Rightarrow>
                  (if d = CHR ''}'' then Some (JObj [], r') else map_option (\<lambda>(kvs, r). (JObj kvs, r)) (scan_members r)))
           else scan_literal (c # r)))"
| "scan_elements s =
     (case scan_value s of
        None \<Rightarrow> None
      | Some (v, r) \<Rightarrow>
          (case skip_space r of
             [] \<Rightarrow> None
           | d # r' \<Rightarrow>
               (if d = CHR '']'' then Some ([v], r')
                else if d = CHR '','' \<and> length r' < length s
                then map_option (\<lambda>(vs, r). (v # vs, r)) (scan_elements r')
                else None)))"
| "scan_members s =
     (case skip_space s of
        [] \<Rightarrow> None
      | q # r0 \<Rightarrow>
          (if q = CHR 0x22 then
             (case scan_string r0 of
                None \<Rightarrow> None
              | Some (k, r1) \<Rightarrow>
                  (case skip_space r1 of
                     [] \<Rightarrow> None
                   | d # r2 \<Rightarrow>
                       (if d = CHR '':'' then
                          (case scan_value r2 of
                             None \<Rightarrow> None
                           | Some (v, r3) \<Rightarrow>
                               (case skip_space r3 of
                                  [] \<Rightarrow> None
                                | e # r4 \<Rightarrow>
                                    (if e = CHR ''}'' then Some ([(k, v)], r4)
                                     else if e = CHR '','' \<and> length r4 < length s
                                     then map_option (\<lambda>(kvs, r). ((k, v) # kvs, r)) (scan_members r4)
                                     else None)))
                        else None)))
           else None))"
  by pat_completeness auto
termination
  by (relation "measure (\<lambda>x. case x of Inl s \<Rightarrow> 2 * length s | Inr (Inl s) \<Rightarrow> 2 * length s + 1
        | Inr (Inr s) \<Rightarrow> 2 * length s + 1)")
    (auto dest!: skip_space_length scan_string_length)

declare scan_value.simps [simp del] scan_elements.simps [simp del] scan_members.simps [simp del]

text \<open>A whole text: one value with white space around it.\<close>

definition json_parse :: "bytes \<Rightarrow> json option" where
  "json_parse b =
     (case scan_value (bytes_string b) of
        None \<Rightarrow> None
      | Some (v, r) \<Rightarrow> (if skip_space r = [] then Some v else None))"

section \<open>The printer\<close>

definition hex_digit :: "nat \<Rightarrow> char" where
  "hex_digit n = (if n < 10 then char_of (48 + n) else char_of (87 + n))"

text \<open>
  \<^verbatim>\<open>encodeState.string\<close> with its HTML escapes: the control characters other than tab, line
  feed and carriage return, the characters \<open><\<close>, \<open>>\<close>, \<open>&\<close> and the line separators
  are written as \<^verbatim>\<open>\u\<close> escapes, as is every invalid byte.
\<close>

definition esc_u :: "nat \<Rightarrow> string" where
  "esc_u n = [CHR 0x5C, CHR ''u'', hex_digit (n div 4096 mod 16), hex_digit (n div 256 mod 16),
              hex_digit (n div 16 mod 16), hex_digit (n mod 16)]"

definition esc_ascii :: "char \<Rightarrow> string" where
  "esc_ascii c =
     (if c = CHR 0x22 \<or> c = CHR 0x5C then [CHR 0x5C, c]
      else if c = CHR 0x0A then [CHR 0x5C, CHR ''n'']
      else if c = CHR 0x0D then [CHR 0x5C, CHR ''r'']
      else if c = CHR 0x09 then [CHR 0x5C, CHR ''t'']
      else if byte_in 0 0x1F c \<or> c = CHR ''<'' \<or> c = CHR ''>'' \<or> c = CHR ''&'' then esc_u (of_char c)
      else [c])"

definition line_separators :: "(string \<times> nat) list" where
  "line_separators = [([CHR 0xE2, CHR 0x80, CHR 0xA8], 0x2028), ([CHR 0xE2, CHR 0x80, CHR 0xA9], 0x2029)]"

definition esc_rune :: "string \<Rightarrow> string" where
  "esc_rune u = (case map_of line_separators u of None \<Rightarrow> u | Some n \<Rightarrow> esc_u n)"

function escape :: "string \<Rightarrow> string" where
  "escape [] = []"
| "escape (c # r) =
     (if byte_in 0 0x7F c then esc_ascii c @ escape r
      else if rune_len (c # r) = 0 then esc_u 0xFFFD @ escape r
      else esc_rune (take (rune_len (c # r)) (c # r)) @ escape (drop (rune_len (c # r) - 1) r))"
  by pat_completeness auto
termination by (relation "measure length") auto

declare escape.simps [simp del]

definition print_string :: "string \<Rightarrow> string" where
  "print_string s = [CHR 0x22] @ escape s @ [CHR 0x22]"

fun print_value :: "json \<Rightarrow> string"
  and print_elements :: "json list \<Rightarrow> string"
  and print_members :: "(string \<times> json) list \<Rightarrow> string" where
  "print_value JNull = ''null''"
| "print_value (JBool b) = (if b then ''true'' else ''false'')"
| "print_value (JNum lit) = lit"
| "print_value (JStr s) = print_string s"
| "print_value (JArr []) = ''[]''"
| "print_value (JArr (v # vs)) = ''['' @ print_value v @ print_elements vs @ '']''"
| "print_value (JObj []) = ''{}''"
| "print_value (JObj ((k, v) # kvs)) =
     ''{'' @ print_string k @ '':'' @ print_value v @ print_members kvs @ ''}''"
| "print_elements [] = []"
| "print_elements (v # vs) = '','' @ print_value v @ print_elements vs"
| "print_members [] = []"
| "print_members ((k, v) # kvs) = '','' @ print_string k @ '':'' @ print_value v @ print_members kvs"

definition json_print :: "json \<Rightarrow> bytes" where
  "json_print v = string_bytes (print_value v)"

section \<open>Strings survive the trip\<close>

text \<open>
  Printing a string and scanning it gives the string back, with every invalid byte replaced by
  U+FFFD. No string is rejected and no character changes the text around it.
\<close>

lemma hex_val_digit [simp]: "n < 16 \<Longrightarrow> hex_val (hex_digit n) = Some n"
  by (auto simp: hex_val_def hex_digit_def)

lemma nat_hex4: "(n :: nat) < 65536 \<Longrightarrow>
    n div 4096 mod 16 * 4096 + n div 256 mod 16 * 256 + n div 16 mod 16 * 16 + n mod 16 = n"
proof -
  assume n: "n < 65536"
  have "n div 16 div 16 = n div 256" "n div 256 div 16 = n div 4096" by (simp_all flip: div_mult2_eq)
  moreover have "n div 4096 mod 16 = n div 4096" using n by (simp add: less_mult_imp_div_less)
  ultimately show ?thesis
    using div_mult_mod_eq [of n 16] div_mult_mod_eq [of "n div 16" 16] div_mult_mod_eq [of "n div 256" 16]
    by linarith
qed

lemma hex4_esc_u: "n < 65536 \<Longrightarrow> \<exists>t. esc_u n @ r = CHR 0x5C # CHR ''u'' # t \<and> hex4 t = Some n"
  using nat_hex4 [of n] by (simp add: esc_u_def)

lemma scan_esc_u:
  "n < 65536 \<Longrightarrow> \<not> (0xD800 \<le> n \<and> n < 0xE000) \<Longrightarrow> scan_char (esc_u n @ r) = Some (utf8_encode n, 5)"
  using hex4_esc_u [of n r] by (auto simp: scan_char_def scan_u_def)

lemma scan_string_quote [simp]: "scan_string (CHR 0x22 # r) = Some ([], r)"
  by (simp add: scan_string.simps)

lemma scan_string_step:
  assumes "x = c # y" and "c \<noteq> CHR 0x22" and "scan_char (x @ r) = Some (t, length y)"
  shows "scan_string (x @ r) = put_front t (scan_string r)"
  using assms by (simp add: scan_string.simps)

lemma scan_string_esc_u:
  assumes "n < 65536" and "\<not> (0xD800 \<le> n \<and> n < 0xE000)"
  shows "scan_string (esc_u n @ r) = put_front (utf8_encode n) (scan_string r)"
  using scan_esc_u [OF assms, of r] by (simp add: esc_u_def scan_string.simps(2))

lemma ascii_encode: "byte_in 0 0x7F c \<Longrightarrow> utf8_encode (of_char c) = [c]"
  by (simp add: utf8_encode_def byte_in_def)

lemma ascii_lt: "byte_in 0 0x7F c \<Longrightarrow> (of_char c :: nat) < 128"
  by (simp add: byte_in_def)

lemma scan_string_ascii:
  assumes "byte_in 0 0x7F c"
  shows "scan_string (esc_ascii c @ r) = put_front [c] (scan_string r)"
proof -
  consider (special) "c = CHR 0x22 \<or> c = CHR 0x5C \<or> c = CHR 0x0A \<or> c = CHR 0x0D \<or> c = CHR 0x09"
    | (u) "\<not> (c = CHR 0x22 \<or> c = CHR 0x5C \<or> c = CHR 0x0A \<or> c = CHR 0x0D \<or> c = CHR 0x09)"
        "byte_in 0 0x1F c \<or> c = CHR ''<'' \<or> c = CHR ''>'' \<or> c = CHR ''&''"
    | (plain) "\<not> (c = CHR 0x22 \<or> c = CHR 0x5C \<or> c = CHR 0x0A \<or> c = CHR 0x0D \<or> c = CHR 0x09)"
        "\<not> (byte_in 0 0x1F c \<or> c = CHR ''<'' \<or> c = CHR ''>'' \<or> c = CHR ''&'')"
    by blast
  then show ?thesis
  proof cases
    case special
    then show ?thesis
      by (elim disjE; simp add: esc_ascii_def; subst scan_string.simps)
        (simp_all add: scan_char_def unescape_def)
  next
    case u
    then have "esc_ascii c = esc_u (of_char c)" unfolding esc_ascii_def by presburger
    then show ?thesis
      using scan_string_esc_u [of "of_char c" r] ascii_lt [OF assms] ascii_encode [OF assms] by simp
  next
    case plain
    then have "esc_ascii c = [c]" "c \<noteq> CHR 0x22" "c \<noteq> CHR 0x5C" unfolding esc_ascii_def by presburger+
    with plain assms show ?thesis by (simp add: scan_string.simps scan_char_def)
  qed
qed

lemma utf8_encode_escaped:
  "utf8_encode 0x2028 = [CHR 0xE2, CHR 0x80, CHR 0xA8]" "utf8_encode 0x2029 = [CHR 0xE2, CHR 0x80, CHR 0xA9]"
  "utf8_encode 0xFFFD = replacement_rune"
  by (simp_all add: utf8_encode_def replacement_rune_def char_of_eq_iff take_bit_eq_mod)

lemma scan_string_rune:
  assumes "rune_len u = length u" and "u \<noteq> []" and "\<not> byte_in 0 0x7F (hd u)"
  shows "scan_string (esc_rune u @ r) = put_front u (scan_string r)"
proof (cases "map_of line_separators u")
  case None
  obtain c y where u: "u = c # y" using assms(2) by (cases u) auto
  have len: "rune_len (u @ r) = length u" using rune_len_prefix [of u r] assms by simp
  have "\<not> byte_in 0 0x1F c" "c \<noteq> CHR 0x5C" "c \<noteq> CHR 0x22" using assms(3) u by (auto simp: byte_in_def)
  with len u have "scan_char (u @ r) = Some (u, length y)" by (simp add: scan_char_def)
  then have "scan_string (u @ r) = put_front u (scan_string r)"
    by (rule scan_string_step [OF u \<open>c \<noteq> CHR 0x22\<close>])
  with None show ?thesis by (simp add: esc_rune_def)
next
  case (Some n)
  then have "n = 0x2028 \<and> u = utf8_encode 0x2028 \<or> n = 0x2029 \<and> u = utf8_encode 0x2029"
    by (auto simp: line_separators_def utf8_encode_escaped split: if_splits)
  with Some scan_string_esc_u [of n r] show ?thesis by (auto simp: esc_rune_def)
qed

lemma scan_string_escape: "scan_string (escape s @ CHR 0x22 # r) = Some (coerce_utf8 s, r)"
proof (induction s rule: escape.induct)
  case 1
  show ?case by (simp add: escape.simps)
next
  case (2 c s)
  consider "byte_in 0 0x7F c" | "\<not> byte_in 0 0x7F c" "rune_len (c # s) = 0"
    | "\<not> byte_in 0 0x7F c" "rune_len (c # s) \<noteq> 0" by blast
  then show ?case
  proof cases
    case 1
    then have "coerce_utf8 (c # s) = c # coerce_utf8 s" using coerce_utf8_rune [of "c # s"] by simp
    with 1 "2.IH"(1) show ?thesis
      by (simp add: escape.simps(2) scan_string_ascii put_front_def)
  next
    case 2
    then have "escape (c # s) = esc_u 0xFFFD @ escape s" by (simp add: escape.simps(2))
    moreover have "scan_string (escape s @ CHR 0x22 # r) = Some (coerce_utf8 s, r)" using 2 "2.IH"(2) by simp
    ultimately show ?thesis
      using 2 by (simp add: scan_string_esc_u coerce_utf8_bad put_front_def utf8_encode_escaped)
  next
    case 3
    let ?u = "take (rune_len (c # s)) (c # s)"
    have "rune_len ?u = length ?u" "?u \<noteq> []" "hd ?u = c"
      using rune_len_prefix [OF 3(2), of "[]"] rune_len_le(1) [of "c # s"] 3(2) by auto
    with 3 scan_string_rune [of ?u] "2.IH"(3) have
      "scan_string (escape (c # s) @ CHR 0x22 # r) = Some (?u @ coerce_utf8 (drop (rune_len (c # s) - 1) s), r)"
      by (simp add: escape.simps(2) put_front_def)
    moreover have "drop (rune_len (c # s) - 1) s = drop (rune_len (c # s)) (c # s)"
      using 3(2) by (cases "rune_len (c # s)") auto
    ultimately show ?thesis using coerce_utf8_rune [OF 3(2)] by simp
  qed
qed

section \<open>Numbers survive the trip\<close>

text \<open>
  A text that cannot continue a number, and scanners that look no further than the text they
  consume: appending such a text to the input only appends it to the rest.
\<close>

definition stops :: "string \<Rightarrow> bool" where
  "stops r \<longleftrightarrow> (case r of [] \<Rightarrow> True | c # _ \<Rightarrow> \<not> is_digit c \<and> c \<noteq> CHR ''.'' \<and> c \<noteq> CHR ''e'' \<and> c \<noteq> CHR ''E'')"

definition local_scan :: "(string \<Rightarrow> (string \<times> string) option) \<Rightarrow> bool" where
  "local_scan scan \<longleftrightarrow>
     (\<forall>s u t r. scan s = Some (u, t) \<longrightarrow> (t = [] \<longrightarrow> stops r) \<longrightarrow> scan (s @ r) = Some (u, t @ r))"

named_theorems local_scans \<open>the scanners of the parts of a number\<close>

lemma local_scanD: "local_scan scan \<Longrightarrow> scan s = Some (u, t) \<Longrightarrow> (t = [] \<longrightarrow> stops r) \<Longrightarrow> scan (s @ r) = Some (u, t @ r)"
  unfolding local_scan_def by blast

lemmas local_scan_ConsD = local_scanD [where s = "c # y" for c y, unfolded append_Cons]

lemma local_scan_digits [local_scans]: "local_scan scan_digits"
proof -
  have "takeWhile is_digit (s @ r) = takeWhile is_digit s \<and> dropWhile is_digit (s @ r) = dropWhile is_digit s @ r"
    if "dropWhile is_digit s = [] \<longrightarrow> stops r" for s r
  proof (cases "\<forall>c \<in> set s. is_digit c")
    case True
    then have all: "takeWhile is_digit s = s" "dropWhile is_digit s = []"
      "takeWhile is_digit (s @ r) = s @ takeWhile is_digit r" "dropWhile is_digit (s @ r) = dropWhile is_digit r"
      by (simp_all add: takeWhile_append2 dropWhile_append2)
    show ?thesis unfolding all using that by (cases r) (simp_all add: all stops_def)
  next
    case False
    then show ?thesis by (auto simp: takeWhile_append1 dropWhile_append1)
  qed
  then show ?thesis unfolding local_scan_def scan_digits_def by auto
qed

lemma local_scan_int [local_scans]: "local_scan scan_int"
  unfolding local_scan_def
proof (intro allI impI)
  fix s u t r
  assume s: "scan_int s = Some (u, t)" and t: "t = [] \<longrightarrow> stops r"
  then obtain c y where "s = c # y" by (cases s) (auto simp: scan_int_def)
  with s t local_scan_digits show "scan_int (s @ r) = Some (u, t @ r)"
    by (auto simp: scan_int_def local_scan_ConsD split: if_splits)
qed

lemma local_scan_exp [local_scans]: "local_scan scan_exp"
  unfolding local_scan_def
proof (intro allI impI)
  fix s u t r
  assume s: "scan_exp s = Some (u, t)" and t: "t = [] \<longrightarrow> stops r"
  then obtain c y where "s = c # y" by (cases s) (auto simp: scan_exp_def)
  with s t local_scan_digits show "scan_exp (s @ r) = Some (u, t @ r)"
    by (auto simp: scan_exp_def put_front_eq_Some local_scan_ConsD local_scanD split: if_splits)
qed

lemma local_scan_opt:
  assumes "local_scan scan" and "\<And>c r. stops (c # r) \<Longrightarrow> \<not> P c"
  shows "local_scan (scan_opt P scan)"
  unfolding local_scan_def
proof (intro allI impI)
  fix s u t r
  assume s: "scan_opt P scan s = Some (u, t)" and t: "t = [] \<longrightarrow> stops r"
  show "scan_opt P scan (s @ r) = Some (u, t @ r)"
  proof (cases s)
    case Nil
    with s t assms(2) show ?thesis by (cases r) (auto simp: scan_opt_def)
  next
    case (Cons c y)
    with s t assms(1) show ?thesis
      by (auto simp: scan_opt_def put_front_eq_Some local_scanD split: if_splits)
  qed
qed

lemma local_scan_then:
  assumes "local_scan f" and "local_scan g" and "\<And>s u. f s = Some (u, []) \<Longrightarrow> g [] = Some ([], [])"
    and "\<And>r. stops r \<Longrightarrow> g r = Some ([], r)"
  shows "local_scan (\<lambda>s. scan_then (f s) g)"
  unfolding local_scan_def
proof (intro allI impI)
  fix s u t r
  assume s: "scan_then (f s) g = Some (u, t)" and t: "t = [] \<longrightarrow> stops r"
  then obtain v w x where f: "f s = Some (v, w)" and g: "g w = Some (x, t)" and u: "u = v @ x"
    by (auto simp: scan_then_def put_front_eq_Some split: option.splits)
  have g': "g (w @ r) = Some (x, t @ r)" using local_scanD [OF assms(2) g] t by simp
  show "scan_then (f (s @ r)) g = Some (u, t @ r)"
  proof (cases "w = []")
    case True
    with g assms(3) [of s v] f have "t = []" "x = []" by auto
    with t f g' True assms(1) show ?thesis
      by (simp add: local_scanD [of f s v "[]" r] scan_then_def put_front_def u)
  next
    case False
    with f assms(1) have "f (s @ r) = Some (v, w @ r)" by (simp add: local_scanD)
    with g' show ?thesis by (simp add: scan_then_def put_front_def u)
  qed
qed

lemma scan_opt_stops: "(\<And>c r. stops (c # r) \<Longrightarrow> \<not> P c) \<Longrightarrow> stops r \<Longrightarrow> scan_opt P scan r = Some ([], r)"
  by (cases r) (auto simp: scan_opt_def)

lemma stops_Nil [simp]: "stops []"
  by (simp add: stops_def)

lemma stops_Cons: "stops (c # r) \<longleftrightarrow> \<not> is_digit c \<and> c \<noteq> CHR ''.'' \<and> c \<noteq> CHR ''e'' \<and> c \<noteq> CHR ''E''"
  by (simp add: stops_def)

lemma scan_opt_Nil [simp]: "scan_opt P scan [] = Some ([], [])"
  by (simp add: scan_opt_def)

lemma local_scan_unsigned [local_scans]: "local_scan scan_unsigned"
proof -
  let ?frac = "scan_opt (\<lambda>c. c = CHR ''.'') scan_digits"
  let ?exp = "scan_opt (\<lambda>c. c = CHR ''e'' \<or> c = CHR ''E'') scan_exp"
  have stop: "stops r \<Longrightarrow> ?frac r = Some ([], r)" "stops r \<Longrightarrow> ?exp r = Some ([], r)" for r
    by (rule scan_opt_stops; simp add: stops_Cons)+
  have "local_scan ?frac" "local_scan ?exp"
    by (rule local_scan_opt; simp add: local_scans stops_Cons)+
  then have tail: "local_scan (\<lambda>r. scan_then (?frac r) ?exp)"
    by (rule local_scan_then) (simp_all add: stop)
  show ?thesis
    unfolding scan_unsigned_def
    by (rule local_scan_then [OF local_scan_int tail]) (simp_all add: stop scan_then_def put_front_def)
qed

lemma local_scan_number: "local_scan scan_number"
  unfolding local_scan_def
proof (intro allI impI)
  fix s u t r
  assume s: "scan_number s = Some (u, t)" and t: "t = [] \<longrightarrow> stops r"
  then obtain c y where "s = c # y" by (cases s) (auto simp: scan_number_def)
  with s t local_scan_unsigned show "scan_number (s @ r) = Some (u, t @ r)"
    by (auto simp: scan_number_def put_front_eq_Some local_scan_ConsD local_scanD split: if_splits)
qed

definition is_number :: "string \<Rightarrow> bool" where
  "is_number lit \<longleftrightarrow> scan_number lit = Some (lit, [])"

lemma scan_unsigned_hd: "scan_unsigned (c # r) = Some x \<Longrightarrow> is_digit c"
proof (rule ccontr)
  assume s: "scan_unsigned (c # r) = Some x" and c: "\<not> is_digit c"
  have "c \<noteq> CHR ''0''" using c by (auto simp: is_digit_def)
  with c have "scan_int (c # r) = None" by (simp add: scan_int_def scan_digits_def)
  with s show False by (simp add: scan_unsigned_def scan_then_def)
qed

lemma is_number_hd: "is_number lit \<Longrightarrow> \<exists>c t. lit = c # t \<and> (c = CHR ''-'' \<or> is_digit c)"
  by (cases lit) (auto simp: is_number_def scan_number_def dest: scan_unsigned_hd split: if_splits)

section \<open>Values survive the trip\<close>

fun coerce_json :: "json \<Rightarrow> json" where
  "coerce_json (JStr s) = JStr (coerce_utf8 s)"
| "coerce_json (JArr vs) = JArr (map coerce_json vs)"
| "coerce_json (JObj kvs) = JObj (map (\<lambda>(k, v). (coerce_utf8 k, coerce_json v)) kvs)"
| "coerce_json v = v"

fun numbers_ok :: "json \<Rightarrow> bool" where
  "numbers_ok (JNum lit) = is_number lit"
| "numbers_ok (JArr vs) = list_all numbers_ok vs"
| "numbers_ok (JObj kvs) = list_all (\<lambda>(k, v). numbers_ok v) kvs"
| "numbers_ok v = True"

lemma skip_space_Cons [simp]: "\<not> is_space c \<Longrightarrow> skip_space (c # s) = c # s"
  by (simp add: skip_space_def)

lemma punctuation [simp]:
  "\<not> is_space CHR 0x22" "\<not> is_space CHR '',''" "\<not> is_space CHR '':''" "\<not> is_space CHR ''[''"
  "\<not> is_space CHR '']''" "\<not> is_space CHR ''{''" "\<not> is_space CHR ''}''"
  "\<not> is_space CHR ''n''" "\<not> is_space CHR ''t''" "\<not> is_space CHR ''f''" "\<not> is_space CHR ''-''"
  "stops (CHR '','' # s)" "stops (CHR '']'' # s)" "stops (CHR ''}'' # s)"
  by (simp_all add: is_space_def stops_Cons is_digit_def)

lemma digit_plain: "is_digit c \<Longrightarrow> \<not> is_space c \<and> c \<noteq> CHR 0x22 \<and> c \<noteq> CHR ''['' \<and> c \<noteq> CHR ''{'' \<and>
    c \<noteq> CHR ''n'' \<and> c \<noteq> CHR ''t'' \<and> c \<noteq> CHR ''f'' \<and> c \<noteq> CHR '']'' \<and> c \<noteq> CHR ''}''"
  by (auto simp: is_digit_def is_space_def)

text \<open>The scan of a printed value, whatever follows it.\<close>

definition reads :: "json \<Rightarrow> bool" where
  "reads v \<longleftrightarrow> (\<forall>r. stops r \<longrightarrow> scan_value (print_value v @ r) = Some (coerce_json v, r))"

lemma reads_number: "is_number lit \<Longrightarrow> reads (JNum lit)"
  unfolding reads_def
proof (intro allI impI)
  fix r assume lit: "is_number lit" and r: "stops r"
  from is_number_hd [OF lit] obtain c t where c: "lit = c # t" "c = CHR ''-'' \<or> is_digit c" by blast
  then have plain: "\<not> is_space c" "c \<noteq> CHR 0x22" "c \<noteq> CHR ''[''" "c \<noteq> CHR ''{''" "c \<noteq> CHR ''n''" "c \<noteq> CHR ''t''"
    "c \<noteq> CHR ''f''" using digit_plain [of c] by auto
  have "scan_number (lit @ r) = Some (lit, r)"
    using local_scanD [OF local_scan_number, of lit lit "[]" r] lit r by (simp add: is_number_def)
  with c plain show "scan_value (print_value (JNum lit) @ r) = Some (coerce_json (JNum lit), r)"
    by (simp add: scan_value.simps scan_literal_def numeral_eq_Suc)
qed

lemma scan_print_string: "\<exists>y. print_string s @ r = CHR 0x22 # y \<and> scan_string y = Some (coerce_utf8 s, r)"
  by (simp add: print_string_def scan_string_escape)

lemma print_value_hd:
  "numbers_ok v \<Longrightarrow> \<exists>c t. print_value v = c # t \<and> \<not> is_space c \<and> c \<noteq> CHR '']'' \<and> c \<noteq> CHR ''}''"
proof (cases v)
  case (JNum lit)
  assume "numbers_ok v"
  with JNum obtain c t where "lit = c # t" "c = CHR ''-'' \<or> is_digit c" using is_number_hd [of lit] by auto
  with JNum digit_plain [of c] show ?thesis by auto
next
  case (JArr vs)
  then show ?thesis by (cases vs) simp_all
next
  case (JObj kvs)
  then show ?thesis by (cases kvs) auto
qed (auto simp: print_string_def)

lemma scan_elements_step:
  assumes "reads v" and "d = CHR '','' \<or> d = CHR '']''"
  shows "scan_elements (print_value v @ d # r) =
    (if d = CHR '']'' then Some ([coerce_json v], r)
     else map_option (\<lambda>(vs, r). (coerce_json v # vs, r)) (scan_elements r))"
proof -
  have "scan_value (print_value v @ d # r) = Some (coerce_json v, d # r)"
    using assms by (auto simp: reads_def)
  with assms(2) show ?thesis by (subst scan_elements.simps) auto
qed

lemma scan_members_step:
  assumes "reads v" and "d = CHR '','' \<or> d = CHR ''}''"
  shows "scan_members (print_string k @ CHR '':'' # print_value v @ d # r) =
    (if d = CHR ''}'' then Some ([(coerce_utf8 k, coerce_json v)], r)
     else map_option (\<lambda>(kvs, r). ((coerce_utf8 k, coerce_json v) # kvs, r)) (scan_members r))"
proof -
  obtain y where y: "print_string k @ CHR '':'' # print_value v @ d # r = CHR 0x22 # y"
    "scan_string y = Some (coerce_utf8 k, CHR '':'' # print_value v @ d # r)"
    using scan_print_string by blast
  have "scan_value (print_value v @ d # r) = Some (coerce_json v, d # r)"
    using assms by (auto simp: reads_def)
  moreover have "length r < length (CHR 0x22 # y)" unfolding y(1) [symmetric] by simp
  ultimately show ?thesis using assms(2) y(2) unfolding y(1) by (subst scan_members.simps) auto
qed

lemma scan_elements_print:
  "reads v \<Longrightarrow> list_all reads vs \<Longrightarrow>
   scan_elements (print_value v @ print_elements vs @ CHR '']'' # r) = Some (map coerce_json (v # vs), r)"
proof (induction vs arbitrary: v)
  case (Cons w vs)
  then show ?case by (simp add: scan_elements_step)
qed (simp add: scan_elements_step)

lemma scan_members_print:
  "reads v \<Longrightarrow> list_all (\<lambda>(k, v). reads v) kvs \<Longrightarrow>
   scan_members (print_string k @ CHR '':'' # print_value v @ print_members kvs @ CHR ''}'' # r) =
     Some (map (\<lambda>(k, v). (coerce_utf8 k, coerce_json v)) ((k, v) # kvs), r)"
proof (induction kvs arbitrary: k v)
  case (Cons kv kvs)
  then show ?case by (cases kv) (simp add: scan_members_step)
qed (simp add: scan_members_step)

lemma reads_array: "list_all reads vs \<Longrightarrow> list_all numbers_ok vs \<Longrightarrow> reads (JArr vs)"
proof (cases vs)
  case (Cons v ws)
  assume vs: "list_all reads vs" "list_all numbers_ok vs"
  with Cons obtain c t where "print_value v = c # t" "\<not> is_space c" "c \<noteq> CHR '']''"
    using print_value_hd [of v] by auto
  with vs Cons scan_elements_print [of v ws] show ?thesis
    by (auto simp: reads_def scan_value.simps)
qed (simp add: reads_def scan_value.simps)

lemma reads_object: "list_all (\<lambda>(k, v). reads v) kvs \<Longrightarrow> reads (JObj kvs)"
proof (cases kvs)
  case (Cons kv ws)
  assume kvs: "list_all (\<lambda>(k, v). reads v) kvs"
  obtain k v where kv: "kv = (k, v)" by fastforce
  obtain t where "print_string k = CHR 0x22 # t" by (simp add: print_string_def)
  with kvs kv Cons scan_members_print [of v ws k] show ?thesis
    by (auto simp: reads_def scan_value.simps)
qed (simp add: reads_def scan_value.simps)

lemma reads_value: "numbers_ok v \<Longrightarrow> reads v"
proof (induction v)
  case (JStr s)
  show ?case by (simp add: reads_def scan_value.simps print_string_def scan_string_escape)
next
  case (JArr vs)
  then show ?case by (simp add: reads_array list_all_iff)
next
  case (JObj kvs)
  have "list_all (\<lambda>(k, v). reads v) kvs"
    using JObj by (fastforce simp: list_all_iff)
  then show ?case by (rule reads_object)
next
  case (JNum lit)
  then show ?case by (simp add: reads_number)
qed (simp_all add: reads_def scan_value.simps scan_literal_def)

text \<open>
  Every JSON value whose numbers are literals of the grammar is scanned back from its printed
  form, up to the replacement of invalid bytes.
\<close>

lemma json_roundtrip: "numbers_ok v \<Longrightarrow> json_parse (json_print v) = Some (coerce_json v)"
  using reads_value [of v] unfolding reads_def json_parse_def json_print_def
  by (auto dest!: spec [of _ "[]"] simp: skip_space_def)

section \<open>The guards of the scanner\<close>

lemma scan_digits_length: "scan_digits s = Some (u, t) \<Longrightarrow> length t < length s"
  by (cases s) (auto simp: scan_digits_def le_imp_less_Suc length_dropWhile_le split: if_splits)

lemma scan_opt_length:
  assumes "\<And>s u t. scan s = Some (u, t) \<Longrightarrow> length t < length s"
  shows "scan_opt P scan s = Some (u, t) \<Longrightarrow> length t \<le> length s"
  by (cases s) (auto simp: scan_opt_def put_front_eq_Some less_imp_le less_SucI dest!: assms split: if_splits)

lemma scan_exp_length: "scan_exp s = Some (u, t) \<Longrightarrow> length t < length s"
  by (cases s) (auto simp: scan_exp_def put_front_eq_Some dest!: scan_digits_length split: if_splits)

lemma scan_int_length: "scan_int s = Some (u, t) \<Longrightarrow> length t < length s"
  by (cases s) (auto simp: scan_int_def dest!: scan_digits_length split: if_splits)

lemma scan_unsigned_length: "scan_unsigned s = Some (u, t) \<Longrightarrow> length t < length s"
proof -
  assume "scan_unsigned s = Some (u, t)"
  then obtain a b c d e where "scan_int s = Some (a, b)" "scan_opt (\<lambda>c. c = CHR ''.'') scan_digits b = Some (c, d)"
    "scan_opt (\<lambda>c. c = CHR ''e'' \<or> c = CHR ''E'') scan_exp d = Some (e, t)"
    by (auto simp: scan_unsigned_def scan_then_def put_front_eq_Some split: option.splits)
  then show ?thesis
    using scan_int_length [of s a b] scan_opt_length [OF scan_digits_length, where s = b and u = c and t = d]
      scan_opt_length [OF scan_exp_length, where s = d and u = e and t = t] by fastforce
qed

lemma scan_literal_length: "scan_literal s = Some (v, t) \<Longrightarrow> length t < length s"
  by (cases s) (auto simp: scan_literal_def scan_number_def put_front_eq_Some split: if_splits
      dest!: scan_unsigned_length)

lemma scan_value_length_step:
  assumes "\<And>s' vs r. length s' < length s \<Longrightarrow> scan_elements s' = Some (vs, r) \<Longrightarrow> length r < length s'"
    and "\<And>s' kvs r. length s' < length s \<Longrightarrow> scan_members s' = Some (kvs, r) \<Longrightarrow> length r < length s'"
    and "scan_value s = Some (v, r)"
  shows "length r < length s"
proof -
  obtain c t where c: "skip_space s = c # t"
    using assms(3) by (cases "skip_space s") (auto simp: scan_value.simps)
  note len = skip_space_length [OF c]
  consider "c = CHR 0x22" | "c = CHR ''[''" | "c = CHR ''{''" | "c \<noteq> CHR 0x22" "c \<noteq> CHR ''[''" "c \<noteq> CHR ''{''" by blast
  then show ?thesis
  proof cases
    case 1
    then show ?thesis using assms(3) c len by (auto simp: scan_value.simps dest!: scan_string_length)
  next
    case 2
    then show ?thesis
      using assms(3) c len assms(1) [OF len]
      by (auto simp: scan_value.simps split: list.splits if_splits dest!: skip_space_length)
  next
    case 3
    then show ?thesis
      using assms(3) c len assms(2) [OF len]
      by (auto simp: scan_value.simps split: list.splits if_splits dest!: skip_space_length)
  next
    case 4
    then have "scan_literal (c # t) = Some (v, r)" using assms(3) c by (simp add: scan_value.simps)
    from scan_literal_length [OF this] len show ?thesis by simp
  qed
qed

lemma scan_elements_length_step:
  assumes "\<And>s' vs r. length s' < length s \<Longrightarrow> scan_elements s' = Some (vs, r) \<Longrightarrow> length r < length s'"
    and "\<And>v r. scan_value s = Some (v, r) \<Longrightarrow> length r < length s"
    and "scan_elements s = Some (vs, r)"
  shows "length r < length s"
proof -
  obtain v t d t' where v: "scan_value s = Some (v, t)" "skip_space t = d # t'"
    and r: "r = t' \<or> (\<exists>ws. length t' < length s \<and> scan_elements t' = Some (ws, r))"
    using assms(3) by (subst (asm) scan_elements.simps) (auto split: option.splits list.splits if_splits)
  have "length t' < length s" using assms(2) [OF v(1)] skip_space_length [OF v(2)] by simp
  with r assms(1) show ?thesis by (meson less_trans)
qed

lemma scan_members_length_step:
  assumes "\<And>s' kvs r. length s' < length s \<Longrightarrow> scan_members s' = Some (kvs, r) \<Longrightarrow> length r < length s'"
    and "\<And>s' v r. length s' < length s \<Longrightarrow> scan_value s' = Some (v, r) \<Longrightarrow> length r < length s'"
    and "scan_members s = Some (kvs, r)"
  shows "length r < length s"
proof -
  obtain q r0 k r1 d r2 v r3 e r4 where p: "skip_space s = q # r0" "scan_string r0 = Some (k, r1)"
    "skip_space r1 = d # r2" "scan_value r2 = Some (v, r3)" "skip_space r3 = e # r4"
    and r: "r = r4 \<or> (\<exists>ws. length r4 < length s \<and> scan_members r4 = Some (ws, r))"
    using assms(3) by (subst (asm) scan_members.simps) (auto split: option.splits list.splits if_splits)
  have r2: "length r2 < length s"
    using skip_space_length [OF p(1)] scan_string_length [OF p(2)] skip_space_length [OF p(3)] by simp
  then have "length r4 < length s" using assms(2) [OF r2 p(4)] skip_space_length [OF p(5)] by simp
  with r assms(1) show ?thesis by (meson less_trans)
qed

lemma scan_lengths:
  "(\<forall>v r. scan_value s = Some (v, r) \<longrightarrow> length r < length s) \<and>
   (\<forall>vs r. scan_elements s = Some (vs, r) \<longrightarrow> length r < length s) \<and>
   (\<forall>kvs r. scan_members s = Some (kvs, r) \<longrightarrow> length r < length s)"
proof (induction "length s" arbitrary: s rule: less_induct)
  case less
  have val: "\<And>v r. scan_value s = Some (v, r) \<Longrightarrow> length r < length s"
    by (rule scan_value_length_step [of s]) (use less in blast)+
  moreover have "\<And>vs r. scan_elements s = Some (vs, r) \<Longrightarrow> length r < length s"
    by (rule scan_elements_length_step [of s]) (use less val in blast)+
  moreover have "\<And>kvs r. scan_members s = Some (kvs, r) \<Longrightarrow> length r < length s"
    by (rule scan_members_length_step [of s]) (use less in blast)+
  ultimately show ?case by blast
qed

lemma scan_value_length: "scan_value s = Some (v, r) \<Longrightarrow> length r < length s"
  using scan_lengths by blast

text \<open>So the scanner of a comma-separated list is the recursion without the guard.\<close>

lemma scan_elements_unguarded:
  "scan_elements s =
     (case scan_value s of
        None \<Rightarrow> None
      | Some (v, r) \<Rightarrow>
          (case skip_space r of
             [] \<Rightarrow> None
           | d # r' \<Rightarrow>
               (if d = CHR '']'' then Some ([v], r')
                else if d = CHR '','' then map_option (\<lambda>(vs, r). (v # vs, r)) (scan_elements r')
                else None)))"
proof -
  have "length r' < length s" if "scan_value s = Some (v, r)" "skip_space r = d # r'" for v r d r'
    using scan_value_length [OF that(1)] skip_space_length [OF that(2)] by simp
  then show ?thesis
    by (subst scan_elements.simps) (auto split: option.split list.split)
qed

section \<open>What the scanner returns is valid text\<close>

fun texts_ok :: "json \<Rightarrow> bool" where
  "texts_ok (JStr s) = valid_utf8 s"
| "texts_ok (JArr vs) = list_all texts_ok vs"
| "texts_ok (JObj kvs) = list_all (\<lambda>(k, v). valid_utf8 k \<and> texts_ok v) kvs"
| "texts_ok _ = True"

lemma hex_val_lt: "hex_val c = Some n \<Longrightarrow> n < 16"
  by (auto simp: hex_val_def Let_def split: if_splits)

lemma hex4_lt:
  assumes "hex4 s = Some n"
  shows "n < 65536"
  using assms
proof (cases s rule: hex4.cases)
  case (1 a b c d r)
  then show ?thesis
    using assms hex_val_lt [of a] hex_val_lt [of b] hex_val_lt [of c] hex_val_lt [of d]
    by (fastforce split: option.splits)
qed simp_all

lemma low_half_lt: "low_half s = Some m \<Longrightarrow> m < 0x400"
  by (auto simp: low_half_def split: if_splits option.splits)

lemma replacement_valid: "valid_utf8 replacement_rune"
  using valid_utf8_cons_rune [of replacement_rune "[]"] by simp

lemma scan_u_valid: "scan_u t = Some (u, n) \<Longrightarrow> valid_utf8 u"
proof -
  assume s: "scan_u t = Some (u, n)"
  then obtain k where k: "hex4 t = Some k" by (auto simp: scan_u_def split: option.splits)
  note lt = hex4_lt [OF k]
  show ?thesis
  proof (cases "0xD800 \<le> k \<and> k < 0xE000")
    case True
    have "valid_utf8 (utf8_encode ((k - 0xD800) * 1024 + m + 0x10000))" if "low_half (drop 4 t) = Some m" "k < 0xDC00" for m
      using low_half_lt [OF that(1)] that(2) True by (intro utf8_encode_valid) auto
    with s k True replacement_valid show ?thesis by (auto simp: scan_u_def split: option.splits if_splits)
  next
    case False
    with s k utf8_encode_valid [of k] lt show ?thesis by (auto simp: scan_u_def)
  qed
qed

lemma scan_char_valid:
  assumes "scan_char s = Some (u, n)"
  shows "valid_utf8 u"
proof -
  have "valid_utf8 [d]" if "unescape e = Some d" for d e
    using that by (auto simp: unescape_def ascii_def byte_in_def intro!: valid_utf8_ascii split: if_splits)
  moreover have "valid_utf8 (take (rune_len s) s)" if "rune_len s \<noteq> 0"
    using valid_utf8_cons_rune [of "take (rune_len s) s" "[]"] rune_len_prefix [OF that, of "[]"] rune_len_le(1) [of s] that
    by (cases s) auto
  ultimately show ?thesis
    using assms scan_u_valid replacement_valid
    by (auto simp: scan_char_def split: list.splits if_splits option.splits)
qed

lemma scan_string_valid: "scan_string s = Some (t, r) \<Longrightarrow> valid_utf8 t"
proof (induction s arbitrary: t r rule: scan_string.induct)
  case 1
  then show ?case by (simp add: scan_string.simps)
next
  case (2 c s)
  show ?case
  proof (cases "c = CHR 0x22")
    case False
    with "2.prems" obtain u n t' where u: "scan_char (c # s) = Some (u, n)" "scan_string (drop n s) = Some (t', r)"
      "t = u @ t'" by (auto simp: scan_string.simps put_front_eq_Some split: option.splits)
    from "2.IH" [OF False u(1) refl u(2)] scan_char_valid [OF u(1)] u(3) show ?thesis by (simp add: valid_utf8_append)
  qed (use "2.prems" in \<open>simp add: scan_string.simps\<close>)
qed

lemma scan_literal_valid: "scan_literal s = Some (v, r) \<Longrightarrow> texts_ok v"
  by (auto simp: scan_literal_def split: if_splits)

lemma scan_value_valid:
  "scan_value s = Some (v, r) \<Longrightarrow> texts_ok v"
  "scan_elements s = Some (vs, r) \<Longrightarrow> list_all texts_ok vs"
  "scan_members s = Some (kvs, r) \<Longrightarrow> list_all (\<lambda>(k, v). valid_utf8 k \<and> texts_ok v) kvs"
proof (induction s and s and s arbitrary: v r and vs r and kvs r
    rule: scan_value_scan_elements_scan_members.induct)
  case (1 s)
  then show ?case
    by (auto simp: scan_value.simps [of s] split: list.splits if_splits dest: scan_string_valid scan_literal_valid)
next
  case (2 s)
  then show ?case
    by (fastforce simp: scan_elements.simps [of s] split: list.splits if_splits option.splits prod.splits)
next
  case (3 s)
  obtain q r0 k r1 d r2 v r3 e r4 where p: "skip_space s = q # r0" "q = CHR 0x22" "scan_string r0 = Some (k, r1)"
    "skip_space r1 = d # r2" "d = CHR '':''" "scan_value r2 = Some (v, r3)" "skip_space r3 = e # r4"
    and r: "e = CHR ''}'' \<and> kvs = [(k, v)] \<or>
      (\<exists>ws. e = CHR '','' \<and> length r4 < length s \<and> scan_members r4 = Some (ws, r) \<and> kvs = (k, v) # ws)"
    using "3.prems" by (subst (asm) scan_members.simps) (auto split: option.splits list.splits if_splits)
  have v: "texts_ok v" by (rule "3.IH"(1) [OF p(1-3) refl p(4-6)])
  from r show ?case
  proof (elim disjE exE conjE)
    fix ws
    assume e: "e = CHR '',''" "length r4 < length s" "scan_members r4 = Some (ws, r)" "kvs = (k, v) # ws"
    have "list_all (\<lambda>(k, v). valid_utf8 k \<and> texts_ok v) ws"
      by (rule "3.IH"(2) [OF p(1-3) refl p(4-6) refl p(7) _ _ e(3)]) (use e in simp_all)
    with v e(4) scan_string_valid [OF p(3)] show ?thesis by simp
  qed (use v scan_string_valid [OF p(3)] in simp)
qed

lemma json_parse_valid: "json_parse b = Some v \<Longrightarrow> texts_ok v"
  by (auto simp: json_parse_def split: option.splits if_splits dest: scan_value_valid(1))

end
