(* ===== verification/Go_Json.thy ===== *)
theory Go_Json
  imports Go_Json_Text "HOL-Library.Char_ord" "HOL-Library.List_Lexorder"
begin

text \<open>
  The part of Go's \<^verbatim>\<open>encoding/json\<close> that the connector uses, between JSON values and
  structs. The text is read and written by \<open>json_parse\<close> and \<open>json_print\<close>.

  Decoding into a struct follows the standard library: members are matched to fields by exact
  name or, failing that, ignoring case; unknown members are skipped; \<^verbatim>\<open>null\<close> leaves a
  field alone; a member of the wrong type leaves its field alone, decoding goes on, and the
  first such error is what \<^verbatim>\<open>Unmarshal\<close> returns; after a syntax error nothing is stored.
\<close>

definition json_syntax_err :: err where
  "json_syntax_err = ErrExternal ''json: syntax error''"

definition json_type_err :: err where
  "json_type_err = ErrExternal ''json: cannot unmarshal''"

section \<open>Decoding\<close>

text \<open>Case folding of member names: ASCII letters, and the two non-ASCII letters that fold to
  ASCII, U+017F (long s, bytes C5 BF) and U+212A (Kelvin sign, bytes E2 84 AA).\<close>

definition upper_char :: "char \<Rightarrow> char" where
  "upper_char c = (let n = (of_char c :: nat) in if 97 \<le> n \<and> n \<le> 122 then char_of (n - 32) else c)"

fun fold_name :: "string \<Rightarrow> string" where
  "fold_name [] = []"
| "fold_name (a # s) =
     (if a = CHR 0xC5 \<and> (case s of b # _ \<Rightarrow> b = CHR 0xBF | [] \<Rightarrow> False)
      then CHR ''S'' # fold_name (drop 1 s)
      else if a = CHR 0xE2 \<and> (case s of b # c # _ \<Rightarrow> b = CHR 0x84 \<and> c = CHR 0xAA | _ \<Rightarrow> False)
      then CHR ''K'' # fold_name (drop 2 s)
      else upper_char a # fold_name s)"

text \<open>A struct type, as the decoder sees it: field names with their decoders.\<close>

type_synonym 's decoder = "json \<Rightarrow> 's \<Rightarrow> 's \<times> err option"
type_synonym 's schema = "(string \<times> 's decoder) list"

definition find_field :: "'s schema \<Rightarrow> string \<Rightarrow> 's decoder option" where
  "find_field fields key =
     (case map_of fields key of
        Some d \<Rightarrow> Some d
      | None \<Rightarrow> map_option snd (find (\<lambda>(name, _). fold_name name = fold_name key) fields))"

definition first_err :: "err option \<Rightarrow> err option \<Rightarrow> err option" where
  "first_err e e' = (case e of None \<Rightarrow> e' | Some _ \<Rightarrow> e)"

fun decode_members :: "'s schema \<Rightarrow> (string \<times> json) list \<Rightarrow> 's \<times> err option \<Rightarrow> 's \<times> err option" where
  "decode_members fields [] r = r"
| "decode_members fields ((key, v) # kvs) (s, e) =
     (case find_field fields key of
        None \<Rightarrow> decode_members fields kvs (s, e)
      | Some d \<Rightarrow> (let (s', e') = d v s in decode_members fields kvs (s', first_err e e')))"

definition json_Unmarshal ::
  "'s schema \<Rightarrow> bytes \<Rightarrow> 's \<Rightarrow> 's \<times> err option" where
  "json_Unmarshal fields b s =
     (case json_parse b of
        None \<Rightarrow> (s, Some json_syntax_err)
      | Some (JObj kvs) \<Rightarrow> decode_members fields kvs (s, None)
      | Some JNull \<Rightarrow> (s, None)
      | Some _ \<Rightarrow> (s, Some json_type_err))"

subsection \<open>Field decoders\<close>

definition dec_string :: "(string \<Rightarrow> 's \<Rightarrow> 's) \<Rightarrow> 's decoder" where
  "dec_string upd v s =
     (case v of JStr t \<Rightarrow> (upd t s, None) | JNull \<Rightarrow> (s, None) | _ \<Rightarrow> (s, Some json_type_err))"

text \<open>\<^verbatim>\<open>strconv.ParseInt(lit, 10, 64)\<close> on a JSON number literal.\<close>

definition parse_int64 :: "string \<Rightarrow> int option" where
  "parse_int64 lit =
     (let neg = (case lit of c # _ \<Rightarrow> c = CHR ''-'' | [] \<Rightarrow> False);
          ds = (if neg then tl lit else lit);
          v = (if neg then - int (decimal_val ds) else int (decimal_val ds))
      in if ds \<noteq> [] \<and> list_all is_digit ds \<and> in_int64 v then Some v else None)"

definition dec_int :: "(int \<Rightarrow> 's \<Rightarrow> 's) \<Rightarrow> 's decoder" where
  "dec_int upd v s =
     (case v of
        JNum lit \<Rightarrow> (case parse_int64 lit of Some n \<Rightarrow> (upd n s, None) | None \<Rightarrow> (s, Some json_type_err))
      | JNull \<Rightarrow> (s, None)
      | _ \<Rightarrow> (s, Some json_type_err))"

text \<open>
  A \<^verbatim>\<open>map[string]string\<close>: \<^verbatim>\<open>null\<close> makes it nil; an object is added to the map, made if
  it was nil; a value that is not a string stores the empty string.
\<close>

fun decode_strmap ::
  "(string \<times> json) list \<Rightarrow> (string, string) gomap \<times> err option \<Rightarrow> (string, string) gomap \<times> err option" where
  "decode_strmap [] r = r"
| "decode_strmap ((k, v) # kvs) (m, e) =
     (let (t, e') = dec_string (\<lambda>t _. t) v '''' in decode_strmap kvs (AList.update k t m, first_err e e'))"

definition dec_strmap ::
  "('s \<Rightarrow> (string, string) gomap option) \<Rightarrow> ((string, string) gomap option \<Rightarrow> 's \<Rightarrow> 's) \<Rightarrow> 's decoder" where
  "dec_strmap get upd v s =
     (case v of
        JObj kvs \<Rightarrow>
          (let (m, e) = decode_strmap kvs (case get s of None \<Rightarrow> [] | Some m \<Rightarrow> m, None)
           in (upd (Some m) s, e))
      | JNull \<Rightarrow> (upd None s, None)
      | _ \<Rightarrow> (s, Some json_type_err))"

definition dec_struct :: "'a schema \<Rightarrow> ('s \<Rightarrow> 'a) \<Rightarrow> ('a \<Rightarrow> 's \<Rightarrow> 's) \<Rightarrow> 's decoder" where
  "dec_struct members get upd v s =
     (case v of
        JObj kvs \<Rightarrow> (let (x, e) = decode_members members kvs (get s, None) in (upd x s, e))
      | JNull \<Rightarrow> (s, None)
      | _ \<Rightarrow> (s, Some json_type_err))"

definition dec_bool :: "(bool \<Rightarrow> 's \<Rightarrow> 's) \<Rightarrow> 's decoder" where
  "dec_bool upd v s =
     (case v of JBool b \<Rightarrow> (upd b s, None) | JNull \<Rightarrow> (s, None) | _ \<Rightarrow> (s, Some json_type_err))"

text \<open>A slice of structs, into a nil slice: every element is decoded into a zero value.\<close>

fun decode_elements :: "'a decoder \<Rightarrow> 'a \<Rightarrow> json list \<Rightarrow> 'a list \<times> err option" where
  "decode_elements d zero [] = ([], None)"
| "decode_elements d zero (v # vs) =
     (let (x, e) = d v zero; (xs, e') = decode_elements d zero vs in (x # xs, first_err e e'))"

definition dec_slice :: "'a decoder \<Rightarrow> 'a \<Rightarrow> ('a list \<Rightarrow> 's \<Rightarrow> 's) \<Rightarrow> 's decoder" where
  "dec_slice d zero upd v s =
     (case v of
        JArr vs \<Rightarrow> (let (xs, e) = decode_elements d zero vs in (upd xs s, e))
      | JNull \<Rightarrow> (upd [] s, None)
      | _ \<Rightarrow> (s, Some json_type_err))"

section \<open>Encoding\<close>

text \<open>
  \<^verbatim>\<open>encoding/json\<close> drops every field whose JSON name is claimed by two tagged fields of the
  same struct: neither is encoded, and there is no error.
\<close>

definition json_struct :: "(string \<times> json) list \<Rightarrow> json" where
  "json_struct fields = JObj (filter (\<lambda>(n, _). count_list (map fst fields) n = 1) fields)"

definition json_strmap :: "(string, string) gomap option \<Rightarrow> json" where
  "json_strmap m =
     (case m of None \<Rightarrow> JNull | Some kvs \<Rightarrow> JObj (map (\<lambda>(k, v). (k, JStr v)) (sort_key fst kvs)))"

text \<open>\<open>json.Marshal\<close> of an integer.\<close>

definition json_int :: "int \<Rightarrow> json" where
  "json_int n = JNum (if n < 0 then CHR ''-'' # decimal (nat (- n)) else decimal (nat n))"

definition json_Marshal :: "json \<Rightarrow> bytes result" where
  "json_Marshal v = Inr (json_print v)"

section \<open>Facts\<close>

lemma json_errs_distinct [simp]: "json_syntax_err \<noteq> json_type_err" "json_type_err \<noteq> json_syntax_err"
  by (simp_all add: json_syntax_err_def json_type_err_def)

lemma first_err_None [simp]: "first_err None e = e" "first_err e None = e"
  by (simp_all add: first_err_def split: option.split)

lemma first_err_Some [simp]: "first_err (Some e) e' = Some e"
  by (simp add: first_err_def)

lemma decode_members_err_mono: "snd (decode_members fields kvs (s, Some e)) = Some e"
proof (induction kvs arbitrary: s)
  case (Cons kv kvs)
  then show ?case by (cases kv) (auto split: option.split prod.split)
qed simp

text \<open>A property of the target that every field decoder keeps is kept by \<^verbatim>\<open>Unmarshal\<close>.\<close>

lemma find_field_in: "find_field fields key = Some d \<Longrightarrow> d \<in> snd ` set fields"
  by (auto simp: find_field_def find_Some_iff split: option.splits dest!: map_of_SomeD)
    (metis image_eqI nth_mem snd_conv)+

lemma decode_members_invariant:
  assumes "\<And>d v s. d \<in> snd ` set fields \<Longrightarrow> P s \<Longrightarrow> P (fst (d v s))"
  shows "P s \<Longrightarrow> P (fst (decode_members fields kvs (s, e)))"
proof (induction kvs arbitrary: s e)
  case Nil
  then show ?case by simp
next
  case (Cons kv kvs)
  obtain key v where kv: "kv = (key, v)" by fastforce
  show ?case
  proof (cases "find_field fields key")
    case None
    with Cons kv show ?thesis by simp
  next
    case (Some d)
    have "P (fst (d v s))" using assms [OF find_field_in [OF Some]] Cons.prems by simp
    with Cons.IH [of "fst (d v s)"] Some kv show ?thesis by (simp add: case_prod_beta)
  qed
qed

lemma json_Unmarshal_invariant:
  assumes "\<And>d v s. d \<in> snd ` set fields \<Longrightarrow> P s \<Longrightarrow> P (fst (d v s))" and "P s"
  shows "P (fst (json_Unmarshal fields b s))"
proof -
  have "P (fst (decode_members fields kvs (s, None)))" for kvs
    using assms by (intro decode_members_invariant [where P = P]) auto
  then show ?thesis
    by (auto simp: json_Unmarshal_def assms(2) split: option.split json.split)
qed

text \<open>It is enough that they keep it on the values the scanner returns, whose strings are valid
  UTF-8.\<close>

lemma decode_members_texts:
  assumes "\<And>d v s. d \<in> snd ` set fields \<Longrightarrow> texts_ok v \<Longrightarrow> P s \<Longrightarrow> P (fst (d v s))"
  shows "list_all (\<lambda>(k, v). valid_utf8 k \<and> texts_ok v) kvs \<Longrightarrow> P s \<Longrightarrow> P (fst (decode_members fields kvs (s, e)))"
proof (induction kvs arbitrary: s e)
  case (Cons kv kvs)
  obtain key v where kv: "kv = (key, v)" by fastforce
  show ?case
  proof (cases "find_field fields key")
    case None
    with Cons kv show ?thesis by simp
  next
    case (Some d)
    have "P (fst (d v s))" using assms [OF find_field_in [OF Some]] Cons.prems kv by simp
    with Cons.IH [of "fst (d v s)"] Cons.prems Some kv show ?thesis by (simp add: case_prod_beta)
  qed
qed simp

lemma json_Unmarshal_texts:
  assumes "\<And>d v s. d \<in> snd ` set fields \<Longrightarrow> texts_ok v \<Longrightarrow> P s \<Longrightarrow> P (fst (d v s))" and "P s"
  shows "P (fst (json_Unmarshal fields b s))"
proof -
  have "P (fst (decode_members fields kvs (s, None)))" if "json_parse b = Some (JObj kvs)" for kvs
    using decode_members_texts [of fields P kvs] assms json_parse_valid [OF that] by simp
  then show ?thesis
    by (auto simp: json_Unmarshal_def assms(2) split: option.split json.split)
qed

text \<open>Integers survive the trip through their literal.\<close>

lemma decimal_hd_not_minus: "decimal n = c # cs \<Longrightarrow> c \<noteq> CHR ''-''"
  using decimal_digits [of c n] by (auto simp: is_digit_def)

lemma parse_int64_decimal: "in_int64 n \<Longrightarrow> json_int n = JNum lit \<Longrightarrow> parse_int64 lit = Some n"
proof (cases "n < 0")
  case True
  assume n: "in_int64 n" and "json_int n = JNum lit"
  with True have "lit = CHR ''-'' # decimal (nat (- n))" by (simp add: json_int_def)
  with n True show ?thesis
    using decimal_digits [of _ "nat (- n)"] by (simp add: parse_int64_def Let_def list_all_iff)
next
  case False
  assume n: "in_int64 n" and "json_int n = JNum lit"
  with False have lit: "lit = decimal (nat n)" by (simp add: json_int_def)
  then obtain c cs where "lit = c # cs" and "c \<noteq> CHR ''-''"
    by (metis decimal_hd_not_minus decimal_nonempty neq_Nil_conv)
  then have "\<not> (case lit of c # _ \<Rightarrow> c = CHR ''-'' | [] \<Rightarrow> False)" by simp
  with n False lit show ?thesis
    using decimal_digits [of _ "nat n"] by (simp add: parse_int64_def Let_def list_all_iff)
qed

text \<open>The literals of integers are numbers of the JSON grammar.\<close>

lemma decimal_leading: "0 < n \<Longrightarrow> \<exists>c t. decimal n = c # t \<and> c \<noteq> CHR ''0''"
proof (induction n rule: decimal.induct)
  case (1 n)
  show ?case
  proof (cases "n < 10")
    case True
    then have "decimal n = [digit_char n]" by (simp add: decimal.simps)
    moreover have "digit_char n \<noteq> CHR ''0''"
      using True 1(2) by (auto simp: digit_char_def char_of_eq_iff take_bit_eq_mod)
    ultimately show ?thesis by simp
  next
    case False
    then have "decimal n = decimal (n div 10) @ [digit_char (n mod 10)]" by (simp add: decimal.simps [of n])
    moreover from False have "0 < n div 10" by simp
    from "1.IH" [OF False this] obtain c t where "decimal (n div 10) = c # t" "c \<noteq> CHR ''0''" by blast
    ultimately show ?thesis by simp
  qed
qed

lemma scan_digits_decimal: "scan_digits (decimal n) = Some (decimal n, [])"
proof -
  have all: "takeWhile is_digit (decimal n) = decimal n" "dropWhile is_digit (decimal n) = []"
    by (simp_all add: takeWhile_eq_all_conv decimal_digits)
  show ?thesis unfolding scan_digits_def all by simp
qed

lemma scan_unsigned_decimal: "scan_unsigned (decimal n) = Some (decimal n, [])"
proof -
  have "scan_int (decimal n) = Some (decimal n, [])"
  proof (cases "n = 0")
    case True
    then show ?thesis by (simp add: decimal.simps digit_char_def scan_int_def char_of_eq_iff take_bit_eq_mod)
  next
    case False
    with decimal_leading [of n] scan_digits_decimal [of n] show ?thesis by (auto simp: scan_int_def)
  qed
  then show ?thesis by (simp add: scan_unsigned_def scan_then_def put_front_def)
qed

lemma is_number_decimal: "is_number (decimal n)" "is_number (CHR ''-'' # decimal n)"
proof -
  obtain c t where d: "decimal n = c # t" "c \<noteq> CHR ''-''"
    using decimal_hd_not_minus [of n] by (cases "decimal n") auto
  with scan_unsigned_decimal [of n] show "is_number (decimal n)"
    by (simp add: is_number_def scan_number_def)
  show "is_number (CHR ''-'' # decimal n)"
    using scan_unsigned_decimal [of n] by (simp add: is_number_def scan_number_def put_front_def)
qed

lemma json_int_ok [simp]: "numbers_ok (json_int n)" "coerce_json (json_int n) = json_int n"
  by (simp_all add: json_int_def is_number_decimal)

text \<open>What is marshalled decodes into the document it came from.\<close>

lemma json_Unmarshal_Marshal:
  assumes "json_Marshal v = Inr b" and "numbers_ok v"
  shows "json_parse b = Some (coerce_json v)"
  using assms json_roundtrip [of v] by (auto simp: json_Marshal_def)

lemma dec_int_json_int: "in_int64 n \<Longrightarrow> dec_int upd (json_int n) s = (upd n s, None)"
  by (cases "json_int n") (auto simp: dec_int_def parse_int64_decimal json_int_def)

end
