(* ===== verification/Protocol.thy ===== *)
theory Protocol
  imports Go_Json
begin

text \<open>
  The connector's protocol: \<^verbatim>\<open>protodef/pconnector/pconnector.go\<close> (message types, the
  messages a client and the router send, the message pushed to clients with its cached
  encoding) and the helpers of \<^verbatim>\<open>protodef/protodef.go\<close>.

  The zlib compressor, whose output is not fixed by its format, is an argument. A Go map that
  may be nil is an \<open>option\<close>.
\<close>

section \<open>Message types\<close>

abbreviation "MsgTypeRegister \<equiv> (0 :: int)"
abbreviation "MsgTypeChat \<equiv> (1 :: int)"
abbreviation "MsgTypeEnterRoom \<equiv> (4 :: int)"
abbreviation "MsgTypeRefreshToken \<equiv> (10 :: int)"
abbreviation "MsgTypeHeartBeat \<equiv> (11 :: int)"
abbreviation "MsgTypePush \<equiv> (30001 :: int)"

section \<open>Messages from clients\<close>

record Register =
  reg_UserId :: string
  reg_Token :: string
  reg_ClientToConnectorVersion :: int

definition zero_Register :: Register where
  "zero_Register = \<lparr>reg_UserId = '''', reg_Token = '''', reg_ClientToConnectorVersion = 0\<rparr>"

definition Register_schema :: "Register schema" where
  "Register_schema =
     [(''UserId'', dec_string (\<lambda>t. reg_UserId_update (\<lambda>_. t))),
      (''Token'', dec_string (\<lambda>t. reg_Token_update (\<lambda>_. t))),
      (''ClientToConnectorVersion'', dec_int (\<lambda>n. reg_ClientToConnectorVersion_update (\<lambda>_. n)))]"

definition Register_Unmarshal ::
  "bytes \<Rightarrow> Register \<Rightarrow> Register \<times> err option" where
  "Register_Unmarshal b p = json_Unmarshal Register_schema b p"

definition Register_json :: "Register \<Rightarrow> json" where
  "Register_json p = json_struct
     [(''UserId'', JStr (reg_UserId p)), (''Token'', JStr (reg_Token p)),
      (''ClientToConnectorVersion'', json_int (reg_ClientToConnectorVersion p))]"

definition Register_Marshal :: "Register \<Rightarrow> bytes result" where
  "Register_Marshal p = json_Marshal (Register_json p)"

record RefreshToken =
  rt_Token :: string

definition zero_RefreshToken :: RefreshToken where
  "zero_RefreshToken = \<lparr>rt_Token = ''''\<rparr>"

definition RefreshToken_Unmarshal ::
  "bytes \<Rightarrow> RefreshToken \<Rightarrow> RefreshToken \<times> err option" where
  "RefreshToken_Unmarshal b p =
     json_Unmarshal [(''Token'', dec_string (\<lambda>t. rt_Token_update (\<lambda>_. t)))] b p"

record HeartBeat =
  hb_ClientTime :: int

definition zero_HeartBeat :: HeartBeat where
  "zero_HeartBeat = \<lparr>hb_ClientTime = 0\<rparr>"

definition HeartBeat_Unmarshal ::
  "bytes \<Rightarrow> HeartBeat \<Rightarrow> HeartBeat \<times> err option" where
  "HeartBeat_Unmarshal b p =
     json_Unmarshal [(''ClientTime'', dec_int (\<lambda>n. hb_ClientTime_update (\<lambda>_. n)))] b p"

record Chat =
  ch_RoomId :: string
  ch_Content :: string
  ch_Nickname :: string
  ch_Level :: int
  ch_ClientTime :: int

definition zero_Chat :: Chat where
  "zero_Chat = \<lparr>ch_RoomId = '''', ch_Content = '''', ch_Nickname = '''', ch_Level = 0,
     ch_ClientTime = 0\<rparr>"

definition Chat_schema :: "Chat schema" where
  "Chat_schema =
     [(''RoomId'', dec_string (\<lambda>t. ch_RoomId_update (\<lambda>_. t))),
      (''Content'', dec_string (\<lambda>t. ch_Content_update (\<lambda>_. t))),
      (''Nickname'', dec_string (\<lambda>t. ch_Nickname_update (\<lambda>_. t))),
      (''Level'', dec_int (\<lambda>n. ch_Level_update (\<lambda>_. n))),
      (''ClientTime'', dec_int (\<lambda>n. ch_ClientTime_update (\<lambda>_. n)))]"

definition Chat_Unmarshal ::
  "bytes \<Rightarrow> Chat \<Rightarrow> Chat \<times> err option" where
  "Chat_Unmarshal b p = json_Unmarshal Chat_schema b p"

record EnterRoom =
  er_RoomId :: string
  er_Nickname :: string
  er_Level :: int

definition zero_EnterRoom :: EnterRoom where
  "zero_EnterRoom = \<lparr>er_RoomId = '''', er_Nickname = '''', er_Level = 0\<rparr>"

definition EnterRoom_schema :: "EnterRoom schema" where
  "EnterRoom_schema =
     [(''RoomId'', dec_string (\<lambda>t. er_RoomId_update (\<lambda>_. t))),
      (''Nickname'', dec_string (\<lambda>t. er_Nickname_update (\<lambda>_. t))),
      (''Level'', dec_int (\<lambda>n. er_Level_update (\<lambda>_. n)))]"

definition EnterRoom_Unmarshal ::
  "bytes \<Rightarrow> EnterRoom \<Rightarrow> EnterRoom \<times> err option" where
  "EnterRoom_Unmarshal b p = json_Unmarshal EnterRoom_schema b p"

section \<open>Messages from the router\<close>

record FromRouterMessage =
  fr_MessageId :: string
  fr_Time :: int
  fr_TimeText :: string
  fr_ToUserId :: string
  fr_ToRoomId :: string
  fr_Params :: "(string, string) gomap option"
  fr_UserId :: string
  fr_RoomId :: string
  fr_Content :: string

definition zero_FromRouterMessage :: FromRouterMessage where
  "zero_FromRouterMessage = \<lparr>fr_MessageId = '''', fr_Time = 0, fr_TimeText = '''',
     fr_ToUserId = '''', fr_ToRoomId = '''', fr_Params = None, fr_UserId = '''', fr_RoomId = '''',
     fr_Content = ''''\<rparr>"

definition FromRouterMessage_schema :: "FromRouterMessage schema" where
  "FromRouterMessage_schema =
     [(''messageId'', dec_string (\<lambda>t. fr_MessageId_update (\<lambda>_. t))),
      (''time'', dec_int (\<lambda>n. fr_Time_update (\<lambda>_. n))),
      (''timeText'', dec_string (\<lambda>t. fr_TimeText_update (\<lambda>_. t))),
      (''toUserId'', dec_string (\<lambda>t. fr_ToUserId_update (\<lambda>_. t))),
      (''toRoomId'', dec_string (\<lambda>t. fr_ToRoomId_update (\<lambda>_. t))),
      (''params'', dec_strmap fr_Params (\<lambda>m. fr_Params_update (\<lambda>_. m))),
      (''userId'', dec_string (\<lambda>t. fr_UserId_update (\<lambda>_. t))),
      (''roomId'', dec_string (\<lambda>t. fr_RoomId_update (\<lambda>_. t))),
      (''content'', dec_string (\<lambda>t. fr_Content_update (\<lambda>_. t)))]"

text \<open>\<^verbatim>\<open>v, ok := m[k]\<close> on a string map, nil included.\<close>

definition strmap_get :: "(string, string) gomap option \<Rightarrow> string \<Rightarrow> string \<times> bool" where
  "strmap_get m k =
     (case m of None \<Rightarrow> ('''', False)
      | Some kvs \<Rightarrow> (case map_of kvs k of None \<Rightarrow> ('''', False) | Some v \<Rightarrow> (v, True)))"

definition FromRouterMessage_Unmarshal ::
  "bytes \<Rightarrow> FromRouterMessage \<Rightarrow> FromRouterMessage \<times> err option" where
  "FromRouterMessage_Unmarshal b p =
     (let (p, result) = json_Unmarshal FromRouterMessage_schema b p in
      if result \<noteq> None then
        (let p = (if fr_UserId p \<noteq> '''' \<and> fr_ToUserId p = '''' then p\<lparr>fr_ToUserId := fr_UserId p\<rparr> else p);
             p = (if fr_RoomId p \<noteq> '''' \<and> fr_ToRoomId p = '''' then p\<lparr>fr_ToRoomId := fr_RoomId p\<rparr> else p);
             (v, ok) = strmap_get (fr_Params p) ''content'';
             p = (if fr_Content p \<noteq> '''' \<and> (\<not> ok \<or> v = '''') then p\<lparr>fr_ToUserId := v\<rparr> else p)
         in (p, result))
      else (p, result))"

section \<open>Messages to clients\<close>

record ToClientMessage =
  tc_MessageId :: string
  tc_ToUserId :: string
  tc_ToRoomId :: string
  tc_Params :: "(string, string) gomap option"
  tc_Time :: int
  tc_TimeText :: string
  tc_UserId :: string
  tc_RoomId :: string
  tc_Content :: string
  tc_Importance :: int
  tc_serializedBytes :: "bytes option"

text \<open>The struct as \<^verbatim>\<open>json.Marshal\<close> sees it: exported fields under their tags.\<close>

definition ToClientMessage_json :: "ToClientMessage \<Rightarrow> json" where
  "ToClientMessage_json p = json_struct
     [(''messageId'', JStr (tc_MessageId p)), (''toUserId'', JStr (tc_ToUserId p)),
      (''toRoomId'', JStr (tc_ToRoomId p)), (''params'', json_strmap (tc_Params p)),
      (''time'', json_int (tc_Time p)), (''timeText'', JStr (tc_TimeText p)),
      (''userId'', JStr (tc_UserId p)), (''roomId'', JStr (tc_RoomId p)),
      (''content'', JStr (tc_Content p)), (''content'', json_int (tc_Importance p))]"

definition ToClientMessage_Marshal ::
  "(bytes \<Rightarrow> bytes) \<Rightarrow> ToClientMessage \<Rightarrow> ToClientMessage \<times> bytes result" where
  "ToClientMessage_Marshal zlib p =
     (case tc_serializedBytes p of
        Some byteArray \<Rightarrow> (p, Inr byteArray)
      | None \<Rightarrow>
          (case json_Marshal (ToClientMessage_json p) of
             Inl err \<Rightarrow> (p, Inl err)
           | Inr rawBytes \<Rightarrow>
               (let byteArray = 1 # zlib rawBytes
                in (p\<lparr>tc_serializedBytes := Some byteArray\<rparr>, Inr byteArray))))"

section \<open>Helpers of package protodef\<close>

text \<open>
  A reader is what \<^verbatim>\<open>ioutil.ReadAll\<close> returns for it; an \<^verbatim>\<open>Unmarshaler\<close> is its
  \<^verbatim>\<open>Unmarshal\<close> method, a \<^verbatim>\<open>ValidUnmarshaler\<close> has a \<^verbatim>\<open>Valid\<close> method besides, a
  \<^verbatim>\<open>Marshaler\<close> is what its \<^verbatim>\<open>Marshal\<close> returns, and a writer is its \<^verbatim>\<open>Write\<close>
  on a state.
\<close>

type_synonym 'o unmarshaler = "bytes \<Rightarrow> 'o \<Rightarrow> 'o \<times> err option"

definition ReadUnmarshal :: "bytes result \<Rightarrow> 'o unmarshaler \<Rightarrow> 'o \<Rightarrow> 'o \<times> err option" where
  "ReadUnmarshal r unmarshal obj =
     (case r of
        Inl e \<Rightarrow> (obj, Some e)
      | Inr b \<Rightarrow> (case unmarshal b obj of (obj2, Some e) \<Rightarrow> (obj2, Some e) | (obj2, None) \<Rightarrow> (obj2, None)))"

definition ReadUnmarshalValid ::
  "bytes result \<Rightarrow> 'o unmarshaler \<Rightarrow> ('o \<Rightarrow> bool) \<Rightarrow> 'o \<Rightarrow> 'o \<times> err option" where
  "ReadUnmarshalValid r unmarshal valid obj =
     (case r of
        Inl e \<Rightarrow> (obj, Some e)
      | Inr b \<Rightarrow>
          (case unmarshal b obj of
             (obj2, Some e) \<Rightarrow> (obj2, Some e)
           | (obj2, None) \<Rightarrow> if \<not> valid obj2 then (obj2, Some ErrParameter) else (obj2, None)))"

definition MarshalWrite ::
  "(bytes \<Rightarrow> 'w \<Rightarrow> 'w \<times> err option) \<Rightarrow> bytes result \<Rightarrow> 'w \<Rightarrow> 'w \<times> err option" where
  "MarshalWrite write marshalled w =
     (case marshalled of Inl e \<Rightarrow> (w, Some e) | Inr b \<Rightarrow> write b w)"

section \<open>Correctness\<close>

lemma Register_json_eq:
  "Register_json p = JObj
     [(''UserId'', JStr (reg_UserId p)), (''Token'', JStr (reg_Token p)),
      (''ClientToConnectorVersion'', json_int (reg_ClientToConnectorVersion p))]"
  by (simp add: Register_json_def json_struct_def)

lemma member_names:
  "coerce_utf8 ''UserId'' = ''UserId''" "coerce_utf8 ''Token'' = ''Token''"
  "coerce_utf8 ''ClientToConnectorVersion'' = ''ClientToConnectorVersion''"
  by (simp_all add: valid_utf8_ascii ascii_def byte_in_def)

lemma Register_json_ok:
  "numbers_ok (Register_json p)"
  "coerce_json (Register_json p) =
     Register_json (p\<lparr>reg_UserId := coerce_utf8 (reg_UserId p), reg_Token := coerce_utf8 (reg_Token p)\<rparr>)"
  by (simp_all add: Register_json_eq member_names)

lemma Register_encode: "Register_Marshal p = Inr (json_print (Register_json p))"
  by (simp add: Register_Marshal_def json_Marshal_def)

lemma Register_decode:
  assumes "in_int64 (reg_ClientToConnectorVersion p)"
  shows "Register_Unmarshal (json_print (Register_json p)) q =
    (p\<lparr>reg_UserId := coerce_utf8 (reg_UserId p), reg_Token := coerce_utf8 (reg_Token p)\<rparr>, None)"
proof -
  let ?p = "p\<lparr>reg_UserId := coerce_utf8 (reg_UserId p), reg_Token := coerce_utf8 (reg_Token p)\<rparr>"
  have "json_parse (json_print (Register_json p)) = Some (Register_json ?p)"
    using json_roundtrip [OF Register_json_ok(1), of p] by (simp only: Register_json_ok(2))
  with assms show ?thesis
    by (simp add: Register_Unmarshal_def json_Unmarshal_def Register_json_eq
        Register_schema_def find_field_def dec_string_def dec_int_json_int)
qed

text \<open>
  C33: A registration whose user id and token are valid UTF-8 survives the wire as it was, whatever the struct that
  receives it held before; in general the version comes back, and the two strings with their invalid bytes replaced by
  U+FFFD.
\<close>

theorem Register_roundtrip:
  assumes "in_int64 (reg_ClientToConnectorVersion p)"
  shows "\<exists>b. Register_Marshal p = Inr b \<and>
    Register_Unmarshal b q =
      (p\<lparr>reg_UserId := coerce_utf8 (reg_UserId p), reg_Token := coerce_utf8 (reg_Token p)\<rparr>, None) \<and>
    (valid_utf8 (reg_UserId p) \<and> valid_utf8 (reg_Token p) \<longrightarrow> Register_Unmarshal b q = (p, None))"
  using Register_decode [OF assms, of q] by (auto simp: Register_encode)

text \<open>The cache of a pushed message holds the encoding of that message.\<close>

definition cache_ok ::
  "(bytes \<Rightarrow> bytes) \<Rightarrow> ToClientMessage \<Rightarrow> bool" where
  "cache_ok zlib p \<longleftrightarrow>
     (case tc_serializedBytes p of None \<Rightarrow> True
      | Some b \<Rightarrow> (case json_Marshal (ToClientMessage_json p) of Inl _ \<Rightarrow> False | Inr raw \<Rightarrow> b = 1 # zlib raw))"

lemma ToClientMessage_json_cache [simp]:
  "ToClientMessage_json (p\<lparr>tc_serializedBytes := c\<rparr>) = ToClientMessage_json p"
  by (simp add: ToClientMessage_json_def)

lemma ToClientMessage_same: "\<exists>c. p = p\<lparr>tc_serializedBytes := c\<rparr>"
  by (rule exI [of _ "tc_serializedBytes p"]) simp

definition encode_ToClientMessage ::
  "(bytes \<Rightarrow> bytes) \<Rightarrow> ToClientMessage \<Rightarrow> bytes result" where
  "encode_ToClientMessage zlib p =
     (case json_Marshal (ToClientMessage_json p) of Inl e \<Rightarrow> Inl e | Inr raw \<Rightarrow> Inr (1 # zlib raw))"

lemma json_strmap_numbers [simp]: "numbers_ok (json_strmap m)"
  by (auto simp: json_strmap_def list_all_iff split: option.split)

lemma ToClientMessage_json_numbers: "numbers_ok (ToClientMessage_json p)"
  by (simp add: ToClientMessage_json_def json_struct_def)

text \<open>
  C36: \<^verbatim>\<open>ToClientMessage.Marshal\<close> with its cache returns what an uncached encoder returns
  (the byte 1, then the compressed JSON), changes nothing of the message but the cache, keeps
  the cache right, and once it has succeeded no later call consults the encoder or the
  compressor again.
\<close>

theorem Marshal_cache_correct:
  assumes "cache_ok zlib p" and "ToClientMessage_Marshal zlib p = (p', r)"
  shows "r = encode_ToClientMessage zlib p \<and>
    (\<exists>c. p' = p\<lparr>tc_serializedBytes := c\<rparr>) \<and> cache_ok zlib p' \<and>
    (\<forall>b. r = Inr b \<longrightarrow> (\<forall>zlib'. ToClientMessage_Marshal zlib' p' = (p', Inr b)))"
  using assms
  by (auto simp: ToClientMessage_Marshal_def cache_ok_def encode_ToClientMessage_def Let_def
      ToClientMessage_same split: option.splits sum.splits)

lemma pushed_names:
  "coerce_utf8 ''messageId'' = ''messageId''" "coerce_utf8 ''toUserId'' = ''toUserId''" "coerce_utf8 ''toRoomId'' = ''toRoomId''"
  "coerce_utf8 ''params'' = ''params''" "coerce_utf8 ''time'' = ''time''" "coerce_utf8 ''timeText'' = ''timeText''"
  "coerce_utf8 ''userId'' = ''userId''" "coerce_utf8 ''roomId'' = ''roomId''"
  by (simp_all add: valid_utf8_ascii ascii_def byte_in_def)

text \<open>
  C35: What is pushed to a client can be read, whether it comes from the cache or not: after the leading byte 1 it
  decompresses (with any inverse \<open>unzlib\<close> of the compressor) to the text of a JSON object with the eight fields of the
  message that have a tag of their own, with their values; bytes of the strings that are not UTF-8 come back
  replaced. \<^verbatim>\<open>Content\<close> and \<^verbatim>\<open>Importance\<close>, whose tags collide, are not sent. \<^verbatim>\<open>Marshal\<close> never fails.
\<close>

theorem Marshal_readable:
  assumes "cache_ok zlib p" and "\<And>b. unzlib (zlib b) = b" and "ToClientMessage_Marshal zlib p = (p', r)"
  shows "\<exists>body. r = Inr (1 # body) \<and> json_parse (unzlib body) = Some (JObj
    [(''messageId'', JStr (coerce_utf8 (tc_MessageId p))), (''toUserId'', JStr (coerce_utf8 (tc_ToUserId p))),
     (''toRoomId'', JStr (coerce_utf8 (tc_ToRoomId p))), (''params'', coerce_json (json_strmap (tc_Params p))),
     (''time'', json_int (tc_Time p)), (''timeText'', JStr (coerce_utf8 (tc_TimeText p))),
     (''userId'', JStr (coerce_utf8 (tc_UserId p))), (''roomId'', JStr (coerce_utf8 (tc_RoomId p)))])"
proof -
  let ?j = "ToClientMessage_json p"
  have "r = Inr (1 # zlib (json_print ?j))"
    using assms(1,3)
    by (auto simp: ToClientMessage_Marshal_def cache_ok_def json_Marshal_def Let_def split: option.splits)
  moreover have "json_parse (json_print ?j) = Some (coerce_json ?j)" by (rule json_roundtrip [OF ToClientMessage_json_numbers])
  ultimately show ?thesis
    by (simp add: assms(2)) (simp add: ToClientMessage_json_def json_struct_def pushed_names)
qed

text \<open>
  The JSON pushed to clients has exactly eight members and none named
  \<^verbatim>\<open>content\<close>: the tags of \<^verbatim>\<open>Content\<close> and \<^verbatim>\<open>Importance\<close> collide, so neither field
  is ever encoded, and two messages that differ only in them are the same on the wire.
\<close>

theorem content_never_encoded:
  "(\<exists>kvs. ToClientMessage_json p = JObj kvs \<and>
      map fst kvs = [''messageId'', ''toUserId'', ''toRoomId'', ''params'', ''time'', ''timeText'',
        ''userId'', ''roomId'']) \<and>
   ToClientMessage_json (p\<lparr>tc_Content := c, tc_Importance := i\<rparr>) = ToClientMessage_json p"
  by (simp add: ToClientMessage_json_def json_struct_def)

text \<open>
  \<^verbatim>\<open>ReadUnmarshalValid\<close> succeeds exactly when the reader delivers, the object decodes
  and the decoded object is valid; an object that decodes but is invalid is reported as
  \<^verbatim>\<open>ErrParameter\<close>.
\<close>

theorem ReadUnmarshalValid_ok_iff:
  "(ReadUnmarshalValid r unmarshal valid obj = (obj2, None)) =
     (\<exists>b. r = Inr b \<and> unmarshal b obj = (obj2, None) \<and> valid obj2) \<and>
   (ReadUnmarshalValid (Inr b) (\<lambda>_ _. (obj2, None)) (\<lambda>_. False) obj = (obj2, Some ErrParameter))"
  by (auto simp: ReadUnmarshalValid_def split: sum.split prod.split option.split)

section \<open>Legacy router messages\<close>

text \<open>
  A router message in the deprecated format (\<^verbatim>\<open>userId\<close>, \<^verbatim>\<open>roomId\<close> and
  \<^verbatim>\<open>content\<close>) that decodes without an error keeps empty destinations: the fallback to
  the deprecated fields is guarded by the opposite condition. After a decoding error the
  fallback does run, and a \<^verbatim>\<open>content\<close> member then empties the user destination.
\<close>

theorem legacy_fields_ignored:
  assumes "json_parse b = Some (JObj [(''userId'', JStr u), (''roomId'', JStr r), (''content'', JStr c)])"
    and "json_parse b' = Some (JObj [(''userId'', JStr u), (''roomId'', JStr r), (''content'', JStr c),
                                 (''time'', JStr bad)])"
    and "r \<noteq> ''''" and "c \<noteq> ''''"
  shows "FromRouterMessage_Unmarshal b zero_FromRouterMessage =
      (zero_FromRouterMessage\<lparr>fr_UserId := u, fr_RoomId := r, fr_Content := c\<rparr>, None) \<and>
    FromRouterMessage_Unmarshal b' zero_FromRouterMessage =
      (zero_FromRouterMessage\<lparr>fr_UserId := u, fr_RoomId := r, fr_Content := c,
         fr_ToUserId := '''', fr_ToRoomId := r\<rparr>, Some json_type_err)"
  using assms
  by (simp add: FromRouterMessage_Unmarshal_def json_Unmarshal_def FromRouterMessage_schema_def
      find_field_def dec_string_def dec_int_def strmap_get_def zero_FromRouterMessage_def)

section \<open>Witnesses\<close>

definition sample_Register :: Register where
  "sample_Register = \<lparr>reg_UserId = ''u'', reg_Token = ''0A'', reg_ClientToConnectorVersion = 100\<rparr>"

theorem Register_roundtrip_witness:
  "\<exists>b. Register_Marshal sample_Register = Inr b \<and> Register_Unmarshal b zero_Register = (sample_Register, None)"
proof -
  have "valid_utf8 ''u''" "valid_utf8 ''0A''" by (simp_all add: valid_utf8_ascii ascii_def byte_in_def)
  with Register_roundtrip [of sample_Register zero_Register] show ?thesis
    by (auto simp: sample_Register_def in_int64_def)
qed

definition sample_ToClientMessage :: ToClientMessage where
  "sample_ToClientMessage = \<lparr>tc_MessageId = ''1'', tc_ToUserId = ''u'', tc_ToRoomId = '''',
     tc_Params = None, tc_Time = 0, tc_TimeText = '''', tc_UserId = ''u'', tc_RoomId = '''',
     tc_Content = ''hi'', tc_Importance = 0, tc_serializedBytes = None\<rparr>"

theorem Marshal_cache_correct_witness:
  "cache_ok rev sample_ToClientMessage \<and>
   snd (ToClientMessage_Marshal rev sample_ToClientMessage) =
     Inr (1 # rev (json_print (ToClientMessage_json sample_ToClientMessage)))"
proof -
  have ok: "cache_ok rev sample_ToClientMessage"
    by (simp add: cache_ok_def sample_ToClientMessage_def)
  obtain p' r where m: "ToClientMessage_Marshal rev sample_ToClientMessage = (p', r)"
    by fastforce
  from Marshal_cache_correct [OF ok m] m ok show ?thesis
    by (simp add: encode_ToClientMessage_def json_Marshal_def)
qed

theorem Marshal_readable_witness:
  "\<exists>body kvs. snd (ToClientMessage_Marshal rev sample_ToClientMessage) = Inr (1 # body) \<and>
     json_parse (rev body) = Some (JObj kvs) \<and> length kvs = 8"
proof -
  obtain p r where m: "ToClientMessage_Marshal rev sample_ToClientMessage = (p, r)" by fastforce
  have "cache_ok rev sample_ToClientMessage" by (simp add: cache_ok_def sample_ToClientMessage_def)
  from Marshal_readable [OF this rev_rev_ident m] m show ?thesis by fastforce
qed

definition legacy_text :: string where
  \<open>legacy_text = ''{"userId":"u","roomId":"r","content":"hi"}''\<close>

definition broken_legacy_text :: string where
  \<open>broken_legacy_text = ''{"userId":"u","roomId":"r","content":"hi","time":"x"}''\<close>

theorem legacy_fields_ignored_witness:
  "fr_ToUserId (fst (FromRouterMessage_Unmarshal (string_bytes legacy_text) zero_FromRouterMessage)) = ''''"
proof -
  have "json_parse (string_bytes legacy_text) =
      Some (JObj [(''userId'', JStr ''u''), (''roomId'', JStr ''r''), (''content'', JStr ''hi'')])"
    and "json_parse (string_bytes broken_legacy_text) =
      Some (JObj [(''userId'', JStr ''u''), (''roomId'', JStr ''r''), (''content'', JStr ''hi''), (''time'', JStr ''x'')])"
    by code_simp+
  from legacy_fields_ignored [OF this] show ?thesis by (simp add: zero_FromRouterMessage_def)
qed

section \<open>Standard responses\<close>

definition CodeResponseOK :: int where
  "CodeResponseOK = 1"

definition BodyResponseOK :: string where
  \<open>BodyResponseOK = ''{"code":1}''\<close>

definition CodeResponseRunOut :: int where
  "CodeResponseRunOut = 2"

definition InfoResponseRunOut :: string where
  "InfoResponseRunOut = ''run out''"

definition BodyResponseRunOut :: string where
  \<open>BodyResponseRunOut = ''{"code":2,"info":"run out"}''\<close>

text \<open>The literal bodies are the JSON texts of the codes and the information they go with.\<close>

lemma response_bodies:
  "string_bytes BodyResponseOK = json_print (JObj [(''code'', json_int CodeResponseOK)])"
  "string_bytes BodyResponseRunOut =
     json_print (JObj [(''code'', json_int CodeResponseRunOut), (''info'', JStr InfoResponseRunOut)])"
  by code_simp+

end
