(* ===== verification/Token.thy ===== *)
theory Token
  imports Go_Json
begin

text \<open>
  Session tokens: \<^verbatim>\<open>token.go\<close> and \<^verbatim>\<open>refreshToken0\<close> of \<^verbatim>\<open>client.go\<close>. A token
  arrives as hexadecimal text, is cut into blocks of the key's size, each block is decrypted
  with the public key, and the concatenation is decoded as JSON.

  The RSA package is not part of the repository: \<open>GetPublickey\<close> is the bit length of the
  key's modulus (\<open>None\<close> when no key is set, where the code dereferences nil) and
  \<open>PubKeyDECRYPT\<close> the decryption of one block. \<^verbatim>\<open>[]byte(hex)\<close> may have spare capacity
  behind its length, and slicing may reach into it: \<open>spare\<close> holds those bytes.
\<close>

section \<open>Data\<close>

record Token =
  tk_UserId :: string
  tk_DeviceId :: string
  tk_Role :: string
  tk_CreateTime :: int
  tk_ExpireTime :: int

definition zero_Token :: Token where
  "zero_Token = \<lparr>tk_UserId = '''', tk_DeviceId = '''', tk_Role = '''', tk_CreateTime = 0, tk_ExpireTime = 0\<rparr>"

definition Token_schema :: "Token schema" where
  "Token_schema =
     [(''userId'', dec_string (\<lambda>t. tk_UserId_update (\<lambda>_. t))),
      (''deviceId'', dec_string (\<lambda>t. tk_DeviceId_update (\<lambda>_. t))),
      (''role'', dec_string (\<lambda>t. tk_Role_update (\<lambda>_. t))),
      (''createTime'', dec_int (\<lambda>n. tk_CreateTime_update (\<lambda>_. n))),
      (''expireTime'', dec_int (\<lambda>n. tk_ExpireTime_update (\<lambda>_. n)))]"

section \<open>Hexadecimal text\<close>

definition hex_digits :: bytes where
  "hex_digits = string_bytes ''0123456789ABCDEF''"

text \<open>
  \<^verbatim>\<open>strings.Index\<close> of a one-character string in the digits, -1 when it is not there. A
  byte from 128 on converts to a two-byte string, which is not there either.
\<close>

fun index_from :: "int \<Rightarrow> byte \<Rightarrow> bytes \<Rightarrow> int" where
  "index_from i c [] = - 1"
| "index_from i c (d # ds) = (if c = d then i else index_from (i + 1) c ds)"

definition hex_index :: "byte \<Rightarrow> int" where
  "hex_index c = index_from 0 c hex_digits"

definition toByte :: "byte \<Rightarrow> byte \<Rightarrow> byte" where
  "toByte ch0 ch1 = word_of_int (hex_index ch0 * 16 + hex_index ch1)"

fun hex_loop :: "bytes \<Rightarrow> bytes \<Rightarrow> bytes may_panic" where
  "hex_loop spare [] = Inr []"
| "hex_loop spare [a] = (case spare of [] \<Rightarrow> Inl SliceBounds | b # _ \<Rightarrow> Inr [toByte a b])"
| "hex_loop spare (a # b # rest) = bind_panic (hex_loop spare rest) (\<lambda>r. Inr (toByte a b # r))"

definition hexToBytes :: "bytes \<Rightarrow> string \<Rightarrow> bytes may_panic" where
  "hexToBytes spare hex = hex_loop spare (string_bytes hex)"

section \<open>Blocks\<close>

definition splitBytes :: "bytes \<Rightarrow> nat \<Rightarrow> bytes list may_panic" where
  "splitBytes bs splitLength =
     (if splitLength = 0 then Inl DivideByZero
      else
        (let y = length bs mod splitLength;
             x = (if y \<noteq> 0 then length bs div splitLength + 1 else length bs div splitLength)
         in Inr (map (\<lambda>i. if i = x - 1 \<and> length bs mod splitLength \<noteq> 0
                          then drop (i * splitLength) bs
                          else take splitLength (drop (i * splitLength) bs)) [0 ..< x])))"

section \<open>Decryption\<close>

fun decrypt_blocks :: "(bytes \<Rightarrow> bytes result) \<Rightarrow> bytes list \<Rightarrow> bytes \<Rightarrow> bytes result" where
  "decrypt_blocks PubKeyDECRYPT [] jsonText = Inr jsonText"
| "decrypt_blocks PubKeyDECRYPT (array # arrays) jsonText =
     (case PubKeyDECRYPT array of
        Inl e \<Rightarrow> Inl e
      | Inr decryptBytes \<Rightarrow> decrypt_blocks PubKeyDECRYPT arrays (jsonText @ decryptBytes))"

record token_env =
  te_PemFile :: string
  te_GetPublickey :: "nat option"
  te_PubKeyDECRYPT :: "bytes \<Rightarrow> bytes result"
  te_spare :: bytes

definition decrypt :: "token_env \<Rightarrow> string \<Rightarrow> (Token \<times> err option) may_panic" where
  "decrypt env tokenText =
     (case te_GetPublickey env of
        None \<Rightarrow> Inl NilDereference
      | Some bitLen \<Rightarrow>
          bind_panic (hexToBytes (te_spare env) tokenText) (\<lambda>contentBytes.
          bind_panic (splitBytes contentBytes (bitLen div 8)) (\<lambda>arrays.
            (case decrypt_blocks (te_PubKeyDECRYPT env) arrays [] of
               Inl e \<Rightarrow> Inr (zero_Token, Some e)
             | Inr jsonText \<Rightarrow> Inr (json_Unmarshal Token_schema jsonText zero_Token)))))"

definition refreshToken0 :: "token_env \<Rightarrow> string \<Rightarrow> (Token \<times> err option) may_panic" where
  "refreshToken0 env tokenText =
     (let token = zero_Token\<lparr>tk_ExpireTime := - 1\<rparr>
      in if te_PemFile env \<noteq> '''' then decrypt env tokenText else Inr (token, None))"

section \<open>Correctness\<close>

subsection \<open>Hexadecimal text\<close>

definition hex_char :: "nat \<Rightarrow> char" where
  "hex_char n = ''0123456789ABCDEF'' ! n"

definition hex_of :: "bytes \<Rightarrow> string" where
  "hex_of bs = concat (map (\<lambda>b. [hex_char (unat b div 16), hex_char (unat b mod 16)]) bs)"

lemma hex_index_table: "list_all (\<lambda>n. hex_index (of_char (hex_char n)) = int n) [0 ..< 16]"
  by code_simp

lemma hex_index_char: "n < 16 \<Longrightarrow> hex_index (of_char (hex_char n)) = int n"
  using hex_index_table by (auto simp: list_all_iff)

lemma toByte_hex: "toByte (of_char (hex_char (unat b div 16))) (of_char (hex_char (unat b mod 16))) = b"
proof -
  have "unat b < 256" using unsigned_less [of b] by simp
  then have "unat b div 16 < 16" and "unat b mod 16 < 16" by simp_all
  then have "toByte (of_char (hex_char (unat b div 16))) (of_char (hex_char (unat b mod 16)))
      = word_of_int (int (unat b div 16) * 16 + int (unat b mod 16))"
    by (simp only: toByte_def hex_index_char)
  also have "int (unat b div 16) * 16 + int (unat b mod 16) = int (unat b)"
    using div_mult_mod_eq [of "unat b" 16] by linarith
  also have "word_of_int (int (unat b)) = b" by simp
  finally show ?thesis .
qed

lemma hex_loop_encoded: "hex_loop spare (string_bytes (hex_of bs)) = Inr bs"
  by (induction bs) (simp_all add: hex_of_def string_bytes_def toByte_hex)

lemma hex_loop_length:
  "hex_loop spare bs = Inr r \<Longrightarrow> length r = (length bs + 1) div 2"
  by (induction spare bs arbitrary: r rule: hex_loop.induct) (auto split: list.splits)

lemma hex_loop_panics:
  "hex_loop spare bs = Inl p \<longleftrightarrow> p = SliceBounds \<and> odd (length bs) \<and> spare = []"
  by (induction spare bs rule: hex_loop.induct) (auto simp: bind_panic_eq_Inl split: list.splits)

text \<open>
  Decoding the upper-case hexadecimal text of any bytes gives the bytes back.
\<close>

theorem hexToBytes_roundtrip: "hexToBytes spare (hex_of bs) = Inr bs"
  by (simp add: hexToBytes_def hex_loop_encoded)

text \<open>
  \<^verbatim>\<open>hexToBytes\<close> panics exactly on text of odd length that fills its backing array; in
  every other case it returns half as many bytes as characters, rounded up, whatever the
  characters are. It has no way to report a character that is not a digit: two such
  characters decode to the byte 239.
\<close>

theorem hexToBytes_total:
  "(case hexToBytes spare hex of
      Inl p \<Rightarrow> p = SliceBounds \<and> odd (length hex) \<and> spare = []
    | Inr r \<Rightarrow> \<not> (odd (length hex) \<and> spare = []) \<and> length r = (length hex + 1) div 2) \<and>
   hexToBytes spare ''zz'' = Inr [239]"
proof
  have "hex_loop spare (string_bytes hex) = Inr r \<Longrightarrow> \<not> (odd (length hex) \<and> spare = [])" for r
    using hex_loop_panics [of spare "string_bytes hex" SliceBounds] by (auto simp: string_bytes_def)
  then show "case hexToBytes spare hex of
      Inl p \<Rightarrow> p = SliceBounds \<and> odd (length hex) \<and> spare = []
    | Inr r \<Rightarrow> \<not> (odd (length hex) \<and> spare = []) \<and> length r = (length hex + 1) div 2"
    using hex_loop_length [of spare "string_bytes hex"]
    by (auto simp: hexToBytes_def hex_loop_panics string_bytes_def split: sum.split)
  show "hexToBytes spare ''zz'' = Inr [239]"
    by (simp add: hexToBytes_def toByte_def hex_index_def hex_digits_def string_bytes_def)
qed

subsection \<open>Blocks\<close>

text \<open>The blocks by structural recursion: the reference for the index arithmetic of the source.\<close>

function chunks :: "nat \<Rightarrow> 'a list \<Rightarrow> 'a list list" where
  "chunks k bs = (if bs = [] \<or> k = 0 then [] else take k bs # chunks k (drop k bs))"
  by pat_completeness auto
termination by (relation "measure (\<lambda>(k, bs). length bs)") auto

declare chunks.simps [simp del]

lemma chunks_Nil [simp]: "chunks k [] = []"
  by (simp add: chunks.simps)

lemma concat_chunks: "0 < k \<Longrightarrow> concat (chunks k bs) = bs"
  by (induction k bs rule: chunks.induct) (subst chunks.simps, auto)

lemma chunks_length_le: "c \<in> set (chunks k bs) \<Longrightarrow> c \<noteq> [] \<and> length c \<le> k"
  by (induction k bs rule: chunks.induct) (subst (asm) (2) chunks.simps, auto split: if_splits)

lemma length_chunks: "0 < k \<Longrightarrow> length (chunks k bs) = (length bs + k - 1) div k"
proof (induction k bs rule: chunks.induct)
  case (1 k bs)
  show ?case
  proof (cases "bs = []")
    case True
    with "1.prems" show ?thesis by simp
  next
    case False
    then have step: "length (chunks k bs) = Suc (length (chunks k (drop k bs)))"
      using "1.prems" by (subst chunks.simps) simp
    show ?thesis
    proof (cases "length bs \<le> k")
      case True
      obtain n where n: "length bs = Suc n" using False by (cases bs) auto
      have "(n + k) div k = Suc (n div k)" using "1.prems" by (simp add: div_add_self2)
      with step True n show ?thesis by simp
    next
      case gt: False
      have "length (chunks k (drop k bs)) = (length bs - k + k - 1) div k"
        using "1.IH" False "1.prems" by simp
      moreover have "length bs + k - 1 = (length bs - k + k - 1) + k" using gt by simp
      ultimately show ?thesis using step "1.prems" by (metis Suc_eq_plus1 div_add_self2 neq0_conv)
    qed
  qed
qed

lemma chunks_nth:
  "0 < k \<Longrightarrow> i < length (chunks k bs) \<Longrightarrow> chunks k bs ! i = take k (drop (i * k) bs)"
proof (induction i arbitrary: bs)
  case 0
  then have "bs \<noteq> []" by auto
  with "0.prems"(1) show ?case by (subst chunks.simps) simp
next
  case (Suc i)
  have ne: "bs \<noteq> []" using Suc.prems by auto
  then have "chunks k bs = take k bs # chunks k (drop k bs)"
    using Suc.prems(1) by (subst chunks.simps) simp
  with Suc show ?case by (simp add: add.commute)
qed

lemma splitBytes_chunks:
  assumes k: "0 < k"
  shows "splitBytes bs k = Inr (chunks k bs)"
proof -
  define x where "x = (if length bs mod k \<noteq> 0 then length bs div k + 1 else length bs div k)"
  define f where "f i = (if i = x - 1 \<and> length bs mod k \<noteq> 0
      then drop (i * k) bs else take k (drop (i * k) bs))" for i
  have rem: "length bs mod k < k" using k by simp
  have eq: "length bs + k - 1 = length bs div k * k + (length bs mod k + k - 1)"
    using k by (simp add: add.assoc flip: add_diff_assoc)
  have "(length bs + k - 1) div k = length bs div k + (length bs mod k + k - 1) div k"
    unfolding eq using k by (intro div_mult_self3) simp
  moreover have "(length bs mod k + k - 1) div k = (if length bs mod k \<noteq> 0 then 1 else 0)"
    using k rem by (auto simp: div_if)
  ultimately have len: "length (chunks k bs) = x"
    using k by (simp add: length_chunks x_def)
  have "chunks k bs ! i = f i" if "i < x" for i
  proof -
    have nth: "chunks k bs ! i = take k (drop (i * k) bs)"
      using k that len by (simp add: chunks_nth)
    have "length (drop (i * k) bs) \<le> k" if "i = x - 1" and "length bs mod k \<noteq> 0"
      using that k rem by (simp add: x_def minus_div_mult_eq_mod)
    then show ?thesis by (simp add: nth f_def)
  qed
  then have "chunks k bs = map f [0 ..< x]"
    using len by (intro nth_equalityI) simp_all
  then show ?thesis using k by (simp add: splitBytes_def Let_def x_def f_def [abs_def])
qed

text \<open>
  \<^verbatim>\<open>splitBytes\<close> panics exactly for a block size of zero; otherwise its index
  arithmetic yields the blocks of the straightforward recursion: their concatenation is the
  input, none is empty or longer than the block size, and there are as many as the rounded-up
  quotient.
\<close>

theorem splitBytes_correct:
  "splitBytes bs k = (if k = 0 then Inl DivideByZero else Inr (chunks k bs)) \<and>
   concat (chunks (Suc j) bs) = bs \<and>
   list_all (\<lambda>c. c \<noteq> [] \<and> length c \<le> Suc j) (chunks (Suc j) bs) \<and>
   length (chunks (Suc j) bs) = (length bs + j) div Suc j"
  using splitBytes_chunks [of k bs] concat_chunks [of "Suc j" bs] length_chunks [of "Suc j" bs]
    chunks_length_le [of _ "Suc j" bs]
  by (auto simp: splitBytes_def list_all_iff)

subsection \<open>Whole tokens\<close>


lemma chunks_concat:
  assumes "0 < k" and "\<And>b. b \<in> set cs \<Longrightarrow> length b = k"
  shows "chunks k (concat cs) = cs"
  using assms(2)
proof (induction cs)
  case Nil
  then show ?case by simp
next
  case (Cons c cs)
  then show ?case using assms(1) by (subst chunks.simps) auto
qed





text \<open>
  One block that does not decrypt makes the whole token fail with that block's error, and no
  field of the token is set.
\<close>

theorem decrypt_bad_block:
  assumes "te_GetPublickey env = Some bitLen" and "8 \<le> bitLen"
    and "te_PubKeyDECRYPT env bad = Inl e" and "length bad = bitLen div 8"
    and "\<And>b. b \<in> set good \<Longrightarrow> te_PubKeyDECRYPT env b = Inr (f b) \<and> length b = bitLen div 8"
    and "\<And>b. b \<in> set rest \<Longrightarrow> length b = bitLen div 8"
  shows "decrypt env (hex_of (concat (good @ bad # rest))) = Inr (zero_Token, Some e)"
proof -
  have "0 < bitLen div 8" using assms(2) by auto
  then have sp: "splitBytes (concat (good @ bad # rest)) (bitLen div 8) = Inr (good @ bad # rest)"
    using chunks_concat [of "bitLen div 8" "good @ bad # rest"] assms(4-6)
    by (auto simp: splitBytes_chunks)
  have "decrypt_blocks (te_PubKeyDECRYPT env) (good @ bad # rest) acc = Inl e" for acc
    using assms(3,5) by (induction good arbitrary: acc) auto
  with sp assms(1) show ?thesis
    by (simp add: decrypt_def hexToBytes_def hex_loop_encoded del: concat.simps concat_append)
qed

text \<open>
  Without a configured key file every token text is accepted, with an expiry of -1 (no
  session timer); with one, nothing but the outcome of \<^verbatim>\<open>decrypt\<close> decides, and a missing
  public key is a nil dereference.
\<close>

theorem refreshToken0_cases:
  "refreshToken0 (env\<lparr>te_PemFile := ''''\<rparr>) t = Inr (zero_Token\<lparr>tk_ExpireTime := - 1\<rparr>, None) \<and>
   refreshToken0 (env\<lparr>te_PemFile := c # cs\<rparr>) t = decrypt (env\<lparr>te_PemFile := c # cs\<rparr>) t \<and>
   refreshToken0 (env\<lparr>te_PemFile := c # cs, te_GetPublickey := None\<rparr>) t = Inl NilDereference"
  by (simp add: refreshToken0_def decrypt_def)

section \<open>Witnesses\<close>

definition sample_env :: token_env where
  "sample_env = \<lparr>te_PemFile = ''live.pem'', te_GetPublickey = Some 16,
     te_PubKeyDECRYPT = (\<lambda>b. if b = [9, 9] then Inl (ErrExternal ''rsa'') else Inr [hd b]),
     te_spare = []\<rparr>"




theorem decrypt_bad_block_witness:
  "decrypt sample_env (hex_of (concat ([[1, 0]] @ [9, 9] # [[3, 0]]))) =
     Inr (zero_Token, Some (ErrExternal ''rsa''))"
  by (rule decrypt_bad_block [where bitLen = 16 and f = "\<lambda>b. [hd b]"]) (auto simp: sample_env_def)

end
