(* ===== verification/Connector_State.thy ===== *)
theory Connector_State
  imports Message_Queue Protocol Token
begin

text \<open>
  The state of the connector process, as the goroutines share it.

  \<^item> \<^verbatim>\<open>*Client\<close> and \<^verbatim>\<open>*ToClientMessage\<close> are addresses: positions in the lists
    \<open>w_heap\<close> and \<open>w_msgs\<close>, which only ever grow. Two clients are the same object exactly
    when their addresses are equal, which is what the managers compare.
  \<^item> \<open>w_clients\<close> is \<^verbatim>\<open>ClientManager.clients\<close>, \<open>w_rooms\<close> is
    \<^verbatim>\<open>RoomManager.clients\<close>, \<open>w_group\<close> the package variable \<^verbatim>\<open>messageQueueGroup\<close>,
    \<open>w_info\<close> the package variable \<^verbatim>\<open>info\<close>.
  \<^item> The connection package bdmsg is not part of the repository. A connection
    (\<^verbatim>\<open>*bdmsg.SClient\<close>) is a number, and what the code does to it is recorded: \<open>w_calls\<close>
    lists the calls the connector made, oldest first. What bdmsg answers is an argument of the
    operation that asks.
  \<^item> \<open>w_tasks\<close> lists the goroutines started with \<^verbatim>\<open>go\<close> that have not finished.

  Mutexes and condition variables are not part of the state: an operation of the model runs
  under the locks its source takes, and one operation is one atomic step (\<open>Client_Pump\<close>,
  \<open>Queue_Threads\<close>, \<open>Room_Threads\<close> and \<open>Session_Threads\<close> cut the operations finer whose promises depend on it). A client's references to the two
  managers are left out, since there is one of each, and so is its timer \<^verbatim>\<open>signalTimer\<close>,
  which nothing uses.
\<close>

type_synonym addr = nat
type_synonym maddr = nat
type_synonym conn = nat

text \<open>A \<^verbatim>\<open>*time.Timer\<close> made by \<^verbatim>\<open>time.AfterFunc\<close>: its last duration in nanoseconds, and whether
  it is running.\<close>

record timer =
  tm_duration :: int
  tm_active :: bool

record client =
  c_ID :: string
  c_roomId :: string
  c_level :: int
  c_msc :: conn
  c_queue :: "maddr list"
  c_expireTimer :: "timer option"
  c_heartBeatTime :: int
  c_q :: bool
  c_version :: int

text \<open>The value of \<^verbatim>\<open>Pumper.UserData()\<close>.\<close>

datatype userdata = UD_SClient conn | UD_Client addr | UD_nil

datatype call =
    CallStop conn | CallSetUserData conn userdata | CallHandshake conn | CallOutput conn int bytes

datatype task = Monitor addr | Expire addr int | Pump addr

record info =
  info_LoginUsers :: "32 word"
  info_ConnectedClients :: "32 word"
  info_InData :: int
  info_OutData :: int
  info_InQueue :: int

record world =
  w_heap :: "client list"
  w_msgs :: "ToClientMessage list"
  w_clients :: "(string, addr) gomap"
  w_rooms :: "(string, (string, addr) gomap) gomap"
  w_group :: MessageQueueGroup
  w_chatMessageCounter :: "64 word"
  w_packedMessageCounter :: "64 word"
  w_info :: info
  w_calls :: "call list"
  w_tasks :: "task list"

definition init_world :: world where
  "init_world = \<lparr>w_heap = [], w_msgs = [], w_clients = [], w_rooms = [], w_group = None,
     w_chatMessageCounter = 0, w_packedMessageCounter = 0,
     w_info = \<lparr>info_LoginUsers = 0, info_ConnectedClients = 0, info_InData = 0, info_OutData = 0,
       info_InQueue = 0\<rparr>, w_calls = [], w_tasks = []\<rparr>"

section \<open>Access\<close>

definition deref :: "world \<Rightarrow> addr \<Rightarrow> client" where
  "deref w a = w_heap w ! a"

definition upd_client :: "addr \<Rightarrow> (client \<Rightarrow> client) \<Rightarrow> world \<Rightarrow> world" where
  "upd_client a f w = w\<lparr>w_heap := (w_heap w)[a := f (w_heap w ! a)]\<rparr>"

definition emit :: "call \<Rightarrow> world \<Rightarrow> world" where
  "emit c w = w\<lparr>w_calls := w_calls w @ [c]\<rparr>"

definition spawn :: "task \<Rightarrow> world \<Rightarrow> world" where
  "spawn t w = w\<lparr>w_tasks := w_tasks w @ [t]\<rparr>"

definition alive :: "world \<Rightarrow> addr \<Rightarrow> bool" where
  "alive w a \<longleftrightarrow> Monitor a \<in> set (w_tasks w)"

definition stopped :: "world \<Rightarrow> conn \<Rightarrow> bool" where
  "stopped w s \<longleftrightarrow> CallStop s \<in> set (w_calls w)"

text \<open>The user data bdmsg hands back: the last value set, at first the connection itself.\<close>

definition userData :: "world \<Rightarrow> conn \<Rightarrow> userdata" where
  "userData w s =
     fold (\<lambda>c u. case c of CallSetUserData s' u' \<Rightarrow> if s' = s then u' else u | _ \<Rightarrow> u)
       (w_calls w) (UD_SClient s)"

section \<open>Frame lemmas\<close>


lemma upd_client_frame [simp]:
  "w_msgs (upd_client a f w) = w_msgs w"
  "w_clients (upd_client a f w) = w_clients w"
  "w_rooms (upd_client a f w) = w_rooms w"
  "w_group (upd_client a f w) = w_group w"
  "w_chatMessageCounter (upd_client a f w) = w_chatMessageCounter w"
  "w_packedMessageCounter (upd_client a f w) = w_packedMessageCounter w"
  "w_info (upd_client a f w) = w_info w"
  "w_calls (upd_client a f w) = w_calls w"
  "w_tasks (upd_client a f w) = w_tasks w"
  "length (w_heap (upd_client a f w)) = length (w_heap w)"
  by (simp_all add: upd_client_def)

lemma emit_frame [simp]:
  "w_heap (emit c w) = w_heap w"
  "w_msgs (emit c w) = w_msgs w"
  "w_clients (emit c w) = w_clients w"
  "w_rooms (emit c w) = w_rooms w"
  "w_group (emit c w) = w_group w"
  "w_chatMessageCounter (emit c w) = w_chatMessageCounter w"
  "w_packedMessageCounter (emit c w) = w_packedMessageCounter w"
  "w_info (emit c w) = w_info w"
  "w_calls (emit c w) = w_calls w @ [c]"
  "w_tasks (emit c w) = w_tasks w"
  "deref (emit c w) a = deref w a"
  by (simp_all add: emit_def deref_def)

lemma spawn_frame [simp]:
  "w_heap (spawn t w) = w_heap w"
  "w_msgs (spawn t w) = w_msgs w"
  "w_clients (spawn t w) = w_clients w"
  "w_rooms (spawn t w) = w_rooms w"
  "w_group (spawn t w) = w_group w"
  "w_chatMessageCounter (spawn t w) = w_chatMessageCounter w"
  "w_packedMessageCounter (spawn t w) = w_packedMessageCounter w"
  "w_info (spawn t w) = w_info w"
  "w_calls (spawn t w) = w_calls w"
  "w_tasks (spawn t w) = w_tasks w @ [t]"
  "deref (spawn t w) a = deref w a"
  by (simp_all add: spawn_def deref_def)

lemma deref_upd_client [simp]:
  "deref (upd_client a f w) b = (if b = a \<and> a < length (w_heap w) then f (deref w a) else deref w b)"
  by (cases "a < length (w_heap w)")
    (auto simp: deref_def upd_client_def nth_list_update list_update_beyond)

lemma deref_world_update [simp]:
  "deref (w\<lparr>w_msgs := ms\<rparr>) a = deref w a"
  "deref (w\<lparr>w_clients := cs\<rparr>) a = deref w a"
  "deref (w\<lparr>w_rooms := rs\<rparr>) a = deref w a"
  "deref (w\<lparr>w_group := g\<rparr>) a = deref w a"
  "deref (w\<lparr>w_chatMessageCounter := n\<rparr>) a = deref w a"
  "deref (w\<lparr>w_packedMessageCounter := n\<rparr>) a = deref w a"
  "deref (w\<lparr>w_info := i\<rparr>) a = deref w a"
  "deref (w\<lparr>w_calls := l\<rparr>) a = deref w a"
  "deref (w\<lparr>w_tasks := t\<rparr>) a = deref w a"
  by (simp_all add: deref_def)

lemma alive_simps [simp]:
  "alive (upd_client a f w) b = alive w b"
  "alive (emit c w) b = alive w b"
  "alive (spawn t w) b \<longleftrightarrow> alive w b \<or> t = Monitor b"
  by (auto simp: alive_def)

lemma stopped_simps [simp]:
  "stopped (upd_client a f w) s = stopped w s"
  "stopped (emit c w) s \<longleftrightarrow> stopped w s \<or> c = CallStop s"
  "stopped (spawn t w) s = stopped w s"
  by (auto simp: stopped_def)

lemma userData_emit [simp]:
  "userData (emit c w) s =
     (case c of CallSetUserData s' u \<Rightarrow> if s' = s then u else userData w s | _ \<Rightarrow> userData w s)"
  by (simp add: userData_def split: call.split)

lemma userData_frame [simp]:
  "userData (upd_client a f w) s = userData w s"
  "userData (spawn t w) s = userData w s"
  by (simp_all add: userData_def)

end
