(* ===== verification/Rooms.thy ===== *)
theory Rooms
  imports Connector_State
begin

text \<open>
  \<^verbatim>\<open>room.go\<close>: the room manager. A room is a map from user ids to client objects; the
  manager maps room ids to rooms and drops a room when its last client leaves. The map-level
  operations (\<open>rooms_ending\<close>, \<open>rooms_clientIn\<close>) interpret the compare-and-delete contract
  of \<open>Go_Prelude\<close>; the operations on the process state read the client's id from the heap.
\<close>

section \<open>Operations on the maps\<close>

type_synonym rooms = "(string, (string, addr) gomap) gomap"

definition NewRoomManager :: rooms where
  "NewRoomManager = []"

text \<open>\<^verbatim>\<open>m.clients[roomId][userId]\<close>: reading through a missing room yields nil.\<close>

definition member :: "rooms \<Rightarrow> string \<times> string \<Rightarrow> addr option" where
  "member rs k = (case map_of rs (fst k) of None \<Rightarrow> None | Some m \<Rightarrow> map_of m (snd k))"

definition search :: "rooms \<Rightarrow> string \<Rightarrow> string \<Rightarrow> addr \<Rightarrow> bool" where
  "search rs roomId userId c \<longleftrightarrow> member rs (roomId, userId) = Some c"

definition rooms_ending :: "string \<Rightarrow> string \<Rightarrow> addr \<Rightarrow> rooms \<Rightarrow> rooms" where
  "rooms_ending roomId userId c rs =
     (case map_of rs roomId of
        None \<Rightarrow> rs
      | Some m \<Rightarrow>
          if map_of m userId = Some c then
            (let m' = AList.delete userId m
             in if length m' = 0 then AList.delete roomId rs else AList.update roomId m' rs)
          else rs)"

definition rooms_clientIn :: "string \<Rightarrow> string \<Rightarrow> addr \<Rightarrow> rooms \<Rightarrow> rooms" where
  "rooms_clientIn roomId userId c rs =
     (let rs = rooms_ending roomId userId c rs;
          rs = (if map_of rs roomId = None then AList.update roomId [] rs else rs);
          found = search rs roomId userId c
      in if \<not> found
         then AList.update roomId
                (AList.update userId c (case map_of rs roomId of None \<Rightarrow> [] | Some m \<Rightarrow> m)) rs
         else rs)"

section \<open>Operations on the process state\<close>

definition RoomManager_ending :: "string \<Rightarrow> addr \<Rightarrow> world \<Rightarrow> world" where
  "RoomManager_ending roomId c w =
     w\<lparr>w_rooms := rooms_ending roomId (c_ID (deref w c)) c (w_rooms w)\<rparr>"

definition RoomManager_clientIn :: "addr \<Rightarrow> string \<Rightarrow> world \<Rightarrow> world" where
  "RoomManager_clientIn c roomId w =
     (if roomId = '''' then w
      else upd_client c (\<lambda>x. x\<lparr>c_roomId := roomId\<rparr>)
             (w\<lparr>w_rooms := rooms_clientIn roomId (c_ID (deref w c)) c (w_rooms w)\<rparr>))"

section \<open>The registry contract\<close>

text \<open>No room is empty, no map has a key twice.\<close>

definition rooms_ok :: "rooms \<Rightarrow> bool" where
  "rooms_ok rs \<longleftrightarrow>
     gomap_ok rs \<and> (\<forall>r m. map_of rs r = Some m \<longrightarrow> r \<noteq> '''' \<and> gomap_ok m \<and> m \<noteq> [])"

lemma rooms_ok_New [simp]: "rooms_ok NewRoomManager"
  by (simp add: rooms_ok_def NewRoomManager_def)

lemma member_New [simp]: "member NewRoomManager k = None"
  by (simp add: member_def NewRoomManager_def)

lemma rooms_ok_ending: "rooms_ok rs \<Longrightarrow> rooms_ok (rooms_ending r u c rs)"
  by (auto simp: rooms_ok_def rooms_ending_def Let_def gomap_simps split: option.split if_splits)

lemma member_ending:
  "rooms_ok rs \<Longrightarrow>
   member (rooms_ending r u c rs) k =
     (if k = (r, u) \<and> member rs (r, u) = Some c then None else member rs k)"
  by (cases k)
    (auto simp: rooms_ok_def rooms_ending_def member_def Let_def gomap_simps gomap_empty_iff
      split: option.splits if_splits)

lemma rooms_ok_clientIn: "rooms_ok rs \<Longrightarrow> r \<noteq> '''' \<Longrightarrow> rooms_ok (rooms_clientIn r u c rs)"
  using rooms_ok_ending [of rs r u c]
  by (auto simp: rooms_ok_def rooms_clientIn_def Let_def search_def member_def gomap_simps
      split: option.splits if_splits)

lemma member_clientIn:
  "rooms_ok rs \<Longrightarrow>
   member (rooms_clientIn r u c rs) k = (if k = (r, u) then Some c else member rs k)"
  using member_ending [of rs r u c k] member_ending [of rs r u c "(r, u)"]
  by (cases k)
    (auto simp: rooms_clientIn_def Let_def search_def member_def gomap_simps
      split: option.splits if_splits)

interpretation room: owner_registry
  member "\<lambda>(r, u) c. rooms_clientIn r u c" "\<lambda>(r, u) c. rooms_ending r u c" "\<lambda>(r, u). r \<noteq> ''''" rooms_ok
  by unfold_locales
    (auto simp: member_clientIn member_ending rooms_ok_clientIn rooms_ok_ending split: if_splits)

section \<open>Correctness\<close>

lemma RoomManager_ending_frame [simp]:
  "w_heap (RoomManager_ending r c w) = w_heap w"
  "w_msgs (RoomManager_ending r c w) = w_msgs w"
  "w_clients (RoomManager_ending r c w) = w_clients w"
  "w_group (RoomManager_ending r c w) = w_group w"
  "w_chatMessageCounter (RoomManager_ending r c w) = w_chatMessageCounter w"
  "w_packedMessageCounter (RoomManager_ending r c w) = w_packedMessageCounter w"
  "w_info (RoomManager_ending r c w) = w_info w"
  "w_calls (RoomManager_ending r c w) = w_calls w"
  "w_tasks (RoomManager_ending r c w) = w_tasks w"
  "deref (RoomManager_ending r c w) a = deref w a"
  "w_rooms (RoomManager_ending r c w) = rooms_ending r (c_ID (deref w c)) c (w_rooms w)"
  by (simp_all add: RoomManager_ending_def)

lemma RoomManager_clientIn_frame [simp]:
  "length (w_heap (RoomManager_clientIn c r w)) = length (w_heap w)"
  "w_msgs (RoomManager_clientIn c r w) = w_msgs w"
  "w_clients (RoomManager_clientIn c r w) = w_clients w"
  "w_group (RoomManager_clientIn c r w) = w_group w"
  "w_chatMessageCounter (RoomManager_clientIn c r w) = w_chatMessageCounter w"
  "w_packedMessageCounter (RoomManager_clientIn c r w) = w_packedMessageCounter w"
  "w_info (RoomManager_clientIn c r w) = w_info w"
  "w_calls (RoomManager_clientIn c r w) = w_calls w"
  "w_tasks (RoomManager_clientIn c r w) = w_tasks w"
  "w_rooms (RoomManager_clientIn c r w) =
     (if r = '''' then w_rooms w else rooms_clientIn r (c_ID (deref w c)) c (w_rooms w))"
  "deref (RoomManager_clientIn c r w) a =
     (if r \<noteq> '''' \<and> a = c \<and> c < length (w_heap w) then (deref w c)\<lparr>c_roomId := r\<rparr> else deref w a)"
  by (simp_all add: RoomManager_clientIn_def)

lemma RoomManager_clientIn_ID [simp]:
  "c_ID (deref (RoomManager_clientIn c r w) a) = c_ID (deref w a)"
  by simp

text \<open>
  C24: The room manager refines a plain map from (room, user) to client objects: over every
  sequence of entries into named rooms and of leavings, starting from the new manager, the
  nested maps hold exactly what the abstract map holds, where leaving removes an entry only if
  it still holds the leaving object; and no room is ever left empty.
\<close>

theorem rooms_refine_registry:
  assumes "room.valid_ops ops"
  shows "member (room.run ops NewRoomManager) = reg_spec (\<lambda>_. None) ops \<and>
    rooms_ok (room.run ops NewRoomManager)"
  using room.run_refines [OF rooms_ok_New assms] room.inv_run [OF rooms_ok_New assms]
  by (simp add: member_New [abs_def])

text \<open>
  A client object that was replaced in a room (a second connection of the same user entered
  it) cannot remove its replacement when it ends.
\<close>

theorem replaced_member_stays:
  assumes "rooms_ok rs" and "r \<noteq> ''''" and "c \<noteq> c'"
  shows "member (rooms_ending r u c (rooms_clientIn r u c' rs)) (r, u) = Some c'"
  using room.superseded_cannot_evict [of rs "(r, u)" c c'] assms by simp

text \<open>
  Changing rooms does not leave the old room: the manager removes the client from the room
  it enters, not from the one it is in. After the change the client is a member of both, and
  after it has ended, which leaves only the last room, the old room still holds the dead
  object.
\<close>

theorem room_change_keeps_old_membership:
  assumes "rooms_ok (w_rooms w)" and "c < length (w_heap w)"
    and "r1 \<noteq> ''''" and "r2 \<noteq> ''''" and "r1 \<noteq> r2"
  shows "let w2 = RoomManager_clientIn c r2 (RoomManager_clientIn c r1 w);
             w3 = RoomManager_ending (c_roomId (deref w2 c)) c w2;
             u = c_ID (deref w c)
         in member (w_rooms w2) (r1, u) = Some c \<and> member (w_rooms w2) (r2, u) = Some c \<and>
            member (w_rooms w3) (r1, u) = Some c \<and> member (w_rooms w3) (r2, u) = None"
  using assms by (simp add: Let_def member_clientIn member_ending rooms_ok_clientIn)

section \<open>Witnesses\<close>

definition sample_client :: "string \<Rightarrow> conn \<Rightarrow> client" where
  "sample_client u s = \<lparr>c_ID = u, c_roomId = '''', c_level = 0, c_msc = s, c_queue = [],
     c_expireTimer = None, c_heartBeatTime = 0, c_q = False, c_version = 0\<rparr>"

theorem rooms_refine_registry_witness:
  "member (room.run [Enter (''r'', ''u'') 0, Enter (''r'', ''u'') 1, Leave (''r'', ''u'') 0] NewRoomManager)
     (''r'', ''u'') = Some 1"
proof -
  have "room.valid_ops [Enter (''r'', ''u'') (0 :: addr), Enter (''r'', ''u'') 1, Leave (''r'', ''u'') 0]"
    by simp
  from rooms_refine_registry [OF this] show ?thesis by (simp del: room.run.simps)
qed

theorem replaced_member_stays_witness:
  "member (rooms_ending ''r'' ''u'' 0 (rooms_clientIn ''r'' ''u'' 1 NewRoomManager)) (''r'', ''u'') = Some 1"
  by (rule replaced_member_stays) simp_all

theorem room_change_keeps_old_membership_witness:
  "let w = init_world\<lparr>w_heap := [sample_client ''u'' 7]\<rparr>;
       w2 = RoomManager_clientIn 0 ''b'' (RoomManager_clientIn 0 ''a'' w);
       w3 = RoomManager_ending (c_roomId (deref w2 0)) 0 w2
   in member (w_rooms w3) (''a'', ''u'') = Some 0"
  using room_change_keeps_old_membership [of "init_world\<lparr>w_heap := [sample_client ''u'' 7]\<rparr>" 0 "''a''" "''b''"]
  by (simp add: Let_def init_world_def sample_client_def deref_def rooms_ok_def del: RoomManager_clientIn_frame)

end
