(* ===== verification/Clients.thy ===== *)
theory Clients
  imports Rooms
begin

text \<open>
  \<^verbatim>\<open>client.go\<close> without the outbound loop (see \<open>Client_Pump\<close>): creating a client for a
  connection, registering it with the client manager, refreshing its token, its session
  timer, its heart beats, closing and ending it.

  Times are arguments: \<open>nanos\<close> is \<^verbatim>\<open>time.Now().UnixNano()\<close>, \<open>secs\<close> is
  \<^verbatim>\<open>time.Now().Unix()\<close>. Goroutines the code starts are added to \<open>w_tasks\<close>; running one
  is an operation of its own (\<open>Client_expire\<close>, \<open>Client_ending\<close>), to be interleaved freely.
\<close>

section \<open>Creation, lookup, closing\<close>

definition millis :: "int \<Rightarrow> int" where
  "millis nanos = nanos sdiv 1000000"

definition new_client :: "string \<Rightarrow> conn \<Rightarrow> int \<Rightarrow> client" where
  "new_client i s nanos = \<lparr>c_ID = i, c_roomId = '''', c_level = 0, c_msc = s, c_queue = [],
     c_expireTimer = None, c_heartBeatTime = millis nanos, c_q = False, c_version = 0\<rparr>"

definition add_LoginUsers :: "32 word \<Rightarrow> world \<Rightarrow> world" where
  "add_LoginUsers d w = w\<lparr>w_info := (w_info w)\<lparr>info_LoginUsers := info_LoginUsers (w_info w) + d\<rparr>\<rparr>"

definition createClient :: "string \<Rightarrow> conn \<Rightarrow> int \<Rightarrow> world \<Rightarrow> world \<times> addr" where
  "createClient i msc nanos w =
     (let t = length (w_heap w);
          w = w\<lparr>w_heap := w_heap w @ [new_client i msc nanos]\<rparr>;
          w = add_LoginUsers 1 w;
          w = spawn (Pump t) w
      in (emit (CallSetUserData msc (UD_Client t)) w, t))"

definition Client_Close :: "addr \<Rightarrow> world \<Rightarrow> world" where
  "Client_Close c w = emit (CallStop (c_msc (deref w c))) w"

definition NewClientManager :: "(string, addr) gomap" where
  "NewClientManager = []"

definition ClientManager_Client :: "string \<Rightarrow> world \<Rightarrow> addr option" where
  "ClientManager_Client i w = map_of (w_clients w) i"

definition clients_remove :: "string \<Rightarrow> addr \<Rightarrow> (string, addr) gomap \<Rightarrow> (string, addr) gomap" where
  "clients_remove i c m = (if map_of m i = Some c then AList.delete i m else m)"

definition ClientManager_removeClient :: "addr \<Rightarrow> world \<Rightarrow> world" where
  "ClientManager_removeClient c w =
     w\<lparr>w_clients := clients_remove (c_ID (deref w c)) c (w_clients w)\<rparr>"

definition ClientManager_CloseAll :: "string list \<Rightarrow> world \<Rightarrow> world" where
  "ClientManager_CloseAll order w = range_loop (\<lambda>_ c. Client_Close c) (w_clients w) order w"

section \<open>Registration\<close>

definition ClientManager_clientIn ::
  "token_env \<Rightarrow> int \<Rightarrow> Register \<Rightarrow> conn \<Rightarrow> world \<Rightarrow> world \<times> addr result may_panic" where
  "ClientManager_clientIn env nanos register msc w =
     (case refreshToken0 env (reg_Token register) of
        Inl p \<Rightarrow> (w, Inl p)
      | Inr (claims, Some err0) \<Rightarrow> (w, Inr (Inl err0))
      | Inr (claims, None) \<Rightarrow>
          (let i = reg_UserId register;
               w = (case map_of (w_clients w) i of
                      None \<Rightarrow> w | Some c \<Rightarrow> emit (CallStop (c_msc (deref w c))) w);
               (w, c) = createClient i msc nanos w;
               w = upd_client c (\<lambda>x. x\<lparr>c_version := reg_ClientToConnectorVersion register\<rparr>) w;
               w = w\<lparr>w_clients := AList.update i c (w_clients w)\<rparr>;
               w = spawn (Monitor c) w;
               w = spawn (Expire c (tk_ExpireTime claims)) w
           in (w, Inr (Inr c))))"

definition Client_refreshToken ::
  "token_env \<Rightarrow> string \<Rightarrow> addr \<Rightarrow> world \<Rightarrow> world \<times> err option may_panic" where
  "Client_refreshToken env token c w =
     (case refreshToken0 env token of
        Inl p \<Rightarrow> (w, Inl p)
      | Inr (claims, Some err) \<Rightarrow> (w, Inr (Some err))
      | Inr (claims, None) \<Rightarrow> (spawn (Expire c (tk_ExpireTime claims)) w, Inr None))"

section \<open>Session timer and heart beat\<close>

definition Client_expire :: "int \<Rightarrow> addr \<Rightarrow> int \<Rightarrow> world \<Rightarrow> world" where
  "Client_expire secs c expireTime w =
     (if expireTime > 0 then
        (let now = secs sdiv 1000000;
             durationInMills = wrap64 (expireTime - now)
         in if durationInMills > 0 then
              (let duration = wrap64 (durationInMills * 1000000);
                   w = (if c_expireTimer (deref w c) = None
                        then upd_client c (\<lambda>x. x\<lparr>c_expireTimer := Some \<lparr>tm_duration = duration, tm_active = True\<rparr>\<rparr>) w
                        else w)
               in upd_client c (\<lambda>x. x\<lparr>c_expireTimer :=
                    map_option (\<lambda>t. t\<lparr>tm_duration := duration, tm_active := True\<rparr>) (c_expireTimer x)\<rparr>) w)
            else w)
      else w)"

text \<open>The timer's function: it runs once, when the timer is running.\<close>

definition Client_session_expired :: "addr \<Rightarrow> world \<Rightarrow> world" where
  "Client_session_expired c w =
     (case c_expireTimer (deref w c) of
        None \<Rightarrow> w
      | Some t \<Rightarrow>
          if tm_active t
          then Client_Close c (upd_client c (\<lambda>x. x\<lparr>c_expireTimer := Some (t\<lparr>tm_active := False\<rparr>)\<rparr>) w)
          else w)"

definition sessionAliveDurationInSeconds :: "int \<Rightarrow> Token \<Rightarrow> int" where
  "sessionAliveDurationInSeconds secs claims =
     (if tk_ExpireTime claims > 0 then wrap64 (tk_ExpireTime claims - secs sdiv 1000000) else - 1)"

definition Client_heartBeat :: "int \<Rightarrow> addr \<Rightarrow> world \<Rightarrow> world" where
  "Client_heartBeat nanos c w = upd_client c (\<lambda>x. x\<lparr>c_heartBeatTime := millis nanos\<rparr>) w"

text \<open>\<^verbatim>\<open>heartBeat2\<close> additionally decides whether to log the client as late.\<close>

definition Client_heartBeat2 :: "int \<Rightarrow> int \<Rightarrow> addr \<Rightarrow> world \<Rightarrow> world \<times> bool" where
  "Client_heartBeat2 nanos timeTag c w =
     (let now = millis nanos
      in (upd_client c (\<lambda>x. x\<lparr>c_heartBeatTime := now\<rparr>) w, wrap64 (now - timeTag) > 3000))"

section \<open>Ending\<close>

text \<open>
  \<^verbatim>\<open>ending\<close> runs when the monitor sees the connection stopped; \<open>panicked\<close> tells whether
  the monitor was unwinding a panic. The monitor goroutine finishes with it.
\<close>

definition stop_timer :: "client \<Rightarrow> client" where
  "stop_timer x = x\<lparr>c_expireTimer := map_option (\<lambda>t. t\<lparr>tm_active := False\<rparr>) (c_expireTimer x)\<rparr>"

definition Client_ending :: "bool \<Rightarrow> addr \<Rightarrow> world \<Rightarrow> world" where
  "Client_ending panicked c w =
     (let w = (if panicked then Client_Close c w else w);
          w = emit (CallSetUserData (c_msc (deref w c)) UD_nil) w;
          w = RoomManager_ending (c_roomId (deref w c)) c w;
          w = ClientManager_removeClient c w;
          w = upd_client c (\<lambda>x. x\<lparr>c_q := True\<rparr>) w;
          w = upd_client c stop_timer w
      in add_LoginUsers (- 1) w)"

definition Client_monitor_done :: "addr \<Rightarrow> world \<Rightarrow> world" where
  "Client_monitor_done c w =
     (let w = Client_ending False c w in w\<lparr>w_tasks := remove1 (Monitor c) (w_tasks w)\<rparr>)"

section \<open>Delivery to one client\<close>

text \<open>\<^verbatim>\<open>ServerHello\<close>, with a receiver that may be nil.\<close>

definition Client_ServerHello :: "addr option \<Rightarrow> maddr \<Rightarrow> world \<Rightarrow> world" where
  "Client_ServerHello c hello w =
     (case c of None \<Rightarrow> w | Some a \<Rightarrow> upd_client a (\<lambda>x. x\<lparr>c_queue := c_queue x @ [hello]\<rparr>) w)"

section \<open>Frame lemmas\<close>

lemma add_LoginUsers_frame [simp]:
  "w_heap (add_LoginUsers d w) = w_heap w"
  "w_msgs (add_LoginUsers d w) = w_msgs w"
  "w_clients (add_LoginUsers d w) = w_clients w"
  "w_rooms (add_LoginUsers d w) = w_rooms w"
  "w_group (add_LoginUsers d w) = w_group w"
  "w_chatMessageCounter (add_LoginUsers d w) = w_chatMessageCounter w"
  "w_packedMessageCounter (add_LoginUsers d w) = w_packedMessageCounter w"
  "w_calls (add_LoginUsers d w) = w_calls w"
  "w_tasks (add_LoginUsers d w) = w_tasks w"
  "deref (add_LoginUsers d w) a = deref w a"
  "info_LoginUsers (w_info (add_LoginUsers d w)) = info_LoginUsers (w_info w) + d"
  by (simp_all add: add_LoginUsers_def)

lemma removeClient_frame [simp]:
  "w_heap (ClientManager_removeClient c w) = w_heap w"
  "w_msgs (ClientManager_removeClient c w) = w_msgs w"
  "w_clients (ClientManager_removeClient c w) = clients_remove (c_ID (deref w c)) c (w_clients w)"
  "w_rooms (ClientManager_removeClient c w) = w_rooms w"
  "w_group (ClientManager_removeClient c w) = w_group w"
  "w_chatMessageCounter (ClientManager_removeClient c w) = w_chatMessageCounter w"
  "w_packedMessageCounter (ClientManager_removeClient c w) = w_packedMessageCounter w"
  "w_info (ClientManager_removeClient c w) = w_info w"
  "w_calls (ClientManager_removeClient c w) = w_calls w"
  "w_tasks (ClientManager_removeClient c w) = w_tasks w"
  "deref (ClientManager_removeClient c w) a = deref w a"
  by (simp_all add: ClientManager_removeClient_def)

lemma stop_timer_fields [simp]:
  "c_ID (stop_timer x) = c_ID x" "c_roomId (stop_timer x) = c_roomId x" "c_msc (stop_timer x) = c_msc x"
  "c_q (stop_timer x) = c_q x" "c_queue (stop_timer x) = c_queue x" "c_version (stop_timer x) = c_version x"
  "c_level (stop_timer x) = c_level x" "c_heartBeatTime (stop_timer x) = c_heartBeatTime x"
  by (simp_all add: stop_timer_def)

section \<open>The client registry\<close>

lemma lookup_clients_remove:
  "map_of (clients_remove i c m) k = (if k = i \<and> map_of m i = Some c then None else map_of m k)"
  by (simp add: clients_remove_def gomap_simps)

lemma gomap_ok_clients_remove: "gomap_ok m \<Longrightarrow> gomap_ok (clients_remove i c m)"
  by (simp add: clients_remove_def)

interpretation reg: owner_registry map_of AList.update clients_remove "\<lambda>_. True" gomap_ok
  by unfold_locales (auto simp: gomap_simps lookup_clients_remove gomap_ok_clients_remove)

section \<open>Registered clients\<close>

definition registered :: "world \<Rightarrow> addr \<Rightarrow> bool" where
  "registered w c \<longleftrightarrow> map_of (w_clients w) (c_ID (deref w c)) = Some c"

text \<open>The registry maps user ids to objects that carry that id.\<close>

definition clients_ok :: "world \<Rightarrow> bool" where
  "clients_ok w \<longleftrightarrow>
     gomap_ok (w_clients w) \<and>
     (\<forall>i c. map_of (w_clients w) i = Some c \<longrightarrow> c < length (w_heap w) \<and> c_ID (deref w c) = i)"

lemma clients_okD:
  assumes "clients_ok w" and "map_of (w_clients w) i = Some c"
  shows "c < length (w_heap w)" and "c_ID (deref w c) = i" and "registered w c"
  using assms by (auto simp: clients_ok_def registered_def)

section \<open>What the operations change\<close>

lemma deref_append [simp]:
  "deref (w\<lparr>w_heap := w_heap w @ [x]\<rparr>) a =
     (if a = length (w_heap w) then x else if a < length (w_heap w) then deref w a
      else (w_heap w @ [x]) ! a)"
  by (simp add: deref_def nth_append)

lemma Client_Close_frame [simp]:
  "w_heap (Client_Close c w) = w_heap w" "w_msgs (Client_Close c w) = w_msgs w"
  "w_clients (Client_Close c w) = w_clients w" "w_rooms (Client_Close c w) = w_rooms w"
  "w_group (Client_Close c w) = w_group w" "w_info (Client_Close c w) = w_info w"
  "w_chatMessageCounter (Client_Close c w) = w_chatMessageCounter w"
  "w_packedMessageCounter (Client_Close c w) = w_packedMessageCounter w"
  "w_tasks (Client_Close c w) = w_tasks w" "deref (Client_Close c w) a = deref w a"
  "w_calls (Client_Close c w) = w_calls w @ [CallStop (c_msc (deref w c))]"
  by (simp_all add: Client_Close_def)

lemma Client_ending_effects [simp]:
  "w_msgs (Client_ending p c w) = w_msgs w" "w_group (Client_ending p c w) = w_group w"
  "w_tasks (Client_ending p c w) = w_tasks w"
  "w_chatMessageCounter (Client_ending p c w) = w_chatMessageCounter w"
  "w_packedMessageCounter (Client_ending p c w) = w_packedMessageCounter w"
  "length (w_heap (Client_ending p c w)) = length (w_heap w)"
  "w_clients (Client_ending p c w) = clients_remove (c_ID (deref w c)) c (w_clients w)"
  "w_rooms (Client_ending p c w) = rooms_ending (c_roomId (deref w c)) (c_ID (deref w c)) c (w_rooms w)"
  "w_calls (Client_ending p c w) = w_calls w @ (if p then [CallStop (c_msc (deref w c))] else []) @
     [CallSetUserData (c_msc (deref w c)) UD_nil]"
  "info_LoginUsers (w_info (Client_ending p c w)) = info_LoginUsers (w_info w) - 1"
  "deref (Client_ending p c w) a =
     (if a = c \<and> c < length (w_heap w) then stop_timer ((deref w c)\<lparr>c_q := True\<rparr>) else deref w a)"
  by (simp_all add: Client_ending_def Let_def)

lemma clientIn_accepted:
  assumes "refreshToken0 env (reg_Token r) = Inr (claims, None)"
    and "ClientManager_clientIn env nanos r s w = (w', res)"
  shows "res = Inr (Inr (length (w_heap w)))"
    and "w_heap w' = w_heap w @ [(new_client (reg_UserId r) s nanos)\<lparr>c_version := reg_ClientToConnectorVersion r\<rparr>]"
    and "w_clients w' = AList.update (reg_UserId r) (length (w_heap w)) (w_clients w)"
    and "w_rooms w' = w_rooms w" and "w_group w' = w_group w" and "w_msgs w' = w_msgs w"
    and "w_tasks w' = w_tasks w @ [Pump (length (w_heap w)), Monitor (length (w_heap w)),
           Expire (length (w_heap w)) (tk_ExpireTime claims)]"
    and "w_calls w' = w_calls w @
           (case map_of (w_clients w) (reg_UserId r) of
              None \<Rightarrow> [] | Some c \<Rightarrow> [CallStop (c_msc (deref w c))]) @
           [CallSetUserData s (UD_Client (length (w_heap w)))]"
    and "info_LoginUsers (w_info w') = info_LoginUsers (w_info w) + 1"
    and "w_chatMessageCounter w' = w_chatMessageCounter w"
  using assms
  by (auto simp: ClientManager_clientIn_def createClient_def Let_def upd_client_def add_LoginUsers_def
      split: option.splits)

section \<open>Correctness\<close>

text \<open>
  A registration whose token is accepted creates a new client object for the connection and
  makes it the registered client of the user id; the session the user had before, if any, is
  told to stop; every other registration stays, the number of logged-in users grows by one, the
  monitor of the new session runs and the connection's user data is the new client. The user id
  that the token was issued for plays no part: a token of one user registers any other.
\<close>

theorem clientIn_takes_over:
  assumes "refreshToken0 env (reg_Token r) = Inr (claims, None)"
    and "ClientManager_clientIn env nanos r s w = (w', res)"
  shows "\<exists>c. res = Inr (Inr c) \<and>
    map_of (w_clients w') = (map_of (w_clients w))(reg_UserId r \<mapsto> c) \<and>
    c_ID (deref w' c) = reg_UserId r \<and> c_msc (deref w' c) = s \<and>
    (case map_of (w_clients w) (reg_UserId r) of
       None \<Rightarrow> True | Some old \<Rightarrow> stopped w' (c_msc (deref w old))) \<and>
    info_LoginUsers (w_info w') = info_LoginUsers (w_info w) + 1 \<and>
    alive w' c \<and> userData w' s = UD_Client c"
  using clientIn_accepted [OF assms]
  by (auto simp: deref_def new_client_def alive_def stopped_def userData_def update_conv'
      split: option.split)

text \<open>
  A registration whose token is rejected, by an error or by a panic of the decoder, changes
  nothing and reports exactly that error or panic.
\<close>

theorem clientIn_rejects:
  "(case refreshToken0 env (reg_Token r) of
      Inl p \<Rightarrow> ClientManager_clientIn env nanos r s w = (w, Inl p)
    | Inr (claims, Some e) \<Rightarrow> ClientManager_clientIn env nanos r s w = (w, Inr (Inl e))
    | Inr (claims, None) \<Rightarrow> \<exists>w' c. ClientManager_clientIn env nanos r s w = (w', Inr (Inr c)))"
  by (auto simp: ClientManager_clientIn_def Let_def split: sum.split option.split prod.split)

text \<open>
  When a session that was taken over ends, the newer session of the same user stays
  registered and every other registration stays too; the ended client is marked finished and
  the number of logged-in users falls by one.
\<close>

theorem superseded_ending_keeps_successor:
  assumes "map_of (w_clients w) (c_ID (deref w c)) = Some c'" and "c \<noteq> c'"
    and "c < length (w_heap w)"
  shows "w_clients (Client_ending p c w) = w_clients w \<and> c_q (deref (Client_ending p c w) c) \<and>
    info_LoginUsers (w_info (Client_ending p c w)) = info_LoginUsers (w_info w) - 1"
  using assms by (simp add: clients_remove_def)

text \<open>
  Over every sequence of registrations and endings, the client registry holds exactly what
  the abstract map with compare-and-delete holds: the client registered last for a user id,
  unless that very client has ended.
\<close>

theorem clients_refine_registry:
  "map_of (reg.run ops NewClientManager) = reg_spec (\<lambda>_. None) ops \<and>
   gomap_ok (reg.run ops NewClientManager)"
proof -
  have "reg.valid_ops ops" by (simp add: reg.valid_ops_def)
  moreover have "gomap_ok NewClientManager" by (simp add: NewClientManager_def)
  moreover have "map_of NewClientManager = (\<lambda>_. None)" by (simp add: NewClientManager_def)
  ultimately show ?thesis using reg.run_refines reg.inv_run by metis
qed

text \<open>
  \<^verbatim>\<open>CloseAll\<close> asks exactly the connections of the registered clients to stop, once
  each, and changes nothing else.
\<close>

theorem CloseAll_stops_registered:
  assumes "range_order (w_clients w) order"
  shows "ClientManager_CloseAll order w =
      w\<lparr>w_calls := w_calls w @ map (\<lambda>i. CallStop (c_msc (deref w (the (map_of (w_clients w) i))))) order\<rparr> \<and>
    distinct order \<and> set order = keys_of (w_clients w)"
proof -
  have loop: "set us \<subseteq> keys_of m \<Longrightarrow> range_loop (\<lambda>_ c. Client_Close c) m us v =
      v\<lparr>w_calls := w_calls v @ map (\<lambda>i. CallStop (c_msc (deref v (the (map_of m i))))) us\<rparr>" for us m v
    by (induction us arbitrary: v)
      (auto simp: Client_Close_def emit_def keys_of_conv split: option.splits)
  have "set order \<subseteq> keys_of (w_clients w)" using assms by (simp add: range_order_def)
  from loop [OF this, of w] assms show ?thesis
    by (simp add: ClientManager_CloseAll_def range_order_def)
qed

subsection \<open>The session timer\<close>

text \<open>
  The session timer is set to the token's expiry less the current time in units of a million
  seconds, not milliseconds: at any present time the division leaves next to nothing, and a
  token that expired before now (in milliseconds) still arms a timer of almost its whole
  absolute expiry. The multiplication by a million does not overflow for expiries before the
  year 2250.
\<close>

theorem expired_token_arms_timer:
  assumes "0 \<le> secs" and "secs div 1000000 < expireTime" and "expireTime \<le> 9000000000000"
    and "c < length (w_heap w)"
  shows "c_expireTimer (deref (Client_expire secs c expireTime w) c) =
      Some \<lparr>tm_duration = (expireTime - secs div 1000000) * 1000000, tm_active = True\<rparr> \<and>
    0 < (expireTime - secs div 1000000) * 1000000"
proof -
  let ?d = "expireTime - secs div 1000000"
  have "secs sdiv 1000000 = secs div 1000000" using assms(1) by (simp add: sdiv_nonneg)
  moreover have "0 \<le> secs div 1000000" using assms(1) by (simp add: pos_imp_zdiv_nonneg_iff)
  moreover from this assms(2,3) have "0 < ?d" and "?d \<le> 9000000000000" by auto
  moreover from this have "wrap64 ?d = ?d" and "wrap64 (?d * 1000000) = ?d * 1000000"
    by (simp_all add: in_int64_def)
  ultimately show ?thesis
    using assms(4) by (auto simp: Client_expire_def Let_def)
qed

text \<open>
  A token without an expiry (zero or negative) never arms a timer and never touches one, and
  neither does an expiry that is not after the coarse current time.
\<close>

theorem expire_without_deadline:
  assumes "expireTime \<le> 0 \<or> wrap64 (expireTime - secs sdiv 1000000) \<le> 0"
  shows "Client_expire secs c expireTime w = w"
  using assms by (auto simp: Client_expire_def Let_def)

section \<open>Witnesses\<close>

definition accept_env :: token_env where
  "accept_env = \<lparr>te_PemFile = '''', te_GetPublickey = None, te_PubKeyDECRYPT = (\<lambda>_. Inl ErrKey),
     te_spare = []\<rparr>"

definition two_sessions :: world where
  "two_sessions = init_world\<lparr>w_heap := [sample_client ''u'' 7, sample_client ''u'' 8],
     w_clients := [(''u'', 1)]\<rparr>"

theorem clientIn_takes_over_witness:
  "\<exists>w' c. ClientManager_clientIn accept_env 0 sample_Register 9 two_sessions = (w', Inr (Inr c)) \<and>
     map_of (w_clients w') ''u'' = Some c \<and> stopped w' 8"
proof -
  have t: "refreshToken0 accept_env (reg_Token sample_Register) = Inr (zero_Token\<lparr>tk_ExpireTime := - 1\<rparr>, None)"
    by (simp add: refreshToken0_def accept_env_def)
  obtain w' res where "ClientManager_clientIn accept_env 0 sample_Register 9 two_sessions = (w', res)"
    by fastforce
  from clientIn_takes_over [OF t this] this show ?thesis
    by (auto simp: two_sessions_def init_world_def sample_Register_def deref_def sample_client_def)
qed

theorem superseded_ending_keeps_successor_witness:
  "w_clients (Client_ending False 0 two_sessions) = [(''u'', 1)]"
  using superseded_ending_keeps_successor [of two_sessions 0 1 False]
  by (simp add: two_sessions_def deref_def sample_client_def)

theorem CloseAll_stops_registered_witness:
  "w_calls (ClientManager_CloseAll [''u''] two_sessions) = [CallStop 8]"
  using CloseAll_stops_registered [of two_sessions "[''u'']"]
  by (simp add: two_sessions_def init_world_def range_order_def keys_of_def deref_def sample_client_def)

theorem expired_token_arms_timer_witness:
  "let expired_ms = 1500000000000; now_s = 1700000000
   in expired_ms < now_s * 1000 \<and>
      (\<exists>t. c_expireTimer (deref (Client_expire now_s 0 expired_ms two_sessions) 0) = Some t \<and>
           tm_active t \<and> 0 < tm_duration t)"
  using expired_token_arms_timer [of 1700000000 1500000000000 0 two_sessions]
  by (simp add: two_sessions_def)

theorem expire_without_deadline_witness:
  "Client_expire 1700000000 0 (- 1) two_sessions = two_sessions"
  by (rule expire_without_deadline) simp

end
