(* ===== verification/Subscriber.thy ===== *)
theory Subscriber
  imports Clients
begin

text \<open>
  \<^verbatim>\<open>subscribe.go\<close>: messages from the router, received over a publish/subscribe channel, are
  put into the outbound queues of the clients they are addressed to. The body of a message is
  allocated once and shared by every queue it enters.

  The order in which the run time visits a map is an argument (\<open>roomOrder\<close>, \<open>worldOrder\<close>,
  \<open>order\<close>).
\<close>

section \<open>Operations\<close>

definition convert :: "FromRouterMessage \<Rightarrow> ToClientMessage" where
  "convert m = \<lparr>tc_MessageId = fr_MessageId m, tc_ToUserId = fr_ToUserId m, tc_ToRoomId = fr_ToRoomId m,
     tc_Params = fr_Params m, tc_Time = fr_Time m, tc_TimeText = fr_TimeText m,
     tc_UserId = fr_ToUserId m, tc_RoomId = fr_ToRoomId m,
     tc_Content = fst (strmap_get (fr_Params m) ''content''), tc_Importance = 0,
     tc_serializedBytes = None\<rparr>"

text \<open>\<^verbatim>\<open>&toClientMessage\<close>: the message gets an address.\<close>

definition alloc_msg :: "ToClientMessage \<Rightarrow> world \<Rightarrow> world \<times> maddr" where
  "alloc_msg m w = (w\<lparr>w_msgs := w_msgs w @ [m]\<rparr>, length (w_msgs w))"

definition deliverToSingleClient :: "string \<Rightarrow> maddr \<Rightarrow> world \<Rightarrow> world" where
  "deliverToSingleClient userId m w =
     (case ClientManager_Client userId w of
        None \<Rightarrow> w
      | Some c \<Rightarrow> Client_ServerHello (Some c) m w)"

definition deliverToUser :: "FromRouterMessage \<Rightarrow> world \<Rightarrow> world" where
  "deliverToUser fr w =
     (let (w, m) = alloc_msg (convert fr) w in deliverToSingleClient (fr_ToUserId fr) m w)"

definition roomOwnerIdResolver :: "string \<Rightarrow> string" where
  "roomOwnerIdResolver roomId = roomId"

text \<open>The users of a room in the order of delivery: the room's owner first, if present.\<close>

definition room_userIds :: "string list \<Rightarrow> string \<Rightarrow> (string, addr) gomap \<Rightarrow> string list" where
  "room_userIds order roomId userIdToClientMap =
     (let roomOwnerId = roomOwnerIdResolver roomId
      in (if map_of userIdToClientMap roomOwnerId \<noteq> None then [roomOwnerId] else []) @
         filter (\<lambda>userId. userId \<noteq> roomOwnerId) order)"

definition deliverToRoom :: "string list \<Rightarrow> FromRouterMessage \<Rightarrow> world \<Rightarrow> world" where
  "deliverToRoom order fr w =
     (case map_of (w_rooms w) (fr_ToRoomId fr) of
        None \<Rightarrow> w
      | Some userIdToClientMap \<Rightarrow>
          (let userIds = room_userIds order (fr_ToRoomId fr) userIdToClientMap;
               (w, m) = alloc_msg (convert fr) w
           in fold (\<lambda>userId. deliverToSingleClient userId m) userIds w))"

definition deliverToWorld :: "string list \<Rightarrow> FromRouterMessage \<Rightarrow> world \<Rightarrow> world" where
  "deliverToWorld order fr w =
     (let (w, m) = alloc_msg (convert fr) w
      in range_loop (\<lambda>_ c. Client_ServerHello (Some c) m) (w_clients w) order w)"

definition handleSubscription ::
  "string list \<Rightarrow> string list \<Rightarrow> string \<Rightarrow> world \<Rightarrow> world" where
  "handleSubscription roomOrder worldOrder payload w =
     (let (fr, _) = FromRouterMessage_Unmarshal (string_bytes payload) zero_FromRouterMessage;
          w = (if fr_ToUserId fr \<noteq> '''' then deliverToUser fr w else w)
      in if fr_ToRoomId fr = ''world'' then deliverToWorld worldOrder fr w
         else if fr_ToRoomId fr \<noteq> '''' then deliverToRoom roomOrder fr w
         else w)"

text \<open>
  One turn of the receive loop of \<^verbatim>\<open>subscribe\<close>: an error or a channel name and a payload.
\<close>

definition subscribe_turn ::
  "string list \<Rightarrow> string list \<Rightarrow> (string \<times> string) result \<Rightarrow> world \<Rightarrow> world" where
  "subscribe_turn roomOrder worldOrder received w =
     (case received of
        Inl err \<Rightarrow> w
      | Inr (channel, payload) \<Rightarrow>
          if channel = ''router'' \<or> channel = ''mychannel''
          then handleSubscription roomOrder worldOrder payload w else w)"

text \<open>\<^verbatim>\<open>stat\<close>: the messages waiting in all registered clients' queues, as an \<^verbatim>\<open>int32\<close>.\<close>

definition stat_body :: "world \<Rightarrow> string \<Rightarrow> addr \<Rightarrow> int \<Rightarrow> int" where
  "stat_body w i c outQueue = wrap32 (outQueue + wrap32 (int (length (c_queue (deref w c)))))"

definition subscriber_stat :: "string list \<Rightarrow> world \<Rightarrow> int" where
  "subscriber_stat order w = range_loop (stat_body w) (w_clients w) order 0"

section \<open>Queues after a delivery\<close>

abbreviation queue_at :: "world \<Rightarrow> addr \<Rightarrow> maddr list" where
  "queue_at w a \<equiv> c_queue (deref w a)"

text \<open>What every delivery leaves alone: everything but queues and message bodies.\<close>

definition same_but_queues :: "world \<Rightarrow> world \<Rightarrow> bool" where
  "same_but_queues w w' \<longleftrightarrow>
     w_clients w' = w_clients w \<and> w_rooms w' = w_rooms w \<and> w_group w' = w_group w \<and>
     w_calls w' = w_calls w \<and> w_tasks w' = w_tasks w \<and> w_info w' = w_info w \<and>
     w_chatMessageCounter w' = w_chatMessageCounter w \<and>
     w_packedMessageCounter w' = w_packedMessageCounter w \<and>
     length (w_heap w') = length (w_heap w) \<and>
     (\<forall>a. \<exists>q. deref w' a = (deref w a)\<lparr>c_queue := q\<rparr>)"

lemma same_but_queues_refl [simp]: "same_but_queues w w"
proof -
  have "\<exists>q. deref w a = (deref w a)\<lparr>c_queue := q\<rparr>" for a
    by (rule exI [of _ "c_queue (deref w a)"]) simp
  then show ?thesis by (simp add: same_but_queues_def)
qed

lemma same_but_queues_trans:
  assumes "same_but_queues w1 w2" and "same_but_queues w2 w3"
  shows "same_but_queues w1 w3"
proof -
  have "\<exists>q. deref w3 a = (deref w1 a)\<lparr>c_queue := q\<rparr>" for a
    using assms unfolding same_but_queues_def by (metis client.surjective client.update_convs(5))
  with assms show ?thesis by (simp add: same_but_queues_def)
qed

lemma ServerHello_same: "same_but_queues w (Client_ServerHello c m w)"
proof -
  have "\<exists>q. deref w b = (deref w b)\<lparr>c_queue := q\<rparr>" for b
    by (rule exI [of _ "c_queue (deref w b)"]) simp
  then show ?thesis
    by (cases c) (auto simp: same_but_queues_def Client_ServerHello_def)
qed

lemma ServerHello_queue:
  "a < length (w_heap w) \<Longrightarrow>
   queue_at (Client_ServerHello (Some a) m w) b = queue_at w b @ (if b = a then [m] else [])"
  by (simp add: Client_ServerHello_def)

lemma alloc_msg_same: "alloc_msg m w = (w', a) \<Longrightarrow> same_but_queues w w'"
proof -
  have "\<exists>q. deref w b = (deref w b)\<lparr>c_queue := q\<rparr>" for b
    by (rule exI [of _ "c_queue (deref w b)"]) simp
  moreover assume "alloc_msg m w = (w', a)"
  ultimately show ?thesis
    by (auto simp: alloc_msg_def same_but_queues_def)
qed

lemma single_same: "same_but_queues w (deliverToSingleClient u m w)"
  by (simp add: deliverToSingleClient_def ServerHello_same split: option.split)

lemma fold_single_same: "same_but_queues w (fold (\<lambda>u. deliverToSingleClient u m) us w)"
proof (induction us arbitrary: w)
  case (Cons u us)
  then show ?case using same_but_queues_trans single_same by fastforce
qed simp

lemma same_but_queuesD:
  assumes "same_but_queues w w'"
  shows "w_clients w' = w_clients w" and "length (w_heap w') = length (w_heap w)"
    and "c_ID (deref w' a) = c_ID (deref w a)"
proof -
  from assms obtain q where "deref w' a = (deref w a)\<lparr>c_queue := q\<rparr>"
    unfolding same_but_queues_def by blast
  then show "c_ID (deref w' a) = c_ID (deref w a)" by simp
qed (use assms in \<open>simp_all add: same_but_queues_def\<close>)

lemma clients_ok_same: "same_but_queues w w' \<Longrightarrow> clients_ok w \<Longrightarrow> clients_ok w'"
  by (simp add: clients_ok_def same_but_queuesD)

lemma registered_same: "same_but_queues w w' \<Longrightarrow> registered w' a = registered w a"
  by (simp add: registered_def same_but_queuesD)

text \<open>A delivery to a list of distinct users reaches each registered one of them once.\<close>

lemma single_queue:
  assumes "clients_ok w"
  shows "queue_at (deliverToSingleClient u m w) a =
    queue_at w a @ (if registered w a \<and> c_ID (deref w a) = u then [m] else [])"
proof (cases "map_of (w_clients w) u")
  case None
  then show ?thesis
    by (auto simp: deliverToSingleClient_def ClientManager_Client_def registered_def)
next
  case (Some c)
  note c = clients_okD [OF assms Some]
  have "registered w a \<and> c_ID (deref w a) = u \<longleftrightarrow> a = c"
    using c Some by (auto simp: registered_def)
  with c(1) Some show ?thesis
    by (simp add: deliverToSingleClient_def ClientManager_Client_def ServerHello_queue)
qed

lemma fold_single_queue:
  "clients_ok w \<Longrightarrow> distinct us \<Longrightarrow>
   queue_at (fold (\<lambda>u. deliverToSingleClient u m) us w) a =
     queue_at w a @ (if registered w a \<and> c_ID (deref w a) \<in> set us then [m] else [])"
proof (induction us arbitrary: w)
  case Nil
  then show ?case by simp
next
  case (Cons u us)
  let ?w1 = "deliverToSingleClient u m w"
  have same: "same_but_queues w ?w1" by (rule single_same)
  have "queue_at (fold (\<lambda>u. deliverToSingleClient u m) us ?w1) a =
      queue_at ?w1 a @ (if registered ?w1 a \<and> c_ID (deref ?w1 a) \<in> set us then [m] else [])"
    using Cons clients_ok_same [OF same] by simp
  then show ?case
    using Cons.prems single_queue [of w u m a]
    by (auto simp: registered_same [OF same] same_but_queuesD [OF same])
qed

lemma world_loop_fold:
  "w_clients w = cs \<Longrightarrow>
   range_loop (\<lambda>_ c. Client_ServerHello (Some c) m) cs order w =
     fold (\<lambda>u. deliverToSingleClient u m) order w"
proof (induction order arbitrary: w)
  case Nil
  then show ?case by simp
next
  case (Cons u us)
  have "(case map_of cs u of None \<Rightarrow> w | Some c \<Rightarrow> Client_ServerHello (Some c) m w) =
      deliverToSingleClient u m w"
    using Cons.prems by (simp add: deliverToSingleClient_def ClientManager_Client_def)
  with Cons same_but_queuesD(1) [OF single_same] show ?case by simp
qed

lemma clients_ok_alloc [simp]: "clients_ok (w\<lparr>w_msgs := ms\<rparr>) = clients_ok w"
  by (simp add: clients_ok_def)

lemma registered_alloc [simp]: "registered (w\<lparr>w_msgs := ms\<rparr>) a = registered w a"
  by (simp add: registered_def)

lemma distinct_room_userIds:
  "distinct order \<Longrightarrow> distinct (room_userIds order r m)"
  by (simp add: room_userIds_def Let_def)

lemma set_room_userIds:
  assumes "range_order m order"
  shows "set (room_userIds order r m) = keys_of m"
proof -
  have "set (room_userIds order r m) =
      (if map_of m r \<noteq> None then {r} else {}) \<union> {u \<in> keys_of m. u \<noteq> r}"
    using assms by (simp add: room_userIds_def roomOwnerIdResolver_def range_order_def Let_def)
  then show ?thesis by (auto simp: keys_of_conv)
qed

lemma owner_first: "map_of m r \<noteq> None \<Longrightarrow> hd (room_userIds order r m) = r"
  by (simp add: room_userIds_def roomOwnerIdResolver_def)

section \<open>Correctness\<close>

text \<open>
  A room message reaches exactly the registered clients whose user id is in the room's map,
  each of them once and at the end of its queue, in whatever order the map is visited; the
  room's owner is served first. Nothing else of the state changes.
\<close>

theorem deliverToRoom_exactly_once:
  assumes "clients_ok w" and "map_of (w_rooms w) (fr_ToRoomId fr) = Some users"
    and "range_order users order"
  shows "queue_at (deliverToRoom order fr w) a =
      queue_at w a @ (if registered w a \<and> c_ID (deref w a) \<in> keys_of users
                      then [length (w_msgs w)] else []) \<and>
    w_msgs (deliverToRoom order fr w) = w_msgs w @ [convert fr] \<and>
    same_but_queues w (deliverToRoom order fr w) \<and>
    (map_of users (fr_ToRoomId fr) = None \<or>
     hd (room_userIds order (fr_ToRoomId fr) users) = fr_ToRoomId fr)"
proof -
  let ?us = "room_userIds order (fr_ToRoomId fr) users"
  let ?w1 = "w\<lparr>w_msgs := w_msgs w @ [convert fr]\<rparr>"
  have d: "deliverToRoom order fr w =
      fold (\<lambda>u. deliverToSingleClient u (length (w_msgs w))) ?us ?w1"
    using assms(2) by (simp add: deliverToRoom_def alloc_msg_def Let_def)
  have same: "same_but_queues w ?w1" by (rule alloc_msg_same) (simp add: alloc_msg_def)
  have msgs: "w_msgs (fold (\<lambda>u. deliverToSingleClient u m) us v) = w_msgs v" for m us v
    by (induction us arbitrary: v)
      (auto simp: deliverToSingleClient_def Client_ServerHello_def split: option.split)
  have "queue_at (deliverToRoom order fr w) a = queue_at w a @
      (if registered w a \<and> c_ID (deref w a) \<in> set ?us then [length (w_msgs w)] else [])"
    using assms distinct_room_userIds [OF range_orderD(1), OF assms(3)]
    by (simp add: d fold_single_queue)
  moreover have "same_but_queues w (deliverToRoom order fr w)"
    unfolding d using same fold_single_same by (rule same_but_queues_trans)
  moreover have "w_msgs (deliverToRoom order fr w) = w_msgs w @ [convert fr]"
    by (simp add: d msgs)
  ultimately show ?thesis
    using owner_first [of users "fr_ToRoomId fr" order]
    by (cases "map_of users (fr_ToRoomId fr)") (simp_all add: set_room_userIds [OF assms(3)])
qed

text \<open>
  A message to the world reaches every registered client exactly once, and nobody else.
\<close>

theorem deliverToWorld_exactly_once:
  assumes "clients_ok w" and "range_order (w_clients w) order"
  shows "queue_at (deliverToWorld order fr w) a =
      queue_at w a @ (if registered w a then [length (w_msgs w)] else []) \<and>
    same_but_queues w (deliverToWorld order fr w)"
proof -
  let ?w1 = "w\<lparr>w_msgs := w_msgs w @ [convert fr]\<rparr>"
  have d: "deliverToWorld order fr w =
      fold (\<lambda>u. deliverToSingleClient u (length (w_msgs w))) order ?w1"
    by (simp add: deliverToWorld_def alloc_msg_def Let_def world_loop_fold)
  have same: "same_but_queues w ?w1" by (rule alloc_msg_same) (simp add: alloc_msg_def)
  have "registered w a \<Longrightarrow> c_ID (deref w a) \<in> set order"
    using range_orderD(2) [OF assms(2)] by (auto simp: registered_def)
  then have "queue_at (deliverToWorld order fr w) a =
      queue_at w a @ (if registered w a then [length (w_msgs w)] else [])"
    using assms range_orderD(1) [OF assms(2)] by (auto simp: d fold_single_queue)
  moreover have "same_but_queues w (deliverToWorld order fr w)"
    unfolding d using same fold_single_same by (rule same_but_queues_trans)
  ultimately show ?thesis by simp
qed

lemma stat_body_eq: "stat_body w i c t = wrap32 (t + int (length (queue_at w c)))"
  by (simp add: stat_body_def wrap_add_simps)

interpretation stat: commuting_body "stat_body w" for w
  by unfold_locales (simp add: stat_body_eq wrap_add_simps algebra_simps)

lemma stat_sum:
  "gomap_ok m \<Longrightarrow>
   range_loop (stat_body w) m (map fst m) t = wrap32 (t + (\<Sum>(i, c) \<leftarrow> m. int (length (queue_at w c))))
     \<or> m = []"
proof (induction m arbitrary: t)
  case Nil
  then show ?case by simp
next
  case (Cons e m)
  obtain i c where e: "e = (i, c)" by fastforce
  have i: "i \<notin> fst ` set m" and ok: "gomap_ok m" using Cons.prems e by (auto simp: gomap_ok_def)
  have "range_loop (stat_body w) (e # m) (map fst m) s = range_loop (stat_body w) m (map fst m) s" for s
    unfolding range_loop_def using i e
    by (intro fold_cong) (auto split: option.split)
  with Cons.IH [OF ok, of "stat_body w i c t"] e show ?case
    by (auto simp: stat_body_eq [of w i c t] wrap_add_simps algebra_simps)
qed

text \<open>
  The outbound backlog reported to the naming service is the sum of the queue lengths of all
  registered clients modulo $2^{32}$ (read as signed), and does not depend on the order in which
  the clients are visited.
\<close>

theorem stat_is_total_backlog:
  assumes "gomap_ok (w_clients w)" and "range_order (w_clients w) order"
  shows "subscriber_stat order w =
    wrap32 (\<Sum>(i, c) \<leftarrow> w_clients w. int (length (queue_at w c)))"
proof -
  have "subscriber_stat order w = range_loop (stat_body w) (w_clients w) (map fst (w_clients w)) 0"
    unfolding subscriber_stat_def
    using assms(2) range_order_map_fst [OF assms(1)] by (rule stat.order_irrelevant)
  also have "\<dots> = wrap32 (\<Sum>(i, c) \<leftarrow> w_clients w. int (length (queue_at w c)))"
    using stat_sum [OF assms(1), of w 0] by (auto simp: wrap32_def)
  finally show ?thesis .
qed

text \<open>How many copies of a router message a client gets.\<close>

definition in_room :: "world \<Rightarrow> string \<Rightarrow> string \<Rightarrow> bool" where
  "in_room w r i =
     (case map_of (w_rooms w) r of None \<Rightarrow> False | Some users \<Rightarrow> i \<in> keys_of users)"

definition copies :: "world \<Rightarrow> FromRouterMessage \<Rightarrow> addr \<Rightarrow> nat" where
  "copies w fr a =
     (if registered w a
      then (if fr_ToUserId fr \<noteq> '''' \<and> c_ID (deref w a) = fr_ToUserId fr then 1 else 0) +
           (if fr_ToRoomId fr = ''world'' then 1
            else if fr_ToRoomId fr \<noteq> '''' \<and> in_room w (fr_ToRoomId fr) (c_ID (deref w a))
            then 1 else 0)
      else 0)"

text \<open>
  A delivery of a router message to the client \<open>a\<close>: nothing but queues changes, the message is allocated some
  number of times, and \<open>n\<close> of the new addresses are put at the end of the client's queue.
\<close>

definition routed :: "FromRouterMessage \<Rightarrow> addr \<Rightarrow> nat \<Rightarrow> world \<Rightarrow> world \<Rightarrow> bool" where
  "routed fr a n w w' \<longleftrightarrow> same_but_queues w w' \<and>
     (\<exists>k new. w_msgs w' = w_msgs w @ replicate k (convert fr) \<and> queue_at w' a = queue_at w a @ new \<and>
        length new = n \<and> set new \<subseteq> {length (w_msgs w)..<length (w_msgs w')})"

lemma routed_refl [simp]: "routed fr a 0 w w"
  by (simp add: routed_def)

lemma routed_trans:
  assumes "routed fr a n u v" and "routed fr a m v w"
  shows "routed fr a (n + m) u w"
proof -
  from assms obtain j new k new' where
    "w_msgs v = w_msgs u @ replicate j (convert fr)" "queue_at v a = queue_at u a @ new" "length new = n"
    "set new \<subseteq> {length (w_msgs u)..<length (w_msgs v)}"
    "w_msgs w = w_msgs v @ replicate k (convert fr)" "queue_at w a = queue_at v a @ new'" "length new' = m"
    "set new' \<subseteq> {length (w_msgs v)..<length (w_msgs w)}"
    unfolding routed_def by blast
  then have "w_msgs w = w_msgs u @ replicate (j + k) (convert fr)" "queue_at w a = queue_at u a @ (new @ new')"
    "length (new @ new') = n + m" "set (new @ new') \<subseteq> {length (w_msgs u)..<length (w_msgs w)}"
    by (auto simp: replicate_add)
  moreover have "same_but_queues u w" using assms same_but_queues_trans by (auto simp: routed_def)
  ultimately show ?thesis unfolding routed_def by blast
qed

lemma routedI:
  assumes "same_but_queues w w'" and "w_msgs w' = w_msgs w @ [convert fr]"
    and "queue_at w' a = queue_at w a @ (if P then [length (w_msgs w)] else [])"
  shows "routed fr a (if P then 1 else 0) w w'"
proof -
  have "w_msgs w' = w_msgs w @ replicate 1 (convert fr)" using assms(2) by simp
  with assms show ?thesis unfolding routed_def
    by (intro conjI exI [of _ 1] exI [of _ "if P then [length (w_msgs w)] else []"]) auto
qed

lemma single_msgs [simp]: "w_msgs (deliverToSingleClient u m w) = w_msgs w"
  by (simp add: deliverToSingleClient_def Client_ServerHello_def split: option.split)

lemma fold_single_msgs [simp]: "w_msgs (fold (\<lambda>u. deliverToSingleClient u m) us w) = w_msgs w"
  by (induction us arbitrary: w) simp_all

lemma deliverToUser_routed:
  assumes "clients_ok w"
  shows "routed fr a (if registered w a \<and> c_ID (deref w a) = fr_ToUserId fr then 1 else 0) w (deliverToUser fr w)"
proof (rule routedI)
  let ?w1 = "w\<lparr>w_msgs := w_msgs w @ [convert fr]\<rparr>"
  have same: "same_but_queues w ?w1" by (rule alloc_msg_same) (simp add: alloc_msg_def)
  have d: "deliverToUser fr w = deliverToSingleClient (fr_ToUserId fr) (length (w_msgs w)) ?w1"
    by (simp add: deliverToUser_def alloc_msg_def)
  show "same_but_queues w (deliverToUser fr w)"
    unfolding d using same single_same by (rule same_but_queues_trans)
  show "w_msgs (deliverToUser fr w) = w_msgs w @ [convert fr]" by (simp add: d)
qed (use assms in \<open>simp add: deliverToUser_def alloc_msg_def single_queue\<close>)

lemma deliverToRoom_routed:
  assumes "clients_ok w"
    and "\<And>users. map_of (w_rooms w) (fr_ToRoomId fr) = Some users \<Longrightarrow> range_order users order"
  shows "routed fr a (if registered w a \<and> in_room w (fr_ToRoomId fr) (c_ID (deref w a)) then 1 else 0) w
    (deliverToRoom order fr w)"
proof (cases "map_of (w_rooms w) (fr_ToRoomId fr)")
  case None
  then show ?thesis by (simp add: deliverToRoom_def in_room_def)
next
  case (Some users)
  with deliverToRoom_exactly_once [OF assms(1) Some assms(2), of a] show ?thesis
    by (intro routedI) (simp_all add: in_room_def)
qed

lemma deliverToWorld_routed:
  assumes "clients_ok w" and "range_order (w_clients w) order"
  shows "routed fr a (if registered w a then 1 else 0) w (deliverToWorld order fr w)"
  using deliverToWorld_exactly_once [OF assms, of fr a]
  by (intro routedI) (simp_all add: deliverToWorld_def alloc_msg_def Let_def world_loop_fold)

lemma in_room_same: "same_but_queues w w' \<Longrightarrow> in_room w' r i = in_room w r i"
  by (simp add: same_but_queues_def in_room_def)

lemma same_but_queues_rooms: "same_but_queues w w' \<Longrightarrow> w_rooms w' = w_rooms w"
  by (simp add: same_but_queues_def)

lemma handleSubscription_routed:
  assumes "clients_ok w" and "range_order (w_clients w) worldOrder"
    and "\<And>users. map_of (w_rooms w) (fr_ToRoomId fr) = Some users \<Longrightarrow> range_order users roomOrder"
    and "FromRouterMessage_Unmarshal (string_bytes payload) zero_FromRouterMessage = (fr, e)"
  shows "routed fr a (copies w fr a) w (handleSubscription roomOrder worldOrder payload w)"
proof -
  define w1 where "w1 = (if fr_ToUserId fr \<noteq> '''' then deliverToUser fr w else w)"
  let ?w' = "handleSubscription roomOrder worldOrder payload w"
  have w': "?w' = (if fr_ToRoomId fr = ''world'' then deliverToWorld worldOrder fr w1
       else if fr_ToRoomId fr \<noteq> '''' then deliverToRoom roomOrder fr w1 else w1)"
    using assms(4) by (auto simp: handleSubscription_def w1_def)
  have r1: "routed fr a (if fr_ToUserId fr \<noteq> '''' \<and> registered w a \<and> c_ID (deref w a) = fr_ToUserId fr then 1 else 0) w w1"
    using deliverToUser_routed [OF assms(1), of fr a] by (simp add: w1_def)
  then have same: "same_but_queues w w1" by (simp add: routed_def)
  note moved = clients_ok_same [OF same assms(1)] registered_same [OF same]
    same_but_queuesD [OF same] same_but_queues_rooms [OF same] in_room_same [OF same]
  have "routed fr a (if registered w a then if fr_ToRoomId fr = ''world'' then 1
      else if fr_ToRoomId fr \<noteq> '''' \<and> in_room w (fr_ToRoomId fr) (c_ID (deref w a)) then 1 else 0 else 0) w1 ?w'"
    using deliverToWorld_routed [of w1 worldOrder fr a] deliverToRoom_routed [of w1 fr roomOrder a] assms(2,3)
    by (simp add: w' moved split: if_splits)
  from routed_trans [OF r1 this] show ?thesis
    by (rule back_subst [of "\<lambda>n. routed fr a n w ?w'"]) (simp add: copies_def)
qed

lemma routed_bodies:
  assumes "routed fr a n w w'"
  shows "same_but_queues w w' \<and> (\<exists>k. w_msgs w' = w_msgs w @ replicate k (convert fr)) \<and>
    (\<exists>new. queue_at w' a = queue_at w a @ new \<and> set new \<subseteq> {length (w_msgs w)..<length (w_msgs w')} \<and>
       map (\<lambda>m. w_msgs w' ! m) new = replicate n (convert fr))"
proof -
  from assms obtain k new where k: "same_but_queues w w'" "w_msgs w' = w_msgs w @ replicate k (convert fr)"
    "queue_at w' a = queue_at w a @ new" "length new = n" "set new \<subseteq> {length (w_msgs w)..<length (w_msgs w')}"
    unfolding routed_def by blast
  from k(2,5) have "map (\<lambda>m. w_msgs w' ! m) new = map (\<lambda>m. convert fr) new"
    by (intro map_cong refl) (auto simp: nth_append)
  with k(4) have "map (\<lambda>m. w_msgs w' ! m) new = replicate n (convert fr)"
    by (simp add: map_replicate_const)
  with k show ?thesis by blast
qed

text \<open>
  C5: Handling a router payload puts into every client's queue, at its end, exactly as many copies of the
  decoded message as it addresses to it: one for the user destination, one for the room (or world)
  destination, none for clients that are not registered, whatever order the maps are visited
  in. Every element put in is the address of a body that has just been allocated and holds the decoded message as
  \<^verbatim>\<open>convert\<close> makes it; and nothing but queues changes: not the registry, the rooms, the chat queues, the
  connections, the tasks or the counters, no other field of any client, and no message body there was before.
\<close>

theorem handleSubscription_routes:
  assumes "clients_ok w" and "range_order (w_clients w) worldOrder"
    and "\<And>users. map_of (w_rooms w) (fr_ToRoomId fr) = Some users \<Longrightarrow> range_order users roomOrder"
    and "FromRouterMessage_Unmarshal (string_bytes payload) zero_FromRouterMessage = (fr, e)"
    and "handleSubscription roomOrder worldOrder payload w = w'"
  shows "same_but_queues w w' \<and> (\<exists>k. w_msgs w' = w_msgs w @ replicate k (convert fr)) \<and>
    (\<exists>new. queue_at w' a = queue_at w a @ new \<and> set new \<subseteq> {length (w_msgs w)..<length (w_msgs w')} \<and>
       map (\<lambda>m. w_msgs w' ! m) new = replicate (copies w fr a) (convert fr))"
  by (rule routed_bodies [OF handleSubscription_routed [OF assms(1-4), unfolded assms(5)]])

text \<open>
  A well-formed router message in the deprecated format, with a user, a room and a content
  but without the new destinations, is delivered to nobody: handling it leaves the state as it
  was.
\<close>

theorem legacy_message_reaches_nobody:
  assumes "json_parse (string_bytes payload) =
    Some (JObj [(''userId'', JStr u), (''roomId'', JStr r), (''content'', JStr c)])"
  shows "handleSubscription roomOrder worldOrder payload w = w"
  using assms
  by (simp add: handleSubscription_def FromRouterMessage_Unmarshal_def json_Unmarshal_def
      FromRouterMessage_schema_def find_field_def dec_string_def zero_FromRouterMessage_def)

section \<open>Witnesses\<close>

definition sample_world :: world where
  "sample_world = init_world\<lparr>w_heap := [sample_client ''u'' 7, sample_client ''v'' 8],
     w_clients := [(''u'', 0), (''v'', 1)], w_rooms := [(''v'', [(''u'', 0), (''v'', 1)])]\<rparr>"

definition sample_fr :: FromRouterMessage where
  "sample_fr = zero_FromRouterMessage\<lparr>fr_MessageId := ''m'', fr_ToRoomId := ''v''\<rparr>"

lemma sample_world_ok: "clients_ok sample_world"
  by (auto simp: clients_ok_def sample_world_def init_world_def gomap_ok_def deref_def
      sample_client_def split: if_splits)

lemma sample_world_order:
  "range_order (w_clients sample_world) [''v'', ''u'']"
  "range_order [(''u'', 0 :: addr), (''v'', 1)] [''v'', ''u'']"
  by (auto simp: sample_world_def init_world_def range_order_def keys_of_def)

theorem deliverToRoom_exactly_once_witness:
  "queue_at (deliverToRoom [''v'', ''u''] sample_fr sample_world) 0 = [0]"
proof -
  have "map_of (w_rooms sample_world) (fr_ToRoomId sample_fr) = Some [(''u'', 0), (''v'', 1)]"
    by (simp add: sample_world_def sample_fr_def)
  from deliverToRoom_exactly_once [OF sample_world_ok this sample_world_order(2), of 0] show ?thesis
    by (simp add: sample_world_def init_world_def registered_def deref_def sample_client_def keys_of_def)
qed

theorem deliverToWorld_exactly_once_witness:
  "queue_at (deliverToWorld [''v'', ''u''] sample_fr sample_world) 1 = [0]"
  using deliverToWorld_exactly_once [OF sample_world_ok sample_world_order(1), of sample_fr 1]
  by (simp add: sample_world_def init_world_def registered_def deref_def sample_client_def)

theorem stat_is_total_backlog_witness:
  "subscriber_stat [''v'', ''u''] sample_world = 0"
  using stat_is_total_backlog [of sample_world "[''v'', ''u'']"] sample_world_ok sample_world_order(1)
  by (simp add: clients_ok_def sample_world_def init_world_def deref_def sample_client_def wrap32_def)

definition sample_payload :: string where
  \<open>sample_payload = ''{"toUserId":"u","toRoomId":"v"}''\<close>

lemma sample_payload_json:
  "json_parse (string_bytes sample_payload) = Some (JObj [(''toUserId'', JStr ''u''), (''toRoomId'', JStr ''v'')])"
  by code_simp

theorem handleSubscription_routes_witness:
  "\<exists>new. queue_at (handleSubscription [''v'', ''u''] [''v'', ''u''] sample_payload sample_world) 0 = new \<and> length new = 2 \<and>
     same_but_queues sample_world (handleSubscription [''v'', ''u''] [''v'', ''u''] sample_payload sample_world)"
proof -
  let ?fr = "zero_FromRouterMessage\<lparr>fr_ToUserId := ''u'', fr_ToRoomId := ''v''\<rparr>"
  let ?w' = "handleSubscription [''v'', ''u''] [''v'', ''u''] sample_payload sample_world"
  have d: "FromRouterMessage_Unmarshal (string_bytes sample_payload)
      zero_FromRouterMessage = (?fr, None)"
    by (simp add: FromRouterMessage_Unmarshal_def json_Unmarshal_def sample_payload_json
        FromRouterMessage_schema_def find_field_def dec_string_def zero_FromRouterMessage_def)
  have ro: "range_order users [''v'', ''u'']"
    if "map_of (w_rooms sample_world) (fr_ToRoomId ?fr) = Some users" for users
    using that sample_world_order(2) by (simp add: sample_world_def)
  have c: "copies sample_world ?fr 0 = 2"
    by (simp add: copies_def in_room_def sample_world_def init_world_def registered_def deref_def
        sample_client_def keys_of_def)
  have q: "queue_at sample_world 0 = []"
    by (simp add: sample_world_def deref_def sample_client_def)
  from handleSubscription_routes [OF sample_world_ok sample_world_order(1) ro d refl, of 0] c q
  obtain new where new: "same_but_queues sample_world ?w'" "queue_at ?w' 0 = new"
    "map (\<lambda>m. w_msgs ?w' ! m) new = replicate 2 (convert ?fr)" by auto
  then have "length new = 2" using map_eq_imp_length_eq [of "\<lambda>m. w_msgs ?w' ! m" new "\<lambda>m. m" "replicate 2 (convert ?fr)"] by simp
  with new show ?thesis by blast
qed

theorem legacy_message_reaches_nobody_witness:
  "handleSubscription [] [] legacy_text sample_world = sample_world"
  by (rule legacy_message_reaches_nobody [of legacy_text "''u''" "''r''" "''hi''"]) code_simp

end
