(* ===== verification/Client_Pump.thy ===== *)
theory Client_Pump
  imports Clients
begin

text \<open>
  The outbound goroutine of a client: the method \<^verbatim>\<open>a\<close> of \<^verbatim>\<open>client.go\<close>. It takes one
  message at a time from the client's queue, encodes it and hands it to the connection; when
  the queue is empty it waits on the client's condition variable.

  Unlike the rest of the model the goroutine is cut into its critical sections, because what it
  promises depends on what happens between them: the queue is inspected in one critical section
  and the wait begins in another. \<open>a_step\<close> is the goroutine's next atomic action; the relation
  \<open>pump_step\<close> interleaves it with pushes, with other goroutines encoding shared messages, and
  with the end of the session.
\<close>

section \<open>The goroutine\<close>

text \<open>
  Program points: the loop test, before the first critical section, with a message in hand,
  before the second critical section (nothing was found), inside \<^verbatim>\<open>Wait\<close>, returned.
\<close>

datatype pc = LoopTest | Take | Send maddr | Idle | Waiting | Returned

text \<open>\<open>p_pushed\<close> and \<open>p_sent\<close> are history: the messages put into the queue and the messages
  the loop is done with. \<open>p_signal\<close> tells that \<^verbatim>\<open>ending\<close> has set \<^verbatim>\<open>q\<close> and is about to
  signal.\<close>

record pump =
  p_world :: world
  p_pc :: pc
  p_signal :: bool
  p_pushed :: "maddr list"
  p_sent :: "maddr list"

definition a_take :: "addr \<Rightarrow> world \<Rightarrow> world \<times> maddr option" where
  "a_take c w =
     (case c_queue (deref w c) of
        [] \<Rightarrow> (w, None)
      | m # ms \<Rightarrow> (upd_client c (\<lambda>x. x\<lparr>c_queue := ms\<rparr>) w, Some m))"

definition marshal_msg ::
  "(bytes \<Rightarrow> bytes) \<Rightarrow> maddr \<Rightarrow> world \<Rightarrow> world \<times> bytes result" where
  "marshal_msg zlib m w =
     (let (p, r) = ToClientMessage_Marshal zlib (w_msgs w ! m)
      in (w\<lparr>w_msgs := (w_msgs w)[m := p]\<rparr>, r))"

definition a_send ::
  "(bytes \<Rightarrow> bytes) \<Rightarrow> addr \<Rightarrow> maddr \<Rightarrow> world \<Rightarrow> world" where
  "a_send zlib c m w =
     (case marshal_msg zlib m w of
        (w, Inr bytes) \<Rightarrow> emit (CallOutput (c_msc (deref w c)) MsgTypePush bytes) w
      | (w, Inl err) \<Rightarrow> w)"

fun a_step ::
  "(bytes \<Rightarrow> bytes) \<Rightarrow> addr \<Rightarrow> pump \<Rightarrow> pump option" where
  "a_step zlib c s =
     (case p_pc s of
        LoopTest \<Rightarrow> Some (s\<lparr>p_pc := if c_q (deref (p_world s) c) then Returned else Take\<rparr>)
      | Take \<Rightarrow>
          (case a_take c (p_world s) of
             (w, Some m) \<Rightarrow> Some (s\<lparr>p_world := w, p_pc := Send m\<rparr>)
           | (w, None) \<Rightarrow> Some (s\<lparr>p_world := w, p_pc := Idle\<rparr>))
      | Send m \<Rightarrow> Some (s\<lparr>p_world := a_send zlib c m (p_world s), p_pc := LoopTest,
                        p_sent := p_sent s @ [m]\<rparr>)
      | Idle \<Rightarrow> Some (s\<lparr>p_pc := Waiting\<rparr>)
      | Waiting \<Rightarrow> None
      | Returned \<Rightarrow> None)"

declare a_step.simps [simp del]

text \<open>A broadcast or signal makes a waiting goroutine continue with the loop test, and is lost
  on any other.\<close>

definition wake :: "pc \<Rightarrow> pc" where
  "wake q = (if q = Waiting then LoopTest else q)"

definition push :: "addr \<Rightarrow> maddr \<Rightarrow> pump \<Rightarrow> pump" where
  "push c m s = s\<lparr>p_world := Client_ServerHello (Some c) m (p_world s), p_pc := wake (p_pc s),
     p_pushed := p_pushed s @ [m]\<rparr>"

inductive pump_step ::
  "(bytes \<Rightarrow> bytes) \<Rightarrow> addr \<Rightarrow> pump \<Rightarrow> pump \<Rightarrow> bool"
  for zlib c where
  own: "a_step zlib c s = Some t \<Longrightarrow> pump_step zlib c s t"
| pushed: "m < length (w_msgs (p_world s)) \<Longrightarrow> pump_step zlib c s (push c m s)"
| created: "tc_serializedBytes m = None \<Longrightarrow> pump_step zlib c s
    (s\<lparr>p_world := (p_world s)\<lparr>w_msgs := w_msgs (p_world s) @ [m]\<rparr>\<rparr>)"
| shared: "m < length (w_msgs (p_world s)) \<Longrightarrow> pump_step zlib c s
    (s\<lparr>p_world := fst (marshal_msg zlib m (p_world s))\<rparr>)"
| ending: "\<not> c_q (deref (p_world s) c) \<Longrightarrow> pump_step zlib c s
    (s\<lparr>p_world := Client_ending panicked c (p_world s), p_signal := True\<rparr>)"
| signalled: "p_signal s \<Longrightarrow> pump_step zlib c s (s\<lparr>p_pc := wake (p_pc s), p_signal := False\<rparr>)"

text \<open>The goroutine starts on a client as \<^verbatim>\<open>createClient\<close> makes it: nothing queued, nothing
  sent on its connection, no message encoded wrongly.\<close>

definition outputs :: "conn \<Rightarrow> world \<Rightarrow> bytes list" where
  "outputs s w = concat (map (\<lambda>k. case k of CallOutput s' t b \<Rightarrow> if s' = s \<and> t = MsgTypePush then [b] else []
                                  | _ \<Rightarrow> []) (w_calls w))"

definition pump_init ::
  "(bytes \<Rightarrow> bytes) \<Rightarrow> addr \<Rightarrow> pump \<Rightarrow> bool" where
  "pump_init zlib c s \<longleftrightarrow>
     (let w = p_world s in
        c < length (w_heap w) \<and> c_queue (deref w c) = [] \<and> \<not> c_q (deref w c) \<and>
        outputs (c_msc (deref w c)) w = [] \<and> list_all (cache_ok zlib) (w_msgs w) \<and>
        p_pc s = LoopTest \<and> \<not> p_signal s \<and> p_pushed s = [] \<and> p_sent s = [])"

section \<open>What is sent\<close>

fun in_hand :: "pc \<Rightarrow> maddr list" where
  "in_hand (Send m) = [m]"
| "in_hand _ = []"

text \<open>The bytes the uncached encoder makes of a message; nothing when it fails.\<close>

definition encodings ::
  "(bytes \<Rightarrow> bytes) \<Rightarrow> world \<Rightarrow> maddr list \<Rightarrow> bytes list" where
  "encodings zlib w ms =
     concat (map (\<lambda>m. case encode_ToClientMessage zlib (w_msgs w ! m) of Inl _ \<Rightarrow> [] | Inr b \<Rightarrow> [b]) ms)"

definition pump_inv ::
  "(bytes \<Rightarrow> bytes) \<Rightarrow> addr \<Rightarrow> pump \<Rightarrow> bool" where
  "pump_inv zlib c s \<longleftrightarrow>
     (let w = p_world s in
        c < length (w_heap w) \<and> list_all (cache_ok zlib) (w_msgs w) \<and>
        (\<forall>m \<in> set (p_pushed s). m < length (w_msgs w)) \<and>
        p_sent s @ in_hand (p_pc s) @ c_queue (deref w c) = p_pushed s \<and>
        outputs (c_msc (deref w c)) w = encodings zlib w (p_sent s))"

lemma encode_cache [simp]:
  "encode_ToClientMessage zlib (p\<lparr>tc_serializedBytes := x\<rparr>) = encode_ToClientMessage zlib p"
  by (simp add: encode_ToClientMessage_def ToClientMessage_json_def)

lemma Marshal_cached:
  assumes "cache_ok zlib p"
  shows "\<exists>x. ToClientMessage_Marshal zlib p =
      (p\<lparr>tc_serializedBytes := x\<rparr>, encode_ToClientMessage zlib p)"
    and "cache_ok zlib (fst (ToClientMessage_Marshal zlib p))"
  using assms
  by (auto simp: ToClientMessage_Marshal_def cache_ok_def encode_ToClientMessage_def Let_def
      ToClientMessage_same split: option.splits sum.splits)

lemma outputs_emit [simp]:
  "outputs s (emit k w) = outputs s w @
     (case k of CallOutput s' t b \<Rightarrow> if s' = s \<and> t = MsgTypePush then [b] else [] | _ \<Rightarrow> [])"
  by (simp add: outputs_def)

lemma outputs_frame [simp]:
  "outputs s (upd_client a f w) = outputs s w"
  "outputs s (w\<lparr>w_msgs := ms\<rparr>) = outputs s w"
  "outputs s (Client_ServerHello d m w) = outputs s w"
  "outputs s (Client_ending p c w) = outputs s w"
  by (simp_all add: outputs_def Client_ServerHello_def split: option.split)

lemma encodings_append [simp]:
  "encodings zl w (ms @ ns) = encodings zl w ms @ encodings zl w ns"
  by (simp add: encodings_def)

lemma encodings_single:
  "encodings zl w [m] =
     (case encode_ToClientMessage zl (w_msgs w ! m) of Inl _ \<Rightarrow> [] | Inr b \<Rightarrow> [b])"
  by (simp add: encodings_def)

lemma encodings_cong:
  "(\<And>m. m \<in> set ms \<Longrightarrow> encode_ToClientMessage zl (w_msgs v ! m) = encode_ToClientMessage zl (w_msgs w ! m)) \<Longrightarrow>
   encodings zl v ms = encodings zl w ms"
  by (simp add: encodings_def cong: map_cong)

lemma encodings_frame [simp]:
  "encodings zl (upd_client a f w) ms = encodings zl w ms"
  "encodings zl (emit k w) ms = encodings zl w ms"
  "encodings zl (Client_ServerHello d m w) ms = encodings zl w ms"
  "encodings zl (Client_ending p c w) ms = encodings zl w ms"
  by (auto simp: Client_ServerHello_def intro!: encodings_cong split: option.split)

lemma marshal_msg_spec:
  assumes "marshal_msg zl m w = (w', r)" and "m < length (w_msgs w)"
    and "list_all (cache_ok zl) (w_msgs w)"
  shows "r = encode_ToClientMessage zl (w_msgs w ! m)"
    and "list_all (cache_ok zl) (w_msgs w')"
    and "\<exists>ms. w' = w\<lparr>w_msgs := ms\<rparr> \<and> length ms = length (w_msgs w)"
    and "encodings zl w' ks = encodings zl w ks"
proof -
  let ?p = "w_msgs w ! m"
  have ok: "cache_ok zl ?p" using assms(2,3) by (simp add: list_all_length)
  obtain x where x: "ToClientMessage_Marshal zl ?p =
      (?p\<lparr>tc_serializedBytes := x\<rparr>, encode_ToClientMessage zl ?p)"
    using Marshal_cached(1) [OF ok] by blast
  have w': "w' = w\<lparr>w_msgs := (w_msgs w)[m := ?p\<lparr>tc_serializedBytes := x\<rparr>]\<rparr>"
    and r: "r = encode_ToClientMessage zl ?p"
    using assms(1) x by (auto simp: marshal_msg_def)
  show "r = encode_ToClientMessage zl ?p" by (rule r)
  have "cache_ok zl (?p\<lparr>tc_serializedBytes := x\<rparr>)" using Marshal_cached(2) [OF ok] x by simp
  with assms(2,3) show "list_all (cache_ok zl) (w_msgs w')"
    unfolding w' list_all_length by (auto simp: nth_list_update)
  show "\<exists>ms. w' = w\<lparr>w_msgs := ms\<rparr> \<and> length ms = length (w_msgs w)"
    unfolding w' by (rule exI [of _ "(w_msgs w)[m := ?p\<lparr>tc_serializedBytes := x\<rparr>]"]) simp
  show "encodings zl w' ks = encodings zl w ks"
    using assms(2) by (intro encodings_cong) (auto simp: w' nth_list_update)
qed

section \<open>The invariant\<close>

lemma pump_inv_init: "pump_init zl c s \<Longrightarrow> pump_inv zl c s"
  by (simp add: pump_init_def pump_inv_def Let_def encodings_def)

lemma a_step_inv:
  assumes "a_step zl c s = Some t" and inv: "pump_inv zl c s"
  shows "pump_inv zl c t"
proof (cases "p_pc s")
  case Take
  with assms show ?thesis
    by (cases "c_queue (deref (p_world s) c)") (auto simp: a_step.simps a_take_def pump_inv_def Let_def)
next
  case (Send m)
  let ?w = "p_world s"
  obtain w' r where m: "marshal_msg zl m ?w = (w', r)" by fastforce
  from inv Send have "m \<in> set (p_pushed s)" unfolding pump_inv_def Let_def
    by (metis append_Cons in_hand.simps(1) in_set_conv_decomp)
  then have len: "m < length (w_msgs ?w)" and ok: "list_all (cache_ok zl) (w_msgs ?w)"
    using inv by (auto simp: pump_inv_def Let_def)
  note spec = marshal_msg_spec [OF m len ok]
  obtain ms where w': "w' = ?w\<lparr>w_msgs := ms\<rparr>" and "length ms = length (w_msgs ?w)"
    using spec(3) by blast
  moreover from this spec(4) have "encodings zl (?w\<lparr>w_msgs := ms\<rparr>) (p_sent s @ [m]) =
      encodings zl ?w (p_sent s) @ (case r of Inl _ \<Rightarrow> [] | Inr b \<Rightarrow> [b])"
    unfolding spec(1) encodings_single [symmetric] by simp
  ultimately show ?thesis
    using assms Send spec(2) m
    by (auto simp: a_step.simps pump_inv_def Let_def a_send_def split: sum.splits)
qed (use assms in \<open>auto simp: a_step.simps pump_inv_def Let_def\<close>)

lemma wake_in_hand [simp]: "in_hand (wake q) = in_hand q"
  by (simp add: wake_def)

lemma push_inv:
  assumes "pump_inv zl c s" and "m < length (w_msgs (p_world s))"
  shows "pump_inv zl c (push c m s)"
  using assms by (auto simp: pump_inv_def Let_def push_def Client_ServerHello_def)

lemma created_inv:
  assumes "pump_inv zl c s" and "tc_serializedBytes m = None"
  shows "pump_inv zl c (s\<lparr>p_world := (p_world s)\<lparr>w_msgs := w_msgs (p_world s) @ [m]\<rparr>\<rparr>)"
proof -
  let ?w = "p_world s"
  have "\<forall>k \<in> set (p_sent s). k < length (w_msgs ?w)"
    using assms(1) unfolding pump_inv_def Let_def by (metis UnCI set_append)
  then have "encodings zl (?w\<lparr>w_msgs := w_msgs ?w @ [m]\<rparr>) (p_sent s) = encodings zl ?w (p_sent s)"
    by (intro encodings_cong) (simp add: nth_append)
  with assms show ?thesis by (auto simp: pump_inv_def Let_def cache_ok_def)
qed

lemma shared_inv:
  assumes "pump_inv zl c s" and "m < length (w_msgs (p_world s))"
  shows "pump_inv zl c (s\<lparr>p_world := fst (marshal_msg zl m (p_world s))\<rparr>)"
proof -
  obtain w' r where m: "marshal_msg zl m (p_world s) = (w', r)" by fastforce
  have "list_all (cache_ok zl) (w_msgs (p_world s))" using assms(1) by (simp add: pump_inv_def Let_def)
  note spec = marshal_msg_spec [OF m assms(2) this]
  obtain ms where "w' = (p_world s)\<lparr>w_msgs := ms\<rparr>" and "length ms = length (w_msgs (p_world s))"
    using spec(3) by blast
  with assms spec m show ?thesis by (simp add: pump_inv_def Let_def)
qed

lemma pump_step_inv: "pump_step zl c s t \<Longrightarrow> pump_inv zl c s \<Longrightarrow> pump_inv zl c t"
proof (induction rule: pump_step.induct)
  case (ending s panicked)
  then show ?case by (auto simp: pump_inv_def Let_def)
next
  case (signalled s)
  then show ?case by (simp add: pump_inv_def Let_def)
qed (blast intro: a_step_inv push_inv created_inv shared_inv)+

interpretation pump: inductive_invariant "pump_init zl c" "pump_step zl c" "pump_inv zl c" for zl c
  by unfold_locales (blast intro: pump_inv_init pump_step_inv)+

section \<open>Progress\<close>

text \<open>The goroutine running alone for some steps; it stays where it is once it blocks.\<close>

fun a_run ::
  "(bytes \<Rightarrow> bytes) \<Rightarrow> addr \<Rightarrow> nat \<Rightarrow> pump \<Rightarrow> pump" where
  "a_run zl c 0 s = s"
| "a_run zl c (Suc n) s = (case a_step zl c s of None \<Rightarrow> s | Some t \<Rightarrow> a_run zl c n t)"

lemma a_send_frame [simp]:
  "deref (a_send zl c m w) a = deref w a" "length (w_heap (a_send zl c m w)) = length (w_heap w)"
  by (auto simp: a_send_def marshal_msg_def split: prod.splits sum.splits)

lemma a_run_blocked: "p_pc s = Waiting \<or> p_pc s = Returned \<Longrightarrow> a_run zl c n s = s"
  by (cases n) (auto simp: a_step.simps)

lemma a_run_step: "a_step zl c s = Some t \<Longrightarrow> 0 < n \<Longrightarrow> a_run zl c n s = a_run zl c (n - 1) t"
  by (cases n) auto

definition drained :: "addr \<Rightarrow> maddr list \<Rightarrow> pump \<Rightarrow> bool" where
  "drained c ms t \<longleftrightarrow> p_pc t = Waiting \<and> c_queue (deref (p_world t) c) = [] \<and> p_sent t = ms"

lemma a_run_drains:
  assumes "p_pc s = LoopTest" and "\<not> c_q (deref (p_world s) c)" and "c < length (w_heap (p_world s))"
    and "3 * length (c_queue (deref (p_world s) c)) + 3 \<le> n"
  shows "drained c (p_sent s @ c_queue (deref (p_world s) c)) (a_run zl c n s)"
  using assms
proof (induction "c_queue (deref (p_world s) c)" arbitrary: s n)
  case Nil
  let ?t = "s\<lparr>p_pc := Take\<rparr>"
  have "a_run zl c n s = a_run zl c (n - 1 - 1) (?t\<lparr>p_pc := Idle\<rparr>)"
    using Nil by (simp add: a_run_step [where t = ?t] a_run_step [of zl c ?t "?t\<lparr>p_pc := Idle\<rparr>"]
        a_step.simps a_take_def)
  also have "\<dots> = ?t\<lparr>p_pc := Waiting\<rparr>"
    using Nil by (subst a_run_step [where t = "?t\<lparr>p_pc := Waiting\<rparr>"]) (auto simp: a_step.simps a_run_blocked)
  finally show ?case using Nil(1) by (simp add: drained_def)
next
  case (Cons m ms)
  let ?w = "upd_client c (\<lambda>x. x\<lparr>c_queue := ms\<rparr>) (p_world s)"
  let ?t = "s\<lparr>p_pc := Take\<rparr>" and ?u = "s\<lparr>p_pc := Send m, p_world := ?w\<rparr>"
  let ?v = "s\<lparr>p_pc := LoopTest, p_world := a_send zl c m ?w, p_sent := p_sent s @ [m]\<rparr>"
  have "a_run zl c n s = a_run zl c (n - 1) ?t"
    using Cons by (intro a_run_step) (auto simp: a_step.simps)
  also have "\<dots> = a_run zl c (n - 1 - 1) ?u"
    using Cons.prems Cons.hyps(2) [symmetric] by (intro a_run_step) (auto simp: a_step.simps a_take_def)
  also have "\<dots> = a_run zl c (n - 1 - 1 - 1) ?v"
    using Cons.prems Cons.hyps(2) [symmetric] by (intro a_run_step) (auto simp: a_step.simps)
  finally have eq: "a_run zl c n s = a_run zl c (n - 3) ?v" by (simp add: numeral_3_eq_3)
  have "drained c (p_sent ?v @ c_queue (deref (p_world ?v) c)) (a_run zl c (n - 3) ?v)"
    using Cons.prems Cons.hyps(2) [symmetric] by (intro Cons.hyps(1)) auto
  with eq Cons.hyps(2) [symmetric] Cons.prems show ?case by simp
qed

lemma a_run_take:
  assumes "p_pc s = Take" and "c_queue (deref (p_world s) c) = m # ms" and "2 \<le> n"
  shows "a_run zl c n s = a_run zl c (n - 2)
    (s\<lparr>p_world := a_send zl c m (upd_client c (\<lambda>x. x\<lparr>c_queue := ms\<rparr>) (p_world s)),
       p_pc := LoopTest, p_sent := p_sent s @ [m]\<rparr>)"
proof -
  obtain k where "n = Suc (Suc k)" using assms(3) by (metis add_2_eq_Suc le_Suc_ex)
  with assms show ?thesis by (simp add: a_step.simps a_take_def)
qed

lemma a_run_settles:
  assumes "c < length (w_heap (p_world s))" and "\<not> c_q (deref (p_world s) c)"
    and "c_queue (deref (p_world s) c) = m # ms" and "p_pc s \<notin> {Idle, Waiting, Returned}"
    and "3 * length (m # ms) + 4 \<le> n"
  shows "drained c (p_sent s @ in_hand (p_pc s) @ m # ms) (a_run zl c n s)"
proof (cases "p_pc s")
  case LoopTest
  with assms a_run_drains [of s c n zl] show ?thesis by simp
next
  case Take
  let ?v = "s\<lparr>p_world := a_send zl c m (upd_client c (\<lambda>x. x\<lparr>c_queue := ms\<rparr>) (p_world s)),
       p_pc := LoopTest, p_sent := p_sent s @ [m]\<rparr>"
  have "drained c (p_sent ?v @ c_queue (deref (p_world ?v) c)) (a_run zl c (n - 2) ?v)"
    using assms by (intro a_run_drains) auto
  with a_run_take [OF Take assms(3)] assms Take show ?thesis by simp
next
  case (Send k)
  let ?v = "s\<lparr>p_world := a_send zl c k (p_world s), p_pc := LoopTest, p_sent := p_sent s @ [k]\<rparr>"
  have "drained c (p_sent ?v @ c_queue (deref (p_world ?v) c)) (a_run zl c (n - 1) ?v)"
    using assms by (intro a_run_drains) auto
  moreover have "a_run zl c n s = a_run zl c (n - 1) ?v"
    using assms Send by (intro a_run_step) (auto simp: a_step.simps)
  ultimately show ?thesis using assms Send by simp
qed (use assms in auto)

section \<open>Correctness\<close>

text \<open>
  C3: In every interleaving of the outbound goroutine with pushes, with other goroutines encoding
  shared messages and with the end of the session, the messages pushed to a client are, in
  order, those already sent, the one in the goroutine's hand and those still queued: none is
  lost, repeated or reordered. What went out on the connection is exactly the sequence of the
  encodings of the messages sent, although the encodings are cached and shared.
\<close>

theorem pump_fifo:
  assumes "reachable (pump_init zl c) (pump_step zl c) s"
  shows "p_sent s @ in_hand (p_pc s) @ c_queue (deref (p_world s) c) = p_pushed s \<and>
    outputs (c_msc (deref (p_world s) c)) (p_world s) = encodings zl (p_world s) (p_sent s)"
  using pump.reachable_inv [OF assms] by (simp add: pump_inv_def Let_def)

text \<open>
  C17: When a message is pushed while the session lives and the goroutine is not between finding
  the queue empty and starting to wait, then the goroutine alone sends everything pushed so far
  within three steps a message, and ends up waiting on an empty queue.
\<close>

theorem pushed_message_is_sent:
  assumes "reachable (pump_init zl c) (pump_step zl c) s"
    and "\<not> c_q (deref (p_world s) c)" and "p_pc s \<noteq> Idle" and "p_pc s \<noteq> Returned"
    and "3 * length (c_queue (deref (p_world s) c)) + 7 \<le> n"
  shows "drained c (p_pushed s @ [m]) (a_run zl c n (push c m s))"
proof -
  let ?t = "push c m s"
  have inv: "pump_inv zl c s" by (rule pump.reachable_inv [OF assms(1)])
  then have len: "c < length (w_heap (p_world s))"
    and hist: "p_sent s @ in_hand (p_pc s) @ c_queue (deref (p_world s) c) = p_pushed s"
    by (simp_all add: pump_inv_def Let_def)
  obtain m' ms where q: "c_queue (deref (p_world s) c) @ [m] = m' # ms"
    by (cases "c_queue (deref (p_world s) c)") auto
  then have l: "length (m' # ms) = length (c_queue (deref (p_world s) c)) + 1"
    by (metis length_append_singleton Suc_eq_plus1)
  have "drained c (p_sent ?t @ in_hand (p_pc ?t) @ m' # ms) (a_run zl c n ?t)"
    using assms len q l
    by (intro a_run_settles) (auto simp: push_def Client_ServerHello_def wake_def)
  moreover have "p_sent ?t @ in_hand (p_pc ?t) @ m' # ms = p_pushed s @ [m]"
    by (simp add: push_def flip: q hist)
  ultimately show ?thesis by simp
qed

text \<open>A goroutine on a fresh client, and three of its actions.\<close>

definition pump0 :: pump where
  "pump0 = \<lparr>p_world = init_world\<lparr>w_heap := [sample_client ''u'' 7], w_msgs := [sample_ToClientMessage]\<rparr>,
     p_pc = LoopTest, p_signal = False, p_pushed = [], p_sent = []\<rparr>"

lemma pump0_init: "pump_init zl 0 pump0"
  by (simp add: pump_init_def pump0_def init_world_def deref_def sample_client_def outputs_def
      cache_ok_def sample_ToClientMessage_def)

lemma pump0_reaches: "reachable (pump_init zl 0) (pump_step zl 0) pump0"
  by (rule reach_init) (rule pump0_init)

lemma pump0_idle: "reachable (pump_init zl 0) (pump_step zl 0) (pump0\<lparr>p_pc := Idle\<rparr>)"
proof -
  have "a_step zl 0 pump0 = Some (pump0\<lparr>p_pc := Take\<rparr>)"
    and "a_step zl 0 (pump0\<lparr>p_pc := Take\<rparr>) = Some (pump0\<lparr>p_pc := Idle\<rparr>)"
    by (simp_all add: a_step.simps a_take_def pump0_def deref_def sample_client_def)
  then show ?thesis by (metis pump0_reaches reach_step pump_step.own)
qed

lemma reach_wait:
  assumes "reachable init (pump_step zl c) s" and "p_pc s = Idle"
  shows "reachable init (pump_step zl c) (s\<lparr>p_pc := Waiting\<rparr>)"
  by (rule reach_step [OF assms(1)], rule pump_step.own) (simp add: a_step.simps assms(2))

text \<open>
  A message can be left behind: the queue is inspected in one critical section and the wait
  begins in another, so a push in between finds nobody waiting, and the goroutine then waits
  although its queue holds a message. It does not move until the next push or the session's end.
\<close>

theorem lost_wakeup:
  "\<exists>s. reachable (pump_init zl 0) (pump_step zl 0) s \<and> p_pc s = Waiting \<and>
     c_queue (deref (p_world s) 0) = [0] \<and> p_sent s = [] \<and> \<not> c_q (deref (p_world s) 0) \<and>
     (\<forall>n. a_run zl 0 n s = s)"
proof -
  let ?s = "push 0 0 (pump0\<lparr>p_pc := Idle\<rparr>)"
  have "reachable (pump_init zl 0) (pump_step zl 0) ?s"
    by (rule reach_step [OF pump0_idle], rule pump_step.pushed) (simp add: pump0_def)
  moreover have "p_pc ?s = Idle" by (simp add: push_def wake_def)
  ultimately have "reachable (pump_init zl 0) (pump_step zl 0) (?s\<lparr>p_pc := Waiting\<rparr>)"
    by (rule reach_wait)
  moreover have "c_queue (deref (p_world ?s) 0) = [0]" and "\<not> c_q (deref (p_world ?s) 0)"
    and "p_sent ?s = []"
    by (simp_all add: push_def Client_ServerHello_def pump0_def) (simp_all add: deref_def sample_client_def)
  ultimately show ?thesis by (intro exI [of _ "?s\<lparr>p_pc := Waiting\<rparr>"]) (simp add: a_run_blocked)
qed

text \<open>
  The goroutine can outlive its session: when the session ends between the inspection of the
  empty queue and the wait, the only signal \<^verbatim>\<open>ending\<close> sends is lost, and the goroutine
  waits with the client marked finished and no further signal to come.
\<close>

theorem pump_can_outlive_session:
  "\<exists>s. reachable (pump_init zl 0) (pump_step zl 0) s \<and> p_pc s = Waiting \<and>
     c_q (deref (p_world s) 0) \<and> \<not> p_signal s \<and> (\<forall>n. a_run zl 0 n s = s)"
proof -
  let ?i = "pump0\<lparr>p_pc := Idle\<rparr>"
  let ?e = "?i\<lparr>p_world := Client_ending False 0 (p_world ?i), p_signal := True\<rparr>"
  let ?s = "?e\<lparr>p_pc := wake (p_pc ?e), p_signal := False\<rparr>"
  have "\<not> c_q (deref (p_world ?i) 0)" by (simp add: pump0_def) (simp add: deref_def sample_client_def)
  then have "reachable (pump_init zl 0) (pump_step zl 0) ?e"
    by (intro reach_step [OF pump0_idle] pump_step.ending)
  then have "reachable (pump_init zl 0) (pump_step zl 0) ?s"
    by (rule reach_step) (rule pump_step.signalled, simp)
  moreover have "p_pc ?s = Idle" by (simp add: wake_def)
  ultimately have "reachable (pump_init zl 0) (pump_step zl 0) (?s\<lparr>p_pc := Waiting\<rparr>)"
    by (rule reach_wait)
  moreover have "c_q (deref (p_world ?s) 0)" by (simp add: pump0_def)
  ultimately show ?thesis by (intro exI [of _ "?s\<lparr>p_pc := Waiting\<rparr>"]) (simp add: a_run_blocked)
qed

section \<open>Witnesses\<close>

theorem pump_fifo_witness:
  "p_sent (push 0 0 pump0) @ in_hand LoopTest @ c_queue (deref (p_world (push 0 0 pump0)) 0) = [0]"
proof -
  have r: "reachable (pump_init zl 0) (pump_step zl 0) (push 0 0 pump0)" for zl
    by (rule reach_step [OF pump0_reaches], rule pump_step.pushed) (simp add: pump0_def)
  from pump_fifo [OF r] show ?thesis by (simp add: push_def wake_def pump0_def)
qed

theorem pushed_message_is_sent_witness:
  "drained 0 [0] (a_run rev 0 7 (push 0 0 pump0))"
proof -
  have q: "\<not> c_q (deref (p_world pump0) 0)" and "c_queue (deref (p_world pump0) 0) = []"
    by (simp_all add: pump0_def deref_def sample_client_def)
  then show ?thesis
    using pushed_message_is_sent [OF pump0_reaches, where n = 7 and m = 0] by (simp add: pump0_def)
qed

end
