(* ===== verification/Timers.thy ===== *)
theory Timers
  imports Go_Prelude
begin

text \<open>
  The timed loops of the connector. A goroutine that waits for a \<^verbatim>\<open>time.Timer\<close> or a \<^verbatim>\<open>time.Ticker\<close> runs one turn
  after the other; times and durations are nanoseconds. What a loop is is said by one function: when the next turn begins
  if one began at \<open>t\<close> and took \<open>d\<close>.
\<close>

abbreviation millisecond :: int where
  "millisecond \<equiv> 1000000"

abbreviation second :: int where
  "second \<equiv> 1000000000"

section \<open>Loops\<close>

text \<open>\<^verbatim>\<open>initHeartBeat\<close>, \<^verbatim>\<open>subscribe\<close>: the timer is reset at the end of the turn.\<close>

definition timer_next :: "int \<Rightarrow> int \<Rightarrow> int \<Rightarrow> int" where
  "timer_next period t d = t + d + period"

text \<open>
  \<^verbatim>\<open>for range ticker.C\<close>: the ticker was made at \<open>start\<close>, its channel holds one tick, and a tick that finds it full
  is dropped. So the next turn begins with the first tick after the beginning of this one, or at the end of this one when
  that tick has come already.
\<close>

definition ticker_next :: "int \<Rightarrow> int \<Rightarrow> int \<Rightarrow> int \<Rightarrow> int" where
  "ticker_next start period t d = max (t + d) (start + ((t - start) div period + 1) * period)"

text \<open>The loops themselves: \<^verbatim>\<open>initMessageConsumer\<close>, \<^verbatim>\<open>initRpcServerDiscovery\<close>, \<^verbatim>\<open>RegisterNamingService\<close>,
  \<^verbatim>\<open>initHeartBeat\<close>, and the one in \<^verbatim>\<open>subscribe\<close> whose turns do nothing.\<close>

definition initMessageConsumer_next :: "int \<Rightarrow> int \<Rightarrow> int \<Rightarrow> int" where
  "initMessageConsumer_next start = ticker_next start (50 * millisecond)"

definition initRpcServerDiscovery_next :: "int \<Rightarrow> int \<Rightarrow> int \<Rightarrow> int" where
  "initRpcServerDiscovery_next start = ticker_next start (1 * second)"

definition RegisterNamingService_next :: "int \<Rightarrow> int \<Rightarrow> int \<Rightarrow> int" where
  "RegisterNamingService_next start = ticker_next start (1 * second)"

definition initHeartBeat_next :: "int \<Rightarrow> int \<Rightarrow> int" where
  "initHeartBeat_next = timer_next (1 * second)"

definition subscribe_timer_next :: "int \<Rightarrow> int \<Rightarrow> int" where
  "subscribe_timer_next = timer_next (2 * second)"

text \<open>The times at which the turns begin, the first at \<open>t\<close>, when the turns take \<open>ds\<close>.\<close>

fun turns :: "(int \<Rightarrow> int \<Rightarrow> int) \<Rightarrow> int \<Rightarrow> int list \<Rightarrow> int list" where
  "turns nxt t [] = [t]"
| "turns nxt t (d # ds) = t # turns nxt (nxt t d) ds"

lemma turns_nonempty [simp]: "turns nxt t ds \<noteq> []"
  by (cases ds) simp_all

lemma turns_first [simp]: "t \<in> set (turns nxt t ds)"
  by (cases ds) simp_all

lemma length_turns [simp]: "length (turns nxt t ds) = Suc (length ds)"
  by (induction ds arbitrary: t) simp_all

section \<open>What every such loop promises\<close>

text \<open>The turns do not overlap, and when no turn takes longer than \<open>D\<close> the next one begins within \<open>gap D\<close>.\<close>

locale paced =
  fixes nxt :: "int \<Rightarrow> int \<Rightarrow> int"
    and gap :: "int \<Rightarrow> int"
  assumes next_waits: "t + d \<le> nxt t d"
    and next_gap: "d \<le> D \<Longrightarrow> nxt t d \<le> t + gap D"
    and gap_nonneg: "0 \<le> D \<Longrightarrow> 0 \<le> gap D"
begin

lemma turn_soon:
  assumes "t \<le> s" and "s \<le> last (turns nxt t ds)" and "\<forall>d \<in> set ds. d \<le> D" and "0 \<le> D"
  shows "\<exists>x \<in> set (turns nxt t ds). s \<le> x \<and> x \<le> s + gap D"
  using assms
proof (induction ds arbitrary: t)
  case Nil
  then show ?case using gap_nonneg by simp
next
  case (Cons d ds)
  show ?case
  proof (cases "nxt t d \<le> s")
    case True
    with Cons show ?thesis by simp
  next
    case False
    have "nxt t d \<le> t + gap D" using Cons.prems(3) by (intro next_gap) simp
    with False Cons.prems(1) show ?thesis by (intro bexI [of _ "nxt t d"]) simp_all
  qed
qed

lemma turns_apart: "i < length ds \<Longrightarrow> turns nxt t ds ! i + ds ! i \<le> turns nxt t ds ! Suc i"
proof (induction ds arbitrary: t i)
  case (Cons d ds)
  show ?case
  proof (cases i)
    case 0
    then show ?thesis using next_waits by (cases ds) simp_all
  next
    case (Suc j)
    then show ?thesis using Cons.IH [of j] Cons.prems by simp
  qed
qed simp

end

lemma timer_paced: "0 \<le> period \<Longrightarrow> paced (timer_next period) (\<lambda>D. period + D)"
  by unfold_locales (simp_all add: timer_next_def)

lemma ticker_paced:
  assumes "0 < period"
  shows "paced (ticker_next start period) (max period)"
proof
  fix t d D :: int
  show "t + d \<le> ticker_next start period t d" by (simp add: ticker_next_def)
  have "(t - start) div period * period \<le> t - start" using assms by (simp add: minus_mod_eq_div_mult [symmetric])
  then have "start + ((t - start) div period + 1) * period \<le> t + period" by (simp add: algebra_simps)
  then show "ticker_next start period t d \<le> t + max period D" if "d \<le> D"
    unfolding ticker_next_def using that by linarith
  show "0 \<le> max period D" if "0 \<le> D" using that by simp
qed

interpretation consumer: paced "initMessageConsumer_next start" "max (50 * millisecond)" for start
  unfolding initMessageConsumer_next_def by (rule ticker_paced) simp

interpretation discovery: paced "initRpcServerDiscovery_next start" "max second" for start
  unfolding initRpcServerDiscovery_next_def using ticker_paced [of second] by simp

interpretation naming: paced "RegisterNamingService_next start" "max second" for start
  unfolding RegisterNamingService_next_def using ticker_paced [of second] by simp

interpretation heart: paced initHeartBeat_next "\<lambda>D. second + D"
  unfolding initHeartBeat_next_def using timer_paced [of second] by simp

interpretation purge_timer: paced subscribe_timer_next "\<lambda>D. 2 * second + D"
  unfolding subscribe_timer_next_def using timer_paced [of "2 * second"] by simp

section \<open>Tickers do not run ahead\<close>

lemma ticker_next_mono:
  assumes "0 < period" and "start + int k * period \<le> t"
  shows "start + int (Suc k) * period \<le> ticker_next start period t d"
proof -
  have "int k \<le> (t - start) div period" using assms zdiv_mono1 [of "int k * period" "t - start" period] by simp
  then have "int (Suc k) * period \<le> ((t - start) div period + 1) * period" using assms(1) by (intro mult_right_mono) simp_all
  then show ?thesis by (simp add: ticker_next_def)
qed

lemma ticker_turns_behind:
  assumes "0 < period"
  shows "start + int k * period \<le> t \<Longrightarrow> i \<le> length ds \<Longrightarrow>
    start + int (k + i) * period \<le> turns (ticker_next start period) t ds ! i"
proof (induction ds arbitrary: t i k)
  case (Cons d ds)
  show ?case
  proof (cases i)
    case (Suc j)
    have "start + int (Suc k) * period \<le> ticker_next start period t d" by (rule ticker_next_mono [OF assms Cons.prems(1)])
    from Cons.IH [OF this, of j] Suc Cons.prems(2) show ?thesis by simp
  qed (use Cons.prems in simp)
qed simp

text \<open>
  The loop of the message consumer is paced by its ticker and by nothing else: its turns do not overlap; the \<open>i\<close>-th turn
  does not begin before the \<open>i\<close>-th tick, so that slow turns never cause more turns than there were ticks; and while no turn takes longer than
  \<open>D\<close>, within \<^verbatim>\<open>max(50ms, D)\<close> of any moment of the run a turn begins.
\<close>

theorem consumer_paced:
  assumes "start + 50 * millisecond \<le> t" and "\<forall>d \<in> set ds. d \<le> D" and "0 \<le> D"
  shows "(\<forall>i < length ds. turns (initMessageConsumer_next start) t ds ! i + ds ! i \<le> turns (initMessageConsumer_next start) t ds ! Suc i) \<and>
    (\<forall>i \<le> length ds. start + int (Suc i) * (50 * millisecond) \<le> turns (initMessageConsumer_next start) t ds ! i) \<and>
    (\<forall>s. t \<le> s \<and> s \<le> last (turns (initMessageConsumer_next start) t ds) \<longrightarrow>
       (\<exists>x \<in> set (turns (initMessageConsumer_next start) t ds). s \<le> x \<and> x \<le> s + max (50 * millisecond) D))"
proof (intro conjI allI impI)
  show "start + int (Suc i) * (50 * millisecond) \<le> turns (initMessageConsumer_next start) t ds ! i" if "i \<le> length ds" for i
    using ticker_turns_behind [of "50 * millisecond" start 1 t i ds] assms(1) that by (simp add: initMessageConsumer_next_def)
qed (use consumer.turns_apart consumer.turn_soon [OF _ _ assms(2,3)] in blast)+

text \<open>A turn of 120 ms: the ticks at 100 and 150 ms have one turn between them, begun at once.\<close>

theorem consumer_paced_witness:
  "turns (initMessageConsumer_next 0) (50 * millisecond) [120 * millisecond, 5 * millisecond] =
     [50 * millisecond, 170 * millisecond, 200 * millisecond] \<and>
   (\<exists>x \<in> set (turns (initMessageConsumer_next 0) (50 * millisecond) [120 * millisecond, 5 * millisecond]).
      60 * millisecond \<le> x \<and> x \<le> 60 * millisecond + 120 * millisecond)"
proof
  show eq: "turns (initMessageConsumer_next 0) (50 * millisecond) [120 * millisecond, 5 * millisecond] =
      [50 * millisecond, 170 * millisecond, 200 * millisecond]"
    by (simp add: initMessageConsumer_next_def ticker_next_def)
  show "\<exists>x \<in> set (turns (initMessageConsumer_next 0) (50 * millisecond) [120 * millisecond, 5 * millisecond]).
      60 * millisecond \<le> x \<and> x \<le> 60 * millisecond + 120 * millisecond"
    using consumer_paced [of 0 "50 * millisecond" "[120 * millisecond, 5 * millisecond]" "120 * millisecond"] eq by simp
qed

end
