(* ===== verification/Heart_Beat.thy ===== *)
theory Heart_Beat
  imports Clients Timers
begin

text \<open>
  \<^verbatim>\<open>heartbeat.go\<close>: once a second the service looks at every registered client and closes
  those of a recent protocol version (100 or later) whose last heart beat is more than three
  seconds old. \<open>heartBeat_tick\<close> is one turn of the loop in \<^verbatim>\<open>initHeartBeat\<close>; \<open>order\<close> is
  the order in which the map is visited. Schedules of heart beats and ticks follow, with \<open>Timers\<close> for the timer that
  paces the loop.
\<close>

section \<open>Operations\<close>

definition heartBeat_body :: "int \<Rightarrow> addr \<Rightarrow> world \<Rightarrow> world" where
  "heartBeat_body from client w =
     (let heartBeatTime = c_heartBeatTime (deref w client)
      in if c_version (deref w client) \<ge> 100 \<and> heartBeatTime < from then Client_Close client w else w)"

definition heartBeat_tick :: "bool \<Rightarrow> int \<Rightarrow> string list \<Rightarrow> world \<Rightarrow> world" where
  "heartBeat_tick DisableHeartBeat nanos order w =
     (if \<not> DisableHeartBeat then
        (let now = millis nanos; from = wrap64 (now - 3000)
         in range_loop (\<lambda>_ client. heartBeat_body from client) (w_clients w) order w)
      else w)"

section \<open>Correctness\<close>

text \<open>A client that the tick at time \<open>nanos\<close> considers dead.\<close>

definition overdue :: "int \<Rightarrow> world \<Rightarrow> addr \<Rightarrow> bool" where
  "overdue nanos w c \<longleftrightarrow>
     100 \<le> c_version (deref w c) \<and> c_heartBeatTime (deref w c) + 3000 < millis nanos"

lemma heartBeat_body_calls:
  "heartBeat_body from c w = w\<lparr>w_calls := w_calls w @
     (if 100 \<le> c_version (deref w c) \<and> c_heartBeatTime (deref w c) < from
      then [CallStop (c_msc (deref w c))] else [])\<rparr>"
  by (simp add: heartBeat_body_def Let_def Client_Close_def emit_def)

lemma heartBeat_loop:
  "set us \<subseteq> keys_of m \<Longrightarrow>
   range_loop (\<lambda>_ c. heartBeat_body from c) m us w = w\<lparr>w_calls := w_calls w @
     map (\<lambda>i. CallStop (c_msc (deref w (the (map_of m i)))))
       (filter (\<lambda>i. let c = the (map_of m i) in
          100 \<le> c_version (deref w c) \<and> c_heartBeatTime (deref w c) < from) us)\<rparr>"
  by (induction us arbitrary: w)
    (auto simp: heartBeat_body_calls keys_of_conv Let_def split: option.splits)

lemma millis_range:
  assumes "0 \<le> nanos" and "in_int64 nanos"
  shows "0 \<le> millis nanos" and "in_int64 (millis nanos - 3000)"
proof -
  have eq: "millis nanos = nanos div 1000000" using assms(1) by (simp add: millis_def sdiv_nonneg)
  moreover have "0 \<le> nanos div 1000000" using assms(1) by (simp add: pos_imp_zdiv_nonneg_iff)
  moreover have "nanos div 1000000 \<le> nanos" using assms(1) by simp
  ultimately show "0 \<le> millis nanos" and "in_int64 (millis nanos - 3000)"
    using assms by (auto simp: in_int64_def)
qed

lemma heartBeat_calls:
  assumes "range_order (w_clients w) order" and "0 \<le> nanos" and "in_int64 nanos"
  shows "heartBeat_tick disabled nanos order w = w\<lparr>w_calls := w_calls w @
      (if disabled then [] else
         map (\<lambda>i. CallStop (c_msc (deref w (the (map_of (w_clients w) i)))))
           (filter (\<lambda>i. overdue nanos w (the (map_of (w_clients w) i))) order))\<rparr>"
proof -
  have "set order \<subseteq> keys_of (w_clients w)" using assms(1) by (simp add: range_order_def)
  note loop = heartBeat_loop [OF this]
  have wrap: "wrap64 (millis nanos - 3000) = millis nanos - 3000"
    using millis_range(2) [OF assms(2,3)] by simp
  have late: "(x < millis nanos - 3000) = (x + 3000 < millis nanos)" for x by arith
  show ?thesis by (simp add: heartBeat_tick_def loop overdue_def Let_def wrap late)
qed

text \<open>
  A heart-beat tick asks exactly the connections of the overdue registered clients to stop,
  once each, and changes nothing else: a client that was heard of within the last three seconds,
  one of an older protocol version and one that is not registered are left alone, and when heart
  beats are disabled nobody is closed.
\<close>

theorem heartBeat_closes_overdue:
  assumes "range_order (w_clients w) order" and "0 \<le> nanos" and "in_int64 nanos"
  shows "heartBeat_tick disabled nanos order w = w\<lparr>w_calls := w_calls w @
      (if disabled then [] else
         map (\<lambda>i. CallStop (c_msc (deref w (the (map_of (w_clients w) i)))))
           (filter (\<lambda>i. overdue nanos w (the (map_of (w_clients w) i))) order))\<rparr>"
  by (rule heartBeat_calls [OF assms])

section \<open>Heart beats and ticks over time\<close>

text \<open>
  A schedule: the times, in nanoseconds, at which a message of a client counts as its heart beat, and those at which
  the timer fires, with the order in which that turn visits the clients.
\<close>

datatype pulse = Beat addr | Tick "string list"

fun pulse_step :: "int \<times> pulse \<Rightarrow> world \<Rightarrow> world" where
  "pulse_step (nanos, Beat c) w = Client_heartBeat nanos c w"
| "pulse_step (nanos, Tick order) w = heartBeat_tick False nanos order w"

definition heart_run :: "(int \<times> pulse) list \<Rightarrow> world \<Rightarrow> world" where
  "heart_run = fold pulse_step"

definition pulses_ok :: "world \<Rightarrow> (int \<times> pulse) list \<Rightarrow> bool" where
  "pulses_ok w es \<longleftrightarrow> (\<forall>(t, e) \<in> set es. 0 \<le> t \<and> in_int64 t \<and> (\<forall>order. e = Tick order \<longrightarrow> range_order (w_clients w) order))"

text \<open>The client \<open>c\<close>, last heard of at \<open>heard\<close>, is heard of often enough: whenever the timer fires its last beat is at
  most three seconds old, both read in milliseconds.\<close>

fun beats_ok :: "addr \<Rightarrow> int \<Rightarrow> (int \<times> pulse) list \<Rightarrow> bool" where
  "beats_ok c heard [] \<longleftrightarrow> True"
| "beats_ok c heard ((t, Beat d) # es) \<longleftrightarrow> beats_ok c (if d = c then millis t else heard) es"
| "beats_ok c heard ((t, Tick order) # es) \<longleftrightarrow> millis t \<le> heard + 3000 \<and> beats_ok c heard es"

text \<open>The client \<open>c\<close> is registered and is watched: its protocol version is recent, and no other registered
  client has its connection.\<close>

definition watched :: "addr \<Rightarrow> world \<Rightarrow> bool" where
  "watched c w \<longleftrightarrow> c < length (w_heap w) \<and> 100 \<le> c_version (deref w c) \<and> c \<in> snd ` set (w_clients w) \<and>
     distinct (map fst (w_clients w)) \<and>
     (\<forall>d \<in> snd ` set (w_clients w). c_msc (deref w d) = c_msc (deref w c) \<longrightarrow> d = c)"

lemma pulses_ok_Cons: "pulses_ok w ((t, e) # es) \<longleftrightarrow>
    0 \<le> t \<and> in_int64 t \<and> (\<forall>order. e = Tick order \<longrightarrow> range_order (w_clients w) order) \<and> pulses_ok w es"
  by (auto simp: pulses_ok_def)

lemma pulses_ok_clients: "w_clients w' = w_clients w \<Longrightarrow> pulses_ok w' es = pulses_ok w es"
  by (simp add: pulses_ok_def)

lemma heart_run_simps [simp]: "heart_run [] w = w" "heart_run (e # es) w = heart_run es (pulse_step e w)"
  by (simp_all add: heart_run_def)

lemma heart_run_append: "heart_run (es @ fs) w = heart_run fs (heart_run es w)"
  by (simp add: heart_run_def)

lemma beat_frame:
  "w_clients (Client_heartBeat t d w) = w_clients w" "w_calls (Client_heartBeat t d w) = w_calls w"
  "length (w_heap (Client_heartBeat t d w)) = length (w_heap w)"
  "c_msc (deref (Client_heartBeat t d w) c) = c_msc (deref w c)"
  "c_version (deref (Client_heartBeat t d w) c) = c_version (deref w c)"
  "c < length (w_heap w) \<Longrightarrow>
     c_heartBeatTime (deref (Client_heartBeat t d w) c) = (if d = c then millis t else c_heartBeatTime (deref w c))"
  by (auto simp: Client_heartBeat_def)

lemma watched_beat: "watched c (Client_heartBeat t d w) = watched c w"
  by (simp add: watched_def beat_frame)

text \<open>One turn of the monitor tells the connection of a watched client to stop when and only when it is overdue.\<close>

lemma tick_stops_watched:
  assumes "watched c w" and "range_order (w_clients w) order" and "0 \<le> t" and "in_int64 t"
  obtains calls where "heartBeat_tick False t order w = w\<lparr>w_calls := w_calls w @ calls\<rparr>"
    and "CallStop (c_msc (deref w c)) \<in> set calls \<longleftrightarrow> \<not> millis t \<le> c_heartBeatTime (deref w c) + 3000"
proof (rule that [OF heartBeat_calls [OF assms(2-4), of False, simplified if_False]])
  let ?m = "w_clients w" and ?s = "CallStop (c_msc (deref w c))"
  let ?calls = "map (\<lambda>i. CallStop (c_msc (deref w (the (map_of ?m i))))) (filter (\<lambda>i. overdue t w (the (map_of ?m i))) order)"
  have d: "distinct (map fst ?m)" and uniq: "\<And>d. d \<in> snd ` set ?m \<Longrightarrow> c_msc (deref w d) = c_msc (deref w c) \<Longrightarrow> d = c"
    using assms(1) by (auto simp: watched_def)
  obtain u where u: "(u, c) \<in> set ?m" using assms(1) by (auto simp: watched_def)
  then have mu: "map_of ?m u = Some c" using d by simp
  have "the (map_of ?m i) \<in> snd ` set ?m" if "i \<in> set order" for i
  proof -
    have "map_of ?m i \<noteq> None" using that assms(2) by (simp add: range_order_def keys_of_conv)
    then obtain d where "map_of ?m i = Some d" by blast
    then show ?thesis by (force dest: map_of_SomeD)
  qed
  moreover have "u \<in> set order" using mu assms(2) by (simp add: range_order_def keys_of_conv)
  ultimately have "?s \<in> set ?calls \<longleftrightarrow> overdue t w c" using mu uniq by (auto simp: image_iff) (metis option.sel)
  then show "?s \<in> set ?calls \<longleftrightarrow> \<not> millis t \<le> c_heartBeatTime (deref w c) + 3000"
    using assms(1) by (auto simp: overdue_def watched_def)
qed

lemma heart_run_exact:
  assumes "watched c w" and "pulses_ok w es" and "c_heartBeatTime (deref w c) = heard"
  shows "CallStop (c_msc (deref w c)) \<in> set (w_calls (heart_run es w)) \<longleftrightarrow>
    CallStop (c_msc (deref w c)) \<in> set (w_calls w) \<or> \<not> beats_ok c heard es"
  using assms
proof (induction c heard es arbitrary: w rule: beats_ok.induct)
  case (2 c heard t d es)
  let ?w = "Client_heartBeat t d w"
  have "watched c ?w" "pulses_ok ?w es" "c_heartBeatTime (deref ?w c) = (if d = c then millis t else heard)"
    using 2(2-) by (auto simp: watched_beat pulses_ok_Cons beat_frame watched_def cong: pulses_ok_clients)
  from 2(1) [OF this] show ?case by (simp add: beat_frame)
next
  case (3 c heard t order es)
  then have "range_order (w_clients w) order" "0 \<le> t" "in_int64 t" by (simp_all add: pulses_ok_Cons)
  from tick_stops_watched [OF 3(2) this] obtain calls where
    tick: "heartBeat_tick False t order w = w\<lparr>w_calls := w_calls w @ calls\<rparr>" and
    stop: "CallStop (c_msc (deref w c)) \<in> set calls \<longleftrightarrow> \<not> millis t \<le> heard + 3000" using 3(4) by metis
  let ?w = "w\<lparr>w_calls := w_calls w @ calls\<rparr>"
  have "watched c ?w" "pulses_ok ?w es" "c_heartBeatTime (deref ?w c) = heard"
    using 3(2-) by (simp_all add: watched_def pulses_ok_def)
  from 3(1) [OF this] stop show ?case by (auto simp: tick)
qed simp

text \<open>
  C14: Over any schedule of heart beats and timer ticks the monitor tells the connection of a watched client to stop
  exactly when some tick finds the last heart beat more than three seconds old: a client that beats often enough is never
  stopped by it, and one that once does not is stopped by that very tick, whatever the other clients do.
\<close>

theorem monitor_exact:
  assumes "watched c w" and "pulses_ok w es" and "CallStop (c_msc (deref w c)) \<notin> set (w_calls w)"
  shows "CallStop (c_msc (deref w c)) \<in> set (w_calls (heart_run es w)) \<longleftrightarrow>
    \<not> beats_ok c (c_heartBeatTime (deref w c)) es"
  using heart_run_exact [OF assms(1,2) refl] assms(3) by simp

fun ticks :: "(int \<times> pulse) list \<Rightarrow> int list" where
  "ticks [] = []"
| "ticks ((t, Beat c) # es) = ticks es"
| "ticks ((t, Tick order) # es) = t # ticks es"

lemma ticks_iff: "t \<in> set (ticks es) \<longleftrightarrow> (\<exists>order. (t, Tick order) \<in> set es)"
  by (induction es rule: ticks.induct) auto

lemma silence_not_ok:
  assumes "(t, Tick order) \<in> set es" and "\<forall>s. (s, Beat c) \<notin> set es" and "heard + 3000 < millis t"
  shows "\<not> beats_ok c heard es"
  using assms by (induction c heard es rule: beats_ok.induct) auto

lemma takeWhile_until:
  "sorted (map fst es) \<Longrightarrow> (x, e) \<in> set es \<Longrightarrow> x \<le> b \<Longrightarrow> (x, e) \<in> set (takeWhile (\<lambda>(t, _). t \<le> (b :: int)) es)"
  by (induction es) force+

lemma millis_apart: "0 \<le> t0 \<Longrightarrow> t0 + 3001000000 \<le> t \<Longrightarrow> millis t0 + 3000 < millis t"
  by (simp add: millis_def sdiv_nonneg)

text \<open>
  C27: A watched client that falls silent is told to stop in time. If heart beats are enabled, the client is registered, speaks a protocol version of at
  least 100 and shares its connection with no other registered client, if its last heart beat was at \<open>t0\<close>, the monitor was running by
  \<open>3.001\<close> seconds after that and is still running then, and no turn of it takes longer than \<open>D\<close> nanoseconds, then its connection has been told to
  stop no later than \<open>4.001\<close> seconds and \<open>D\<close> after \<open>t0\<close>.
\<close>

theorem silent_client_stopped_in_time:
  assumes "watched c w" and "pulses_ok w es" and "sorted (map fst es)" and "\<forall>t. (t, Beat c) \<notin> set es"
    and "c_heartBeatTime (deref w c) = millis t0" and "0 \<le> t0"
    and "ticks es = turns initHeartBeat_next t1 ds" and "\<forall>d \<in> set ds. d \<le> D" and "0 \<le> D"
    and "t1 \<le> t0 + 3001000000" and "t0 + 3001000000 \<le> last (ticks es)"
  shows "CallStop (c_msc (deref w c)) \<in>
    set (w_calls (heart_run (takeWhile (\<lambda>(t, _). t \<le> t0 + 4001000000 + D) es) w))"
proof -
  let ?fs = "takeWhile (\<lambda>(t, _). t \<le> t0 + 4001000000 + D) es"
  obtain x where x: "x \<in> set (ticks es)" "t0 + 3001000000 \<le> x" "x \<le> t0 + 4001000000 + D"
    using heart.turn_soon [OF assms(10), of ds D] assms(7-9,11) by auto
  then obtain order where "(x, Tick order) \<in> set es" by (auto simp: ticks_iff)
  then have "(x, Tick order) \<in> set ?fs" by (rule takeWhile_until [OF assms(3) _ x(3)])
  moreover have "\<forall>s. (s, Beat c) \<notin> set ?fs" using assms(4) by (blast dest: set_takeWhileD)
  ultimately have "\<not> beats_ok c (millis t0) ?fs" by (rule silence_not_ok) (rule millis_apart [OF assms(6) x(2)])
  moreover have "pulses_ok w ?fs" using assms(2) by (auto simp: pulses_ok_def dest: set_takeWhileD)
  ultimately show ?thesis using heart_run_exact [OF assms(1) _ assms(5)] by simp
qed

section \<open>Witnesses\<close>

definition silent_client :: world where
  "silent_client = init_world\<lparr>w_heap := [(sample_client ''u'' 7)\<lparr>c_version := 100\<rparr>, sample_client ''v'' 8],
     w_clients := [(''u'', 0), (''v'', 1)]\<rparr>"

theorem heartBeat_closes_overdue_witness:
  "w_calls (heartBeat_tick False 5000000000 [''u'', ''v''] silent_client) = [CallStop 7]"
proof -
  have "range_order (w_clients silent_client) [''u'', ''v'']"
    by (simp add: silent_client_def range_order_def keys_of_def)
  from heartBeat_closes_overdue [OF this, of 5000000000 False] show ?thesis
    by (simp add: overdue_def millis_def silent_client_def deref_def init_world_def sample_client_def
        in_int64_def)
qed

theorem monitor_exact_witness:
  "CallStop 7 \<notin> set (w_calls (heart_run
      [(2000000000, Beat 0), (4000000000, Tick [''u'', ''v'']), (5000000000, Tick [''v'', ''u''])] silent_client)) \<and>
   CallStop 7 \<in> set (w_calls (heart_run
      [(2000000000, Beat 0), (4000000000, Tick [''u'', ''v'']), (6000000000, Tick [''v'', ''u''])] silent_client))"
proof -
  have w: "watched 0 silent_client" "c_msc (deref silent_client 0) = 7" "c_heartBeatTime (deref silent_client 0) = 0"
    "CallStop (c_msc (deref silent_client 0)) \<notin> set (w_calls silent_client)"
    by (auto simp: watched_def silent_client_def init_world_def deref_def sample_client_def)
  have "pulses_ok silent_client [(2000000000, Beat 0), (4000000000, Tick [''u'', ''v'']), (t, Tick [''v'', ''u''])]"
    if "t = 5000000000 \<or> t = 6000000000" for t
    using that by (auto simp: pulses_ok_def silent_client_def range_order_def keys_of_def in_int64_def)
  from monitor_exact [OF w(1) this w(4)] show ?thesis by (simp add: w(2,3) millis_def)
qed

theorem silent_client_stopped_in_time_witness:
  "CallStop 7 \<in> set (w_calls (heart_run
      [(2500000000, Tick [''u'', ''v'']), (3500000000, Tick [''u'', ''v''])] silent_client))"
proof -
  have w: "watched 0 silent_client" "c_msc (deref silent_client 0) = 7" "c_heartBeatTime (deref silent_client 0) = millis 0"
    by (auto simp: watched_def silent_client_def init_world_def deref_def sample_client_def millis_def)
  let ?es = "[(2500000000, Tick [''u'', ''v'']), (3500000000, Tick [''u'', ''v''])]"
  have "pulses_ok silent_client ?es"
    by (auto simp: pulses_ok_def silent_client_def range_order_def keys_of_def in_int64_def)
  from silent_client_stopped_in_time [OF w(1) this _ _ w(3), of 2500000000 "[0]" 0]
  show ?thesis by (simp add: w(2) initHeartBeat_next_def timer_next_def)
qed

end
