(* ===== verification/Plain_Rpc.thy ===== *)
theory Plain_Rpc
  imports Message_Queue Token
begin

text \<open>
  \<^verbatim>\<open>plainrpc.go\<close>: the connection to the compute servers. Drained messages are encoded,
  compressed and sent as one length-prefixed frame; a failed send is tried again, three times in
  all; a discovery task keeps the list of servers.

  \<^item> The methods have value receivers: they work on a copy of the struct \<^verbatim>\<open>rpc\<close>. The
    address list and the counter in it are copied, the map of connections is shared. So the
    struct (\<open>rpc\<close>) is an argument of the methods, and the shared part (\<open>upstream\<close>) is threaded
    through them.
  \<^item> The network is a parameter (\<open>net\<close>): how dialling and writing turn out, given everything
    that happened before. What happened is recorded in \<open>up_net\<close>.
  \<^item> The protocol-buffer encoder and the compressor are parameters.
\<close>

unbundle bit_operations_syntax

section \<open>Data\<close>

type_synonym sock = nat

datatype net_event =
    Dialed string "sock result"
  | Wrote sock bytes "err option"
  | Closed sock

record net =
  net_Dial :: "net_event list \<Rightarrow> string \<Rightarrow> sock result"
  net_Write :: "net_event list \<Rightarrow> sock \<Rightarrow> bytes \<Rightarrow> err option"

record rpc =
  rpc_availableAddresses :: "string list"
  rpc_callCounter :: "64 word"

record upstream =
  up_connectionMap :: "(string, sock) gomap"
  up_net :: "net_event list"

record rpc_state =
  rs_rpc :: rpc
  rs_upstream :: upstream

definition rpcClient :: rpc_state where
  "rpcClient = \<lparr>rs_rpc = \<lparr>rpc_availableAddresses = [], rpc_callCounter = 0\<rparr>,
     rs_upstream = \<lparr>up_connectionMap = [], up_net = []\<rparr>\<rparr>"

record computeServerInfo =
  cs_RegisterTime :: int

definition computeServerInfo_schema :: "computeServerInfo schema" where
  "computeServerInfo_schema = [(''registerTime'', dec_int (\<lambda>n. cs_RegisterTime_update (\<lambda>_. n)))]"

section \<open>Sending\<close>

definition log_net :: "net_event \<Rightarrow> upstream \<Rightarrow> upstream" where
  "log_net e u = u\<lparr>up_net := up_net u @ [e]\<rparr>"

definition drop_address :: "string \<Rightarrow> upstream \<Rightarrow> upstream" where
  "drop_address address u = u\<lparr>up_connectionMap := AList.delete address (up_connectionMap u)\<rparr>"

text \<open>The connection of an address, dialled when there is none.\<close>

definition get_conn :: "net \<Rightarrow> string \<Rightarrow> upstream \<Rightarrow> upstream \<times> sock result" where
  "get_conn net address u =
     (case map_of (up_connectionMap u) address of
        Some conn \<Rightarrow> (u, Inr conn)
      | None \<Rightarrow>
          (let u = drop_address address u;
               r = net_Dial net (up_net u) address;
               u = log_net (Dialed address r) u
           in case r of
                Inl err \<Rightarrow> (drop_address address u, Inl err)
              | Inr conn \<Rightarrow>
                  (u\<lparr>up_connectionMap := AList.update address conn (up_connectionMap u)\<rparr>, Inr conn)))"

text \<open>\<^verbatim>\<open>conn.Write\<close>; on an error the connection is closed and forgotten.\<close>

definition write_conn :: "net \<Rightarrow> string \<Rightarrow> sock \<Rightarrow> bytes \<Rightarrow> upstream \<Rightarrow> upstream \<times> err option" where
  "write_conn net address conn data u =
     (let err = net_Write net (up_net u) conn data;
          u = log_net (Wrote conn data err) u
      in case err of
           None \<Rightarrow> (u, None)
         | Some e \<Rightarrow> (drop_address address (log_net (Closed conn) u), Some e))"

definition lengthBytes :: "int \<Rightarrow> bytes" where
  "lengthBytes len =
     [word_of_int (drop_bit 24 len AND 0xFF), word_of_int (drop_bit 16 len AND 0xFF),
      word_of_int (drop_bit 8 len AND 0xFF), word_of_int (len AND 0xFF)]"

text \<open>The second half of \<^verbatim>\<open>send\<close>, once the address is chosen.\<close>

definition send_to :: "net \<Rightarrow> string \<Rightarrow> bytes \<Rightarrow> upstream \<Rightarrow> upstream \<times> err option" where
  "send_to net address bytes u =
     (case get_conn net address u of
        (u, Inl err) \<Rightarrow> (u, Some err)
      | (u, Inr conn) \<Rightarrow>
          (case write_conn net address conn (lengthBytes (int (length bytes))) u of
             (u, Some err) \<Rightarrow> (u, Some err)
           | (u, None) \<Rightarrow> write_conn net address conn bytes u))"

definition rpc_send :: "net \<Rightarrow> rpc \<Rightarrow> bytes \<Rightarrow> upstream \<Rightarrow> upstream \<times> err option may_panic" where
  "rpc_send net rpc bytes u =
     (let rpc = rpc\<lparr>rpc_callCounter := rpc_callCounter rpc + 1\<rparr>;
          n = length (rpc_availableAddresses rpc)
      in if n = 0 then (u, Inl DivideByZero)
         else
           (let address = rpc_availableAddresses rpc ! (unat (rpc_callCounter rpc) mod n);
                (u, err) = send_to net address bytes u
            in (u, Inr err)))"

text \<open>\<open>n\<close> attempts.\<close>

fun rpc_trySend :: "net \<Rightarrow> rpc \<Rightarrow> bytes \<Rightarrow> nat \<Rightarrow> upstream \<Rightarrow> upstream \<times> bool may_panic" where
  "rpc_trySend net rpc compressedBytes 0 u = (u, Inr False)"
| "rpc_trySend net rpc compressedBytes (Suc n) u =
     (case rpc_send net rpc compressedBytes u of
        (u, Inl p) \<Rightarrow> (u, Inl p)
      | (u, Inr None) \<Rightarrow> (u, Inr True)
      | (u, Inr (Some err)) \<Rightarrow> rpc_trySend net rpc compressedBytes n u)"

text \<open>The result of \<^verbatim>\<open>deliver\<close> is only logged: whether the batch was sent. An encoder error
  is ignored and whatever it returned is sent.\<close>

definition rpc_deliver ::
  "net \<Rightarrow> (FromConnectorMessage list \<Rightarrow> bytes \<times> err option) \<Rightarrow> (bytes \<Rightarrow> bytes) \<Rightarrow> rpc \<Rightarrow>
   FromConnectorMessage list \<Rightarrow> upstream \<Rightarrow> upstream \<times> bool may_panic" where
  "rpc_deliver net pmarshal zlib rpc list u =
     (if length list > 0 then
        (let (bytes, _) = pmarshal list;
             compressedBytes = zlib bytes
         in rpc_trySend net rpc compressedBytes 3 u)
      else (u, Inr True))"

section \<open>Discovery\<close>

definition fresh_server :: "int \<Rightarrow> string \<Rightarrow> bool" where
  "fresh_server from serverInfoText =
     (case json_Unmarshal computeServerInfo_schema (string_bytes serverInfoText) \<lparr>cs_RegisterTime = 0\<rparr> of
        (serverInfo, Some err) \<Rightarrow> False
      | (serverInfo, None) \<Rightarrow> cs_RegisterTime serverInfo \<ge> from)"

definition availableAddresses ::
  "int \<Rightarrow> (string, string) gomap \<Rightarrow> string list \<Rightarrow> string list" where
  "availableAddresses from result order =
     (let found = range_loop (\<lambda>address text acc. if fresh_server from text then acc @ [address] else acc)
                    result order []
      in if length found = 0 then found else sort found)"

definition close_vanished :: "(string, string) gomap \<Rightarrow> string list \<Rightarrow> upstream \<Rightarrow> upstream" where
  "close_vanished result order u =
     range_loop (\<lambda>address c v. if map_of result address = None then log_net (Closed c) v else v)
       (up_connectionMap u) order u"

text \<open>One run of the discovery function: \<open>nanos\<close> the clock, \<open>reply\<close> what redis answered,
  \<open>order\<close> and \<open>connOrder\<close> the visiting orders of the two maps.\<close>

definition rpc_discovery ::
  "int \<Rightarrow> (string, string) gomap result \<Rightarrow> string list \<Rightarrow> string list \<Rightarrow>
   rpc_state \<Rightarrow> rpc_state" where
  "rpc_discovery nanos reply order connOrder s =
     (case reply of
        Inl err \<Rightarrow> s
      | Inr result \<Rightarrow>
          (let from = wrap64 (nanos sdiv 1000000 - 1 * 2000)
           in s\<lparr>rs_rpc := (rs_rpc s)\<lparr>rpc_availableAddresses := availableAddresses from result order\<rparr>,
                rs_upstream := close_vanished result connOrder (rs_upstream s)\<rparr>))"

section \<open>Frames\<close>

text \<open>What a reader at the other end makes of the byte stream.\<close>

definition frame :: "bytes \<Rightarrow> bytes" where
  "frame body = lengthBytes (int (length body)) @ body"

definition be_val :: "bytes \<Rightarrow> nat" where
  "be_val bs = foldl (\<lambda>a b. a * 256 + unat b) 0 bs"

function read_frames :: "bytes \<Rightarrow> bytes list option" where
  "read_frames bs =
     (if bs = [] then Some []
      else if length bs < 4 then None
      else
        (let n = be_val (take 4 bs); rest = drop 4 bs
         in if length rest < n then None
            else map_option (Cons (take n rest)) (read_frames (drop n rest))))"
  by auto
termination by (relation "measure length") auto

declare read_frames.simps [simp del]

lemma read_frames_Nil [simp]: "read_frames [] = Some []"
  by (simp add: read_frames.simps)

lemma unat_byte: "0 \<le> x \<Longrightarrow> unat (word_of_int (x AND 0xFF) :: byte) = nat (x mod 256)"
proof -
  have "x AND 0xFF = take_bit 8 x" by (simp add: take_bit_eq_mask mask_eq_exp_minus_1)
  then show ?thesis by (simp add: take_bit_eq_mod unat_eq_nat_uint uint_word_of_int)
qed

lemma be_val_lengthBytes:
  assumes "l < 4294967296"
  shows "be_val (lengthBytes (int l)) = l"
proof -
  have "drop_bit k (int l) = int (l div 2 ^ k)" for k by (simp add: drop_bit_eq_div zdiv_int)
  then have "be_val (lengthBytes (int l)) =
      ((l div 16777216 mod 256 * 256 + l div 65536 mod 256) * 256 + l div 256 mod 256) * 256 + l mod 256"
    by (simp add: be_val_def lengthBytes_def unat_byte nat_mod_distrib)
  also have "l div 16777216 mod 256 = l div 65536 div 256"
    using assms by (simp add: div_mult2_eq [symmetric] less_mult_imp_div_less)
  also have "l div 65536 div 256 * 256 + l div 65536 mod 256 = l div 65536" by simp
  also have "l div 65536 = l div 256 div 256" by (simp add: div_mult2_eq [symmetric])
  also have "l div 256 div 256 * 256 + l div 256 mod 256 = l div 256" by simp
  also have "l div 256 * 256 + l mod 256 = l" by simp
  finally show ?thesis .
qed

lemma length_lengthBytes [simp]: "length (lengthBytes l) = 4"
  by (simp add: lengthBytes_def)

lemma read_frames_frame:
  assumes "length body < 4294967296"
  shows "read_frames (frame body @ rest) = map_option (Cons body) (read_frames rest)"
proof -
  have "frame body @ rest \<noteq> []" by (simp add: frame_def lengthBytes_def)
  then show ?thesis
    using assms by (subst read_frames.simps) (simp add: frame_def be_val_lengthBytes Let_def)
qed

lemma read_frames_concat:
  "(\<And>b. b \<in> set bodies \<Longrightarrow> length b < 4294967296) \<Longrightarrow>
   read_frames (concat (map frame bodies)) = Some bodies"
  by (induction bodies) (simp_all add: read_frames_frame)

section \<open>Streams stay in sync\<close>

definition stream :: "sock \<Rightarrow> net_event list \<Rightarrow> bytes" where
  "stream c es = concat (map (\<lambda>e. case e of Wrote d b None \<Rightarrow> if d = c then b else [] | _ \<Rightarrow> []) es)"

fun event_sock :: "net_event \<Rightarrow> sock option" where
  "event_sock (Dialed a (Inr c)) = Some c"
| "event_sock (Dialed a (Inl e)) = None"
| "event_sock (Wrote c b e) = Some c"
| "event_sock (Closed c) = Some c"

definition socks :: "net_event list \<Rightarrow> sock set" where
  "socks es = {c. Some c \<in> event_sock ` set es}"

text \<open>What the code relies on: dialling makes a new connection.\<close>

definition net_fresh :: "net \<Rightarrow> bool" where
  "net_fresh net \<longleftrightarrow> (\<forall>es a c. net_Dial net es a = Inr c \<longrightarrow> c \<notin> socks es)"

definition in_sync :: "sock \<Rightarrow> net_event list \<Rightarrow> bool" where
  "in_sync c es \<longleftrightarrow>
     (\<exists>bodies. (\<forall>b \<in> set bodies. length b < 4294967296) \<and> stream c es = concat (map frame bodies))"

text \<open>Connections belong to one address; all but those of the addresses in \<open>except\<close> are at a
  frame boundary.\<close>

definition upstream_ok :: "string set \<Rightarrow> upstream \<Rightarrow> bool" where
  "upstream_ok except u \<longleftrightarrow>
     (\<forall>a c. map_of (up_connectionMap u) a = Some c \<longrightarrow>
        c \<in> socks (up_net u) \<and> (a \<notin> except \<longrightarrow> in_sync c (up_net u)) \<and>
        (\<forall>b. map_of (up_connectionMap u) b = Some c \<longrightarrow> b = a))"

lemma stream_snoc [simp]:
  "stream c (es @ [e]) = stream c es @
     (case e of Wrote d b None \<Rightarrow> if d = c then b else [] | _ \<Rightarrow> [])"
  by (simp add: stream_def)

lemma socks_snoc [simp]: "socks (es @ [e]) = socks es \<union> {c. event_sock e = Some c}"
  by (auto simp: socks_def)

lemma stream_unused:
  assumes "c \<notin> socks es"
  shows "stream c es = []"
proof -
  have "(case e of Wrote d b None \<Rightarrow> if d = c then b else [] | _ \<Rightarrow> []) = []" if "e \<in> set es" for e
    using that assms by (force simp: socks_def image_iff split: net_event.split option.split)
  then show ?thesis by (simp add: stream_def)
qed

lemma in_sync_unused: "c \<notin> socks es \<Longrightarrow> in_sync c es"
  unfolding in_sync_def by (intro exI [of _ "[]"]) (simp add: stream_unused)

lemma in_sync_read: "in_sync c es \<Longrightarrow> \<exists>bodies. read_frames (stream c es) = Some bodies"
  unfolding in_sync_def using read_frames_concat by metis

lemma in_sync_snoc:
  "(case e of Wrote d b None \<Rightarrow> d \<noteq> c | _ \<Rightarrow> True) \<Longrightarrow> in_sync c (es @ [e]) = in_sync c es"
  by (auto simp: in_sync_def split: net_event.splits option.splits)

lemma in_sync_frame:
  assumes "in_sync c es" and "length body < 4294967296"
    and "stream c es' = stream c es @ frame body"
  shows "in_sync c es'"
proof -
  obtain bodies where "\<forall>b \<in> set bodies. length b < 4294967296" "stream c es = concat (map frame bodies)"
    using assms(1) unfolding in_sync_def by blast
  with assms(2,3) show ?thesis unfolding in_sync_def by (intro exI [of _ "bodies @ [body]"]) auto
qed

lemma upstream_ok_drop: "upstream_ok {a} u \<Longrightarrow> upstream_ok {} (drop_address a u)"
  by (auto simp: upstream_ok_def drop_address_def gomap_simps split: if_splits)

lemma upstream_ok_weaken: "upstream_ok {} u \<Longrightarrow> upstream_ok A u"
  by (auto simp: upstream_ok_def)

lemma upstream_ok_close [simp]: "upstream_ok A (log_net (Closed c) u) = upstream_ok A u"
  if "c \<in> socks (up_net u)"
  using that by (auto simp: upstream_ok_def log_net_def in_sync_snoc insert_absorb)

lemma upstream_ok_resync:
  assumes "upstream_ok {a} u" and "map_of (up_connectionMap u) a = Some c" and "in_sync c (up_net u)"
  shows "upstream_ok {} u"
proof -
  have "in_sync d (up_net u)" if "map_of (up_connectionMap u) b = Some d" for b d
    using that assms by (cases "b = a") (auto simp: upstream_ok_def)
  with assms(1) show ?thesis by (simp add: upstream_ok_def)
qed

lemma get_conn_ok:
  assumes "net_fresh net" and "upstream_ok {} u" and "get_conn net a u = (u', r)"
  shows "upstream_ok {} u'" and "r = Inr c \<Longrightarrow> map_of (up_connectionMap u') a = Some c"
proof -
  show "r = Inr c \<Longrightarrow> map_of (up_connectionMap u') a = Some c"
    using assms(3) by (auto simp: get_conn_def Let_def gomap_simps split: option.splits sum.splits)
  show "upstream_ok {} u'"
  proof (cases "map_of (up_connectionMap u) a")
    case None
    let ?r = "net_Dial net (up_net u) a"
    have "c \<notin> socks (up_net u)" if "?r = Inr c" for c using assms(1) that by (auto simp: net_fresh_def)
    then show ?thesis
    proof (cases ?r)
      case (Inr c)
      with \<open>\<And>c. ?r = Inr c \<Longrightarrow> c \<notin> socks (up_net u)\<close> have "c \<notin> socks (up_net u)" by blast
      moreover have "u' = u\<lparr>up_net := up_net u @ [Dialed a (Inr c)],
          up_connectionMap := AList.update a c (AList.delete a (up_connectionMap u))\<rparr>"
        using assms(3) None by (auto simp: get_conn_def Let_def drop_address_def log_net_def Inr)
      ultimately show ?thesis
        using assms(2) None
        by (auto simp: upstream_ok_def gomap_simps in_sync_snoc in_sync_unused split: if_splits)
    qed (use assms(2,3) None in \<open>auto simp: get_conn_def Let_def upstream_ok_def drop_address_def
          log_net_def gomap_simps in_sync_snoc split: if_splits\<close>)
  qed (use assms in \<open>simp add: get_conn_def\<close>)
qed

text \<open>Writing to the connection of an address leaves the others alone; a failed write drops the
  address.\<close>

lemma write_conn_ok:
  assumes "upstream_ok {a} u" and "map_of (up_connectionMap u) a = Some c"
    and "write_conn net a c data u = (u', r)"
  shows "r \<noteq> None \<Longrightarrow> upstream_ok {} u'" and "r = None \<Longrightarrow> upstream_ok {a} u'"
    and "r = None \<Longrightarrow> u' = log_net (Wrote c data None) u"
proof -
  have c: "c \<in> socks (up_net u)" and other: "map_of (up_connectionMap u) b = Some c \<Longrightarrow> b = a" for b
    using assms(1,2) by (auto simp: upstream_ok_def)
  have wrote: "upstream_ok {a} (log_net (Wrote c data e) u)" for e
  proof -
    have "in_sync d (up_net u @ [Wrote c data e]) = in_sync d (up_net u)" if "d \<noteq> c" for d
      using that by (intro in_sync_snoc) (auto split: option.split)
    then have "in_sync d (up_net u @ [Wrote c data e])"
      if "map_of (up_connectionMap u) b = Some d" and "b \<noteq> a" for b d
      using that assms(1) other [of b] by (cases "d = c") (auto simp: upstream_ok_def)
    with assms(1) c other show ?thesis
      unfolding upstream_ok_def log_net_def by (auto simp: insert_absorb)
  qed
  show "r \<noteq> None \<Longrightarrow> upstream_ok {} u'"
    using assms(3) wrote c
    by (auto simp: write_conn_def Let_def log_net_def [of "Wrote _ _ _"] split: option.splits
        intro!: upstream_ok_drop)
  show "r = None \<Longrightarrow> upstream_ok {a} u'" and "r = None \<Longrightarrow> u' = log_net (Wrote c data None) u"
    using assms(3) wrote by (auto simp: write_conn_def Let_def split: option.splits)
qed

lemma send_to_ok:
  assumes "net_fresh net" and "upstream_ok {} u" and "length bytes < 4294967296"
    and "send_to net a bytes u = (u', r)"
  shows "upstream_ok {} u'"
proof -
  obtain u1 q where g: "get_conn net a u = (u1, q)" by fastforce
  note ok1 = get_conn_ok [OF assms(1,2) g]
  show ?thesis
  proof (cases q)
    case (Inl e)
    with assms(4) g ok1 show ?thesis by (simp add: send_to_def)
  next
    case (Inr c)
    note m1 = ok1(2) [OF Inr]
    obtain u2 e2 where w2: "write_conn net a c (lengthBytes (int (length bytes))) u1 = (u2, e2)" by fastforce
    note ok2 = write_conn_ok [OF upstream_ok_weaken [OF ok1(1)] m1 w2]
    show ?thesis
    proof (cases e2)
      case (Some e)
      with assms(4) g Inr w2 ok2(1) show ?thesis by (auto simp: send_to_def)
    next
      case None
      then have m2: "map_of (up_connectionMap u2) a = Some c" using ok2(3) m1 by (simp add: log_net_def)
      have w3: "write_conn net a c bytes u2 = (u', r)" using assms(4) g Inr w2 None by (simp add: send_to_def)
      note ok3 = write_conn_ok [OF ok2(2) [OF None] m2 w3]
      show ?thesis
      proof (cases r)
        case r: None
        have "up_net u' = up_net u1 @ [Wrote c (lengthBytes (int (length bytes))) None, Wrote c bytes None]"
          and m3: "up_connectionMap u' = up_connectionMap u1"
          using ok2(3) [OF None] ok3(3) [OF r] by (simp_all add: log_net_def)
        then have "stream c (up_net u') = stream c (up_net u1) @ frame bytes"
          by (simp add: stream_def frame_def)
        moreover have "in_sync c (up_net u1)" using ok1(1) m1 by (simp add: upstream_ok_def)
        ultimately have "in_sync c (up_net u')" using in_sync_frame assms(3) by blast
        with ok3(2) [OF r] m1 m3 show ?thesis by (auto intro: upstream_ok_resync)
      qed (use ok3(1) in simp)
    qed
  qed
qed

lemma rpc_send_ok:
  assumes "net_fresh net" and "upstream_ok {} u" and "length bytes < 4294967296"
    and "rpc_send net rpc bytes u = (u', r)"
  shows "upstream_ok {} u'"
  using assms send_to_ok [OF assms(1-3)]
  by (auto simp: rpc_send_def Let_def split: if_splits prod.splits)

lemma rpc_trySend_ok:
  "net_fresh net \<Longrightarrow> upstream_ok {} u \<Longrightarrow> length bytes < 4294967296 \<Longrightarrow>
   rpc_trySend net rpc bytes n u = (u', r) \<Longrightarrow> upstream_ok {} u'"
proof (induction n arbitrary: u)
  case (Suc n)
  obtain u1 q where "rpc_send net rpc bytes u = (u1, q)" by fastforce
  with Suc rpc_send_ok [of net u bytes rpc] show ?case by (auto split: sum.splits option.splits)
qed auto

lemma close_vanished_ok:
  assumes "upstream_ok {} u"
  shows "upstream_ok {} (close_vanished result order u)"
    and "up_connectionMap (close_vanished result order u) = up_connectionMap u"
proof -
  let ?body = "\<lambda>address c v. if map_of result address = None then log_net (Closed c) v else v"
  have "upstream_ok {} (range_loop ?body (up_connectionMap u) ks v) \<and>
      up_connectionMap (range_loop ?body (up_connectionMap u) ks v) = up_connectionMap v"
    if "upstream_ok {} v" and "up_connectionMap v = up_connectionMap u" for ks v
    using that
  proof (induction ks arbitrary: v)
    case (Cons k ks)
    show ?case
    proof (cases "map_of (up_connectionMap u) k")
      case (Some c)
      with Cons.prems have "c \<in> socks (up_net v)" by (simp add: upstream_ok_def)
      then have "upstream_ok {} (log_net (Closed c) v)"
        and "up_connectionMap (log_net (Closed c) v) = up_connectionMap u"
        using Cons.prems by (simp, simp add: log_net_def)
      with Cons Some show ?thesis by simp
    qed (use Cons in simp)
  qed simp
  from this [OF assms refl] show "upstream_ok {} (close_vanished result order u)"
    and "up_connectionMap (close_vanished result order u) = up_connectionMap u"
    by (simp_all add: close_vanished_def)
qed

inductive rpc_step ::
  "net \<Rightarrow> (FromConnectorMessage list \<Rightarrow> bytes \<times> err option) \<Rightarrow> (bytes \<Rightarrow> bytes) \<Rightarrow>
   rpc_state \<Rightarrow> rpc_state \<Rightarrow> bool"
  for net pmarshal zlib where
  delivered: "length (zlib (fst (pmarshal list))) < 4294967296 \<Longrightarrow>
    rpc_deliver net pmarshal zlib (rs_rpc s) list (rs_upstream s) = (u, r) \<Longrightarrow>
    rpc_step net pmarshal zlib s (s\<lparr>rs_upstream := u\<rparr>)"
| discovered: "rpc_step net pmarshal zlib s (rpc_discovery nanos reply order connOrder s)"

definition rpc_ok :: "net \<Rightarrow> rpc_state \<Rightarrow> bool" where
  "rpc_ok net s \<longleftrightarrow> rpc_callCounter (rs_rpc s) = 0 \<and> (net_fresh net \<longrightarrow> upstream_ok {} (rs_upstream s))"

lemma rpc_step_ok: "rpc_step net pm zl s t \<Longrightarrow> rpc_ok net s \<Longrightarrow> rpc_ok net t"
proof (induction rule: rpc_step.induct)
  case (delivered list s u r)
  then show ?case
    using rpc_trySend_ok [of net "rs_upstream s"]
    by (auto simp: rpc_ok_def rpc_deliver_def Let_def split: if_splits prod.splits)
next
  case (discovered s nanos reply order connOrder)
  then show ?case
    by (auto simp: rpc_ok_def rpc_discovery_def Let_def close_vanished_ok split: sum.splits)
qed

interpretation up: inductive_invariant "\<lambda>s. s = rpcClient" "rpc_step net pm zl" "rpc_ok net" for net pm zl
proof unfold_locales
  show "s = rpcClient \<Longrightarrow> rpc_ok net s" for s
    by (simp add: rpc_ok_def rpcClient_def upstream_ok_def)
qed (rule rpc_step_ok)

section \<open>Correctness\<close>

text \<open>
  C10: However deliveries, failures, retries and discovery runs alternate, what was written to
  every connection the connector holds is a sequence of complete frames, which a reader decodes:
  a connection on which a frame was only partly written is never used again. Assumed are that
  dialling makes a new connection and that batches compress to less than 4 GiB.
\<close>

theorem rpc_streams_in_sync:
  assumes "reachable (\<lambda>s. s = rpcClient) (rpc_step net pm zl) s" and "net_fresh net"
    and "map_of (up_connectionMap (rs_upstream s)) a = Some c"
  shows "\<exists>bodies. read_frames (stream c (up_net (rs_upstream s))) = Some bodies"
  using up.reachable_inv [OF assms(1)] assms(2,3) in_sync_read
  by (auto simp: rpc_ok_def upstream_ok_def)

subsection \<open>Which server is used\<close>

definition only_address :: "string \<Rightarrow> upstream \<Rightarrow> upstream \<Rightarrow> bool" where
  "only_address a u u' \<longleftrightarrow>
     (\<exists>es. up_net u' = up_net u @ es \<and> (\<forall>b q. Dialed b q \<in> set es \<longrightarrow> b = a)) \<and>
     (\<forall>b. b \<noteq> a \<longrightarrow> map_of (up_connectionMap u') b = map_of (up_connectionMap u) b)"

lemma only_address_refl [simp]: "only_address a u u"
  by (simp add: only_address_def)

lemma only_address_trans: "only_address a u v \<Longrightarrow> only_address a v w \<Longrightarrow> only_address a u w"
  unfolding only_address_def by auto blast+

lemma only_address_log:
  "(\<And>b q. e = Dialed b q \<Longrightarrow> b = a) \<Longrightarrow> only_address a u (log_net e u)"
  by (auto simp: only_address_def log_net_def)

lemma only_address_drop: "only_address a u (drop_address a u)"
  by (auto simp: only_address_def drop_address_def gomap_simps)

lemma only_address_update:
  "only_address a u (u\<lparr>up_connectionMap := AList.update a c (up_connectionMap u)\<rparr>)"
  by (auto simp: only_address_def gomap_simps)

lemma get_conn_only: "get_conn net a u = (u', r) \<Longrightarrow> only_address a u u'"
  by (auto simp: get_conn_def Let_def split: option.splits sum.splits
      intro!: only_address_drop only_address_log
      intro: only_address_trans [OF only_address_trans [OF only_address_drop only_address_log] only_address_drop]
        only_address_trans [OF only_address_trans [OF only_address_drop only_address_log] only_address_update])

lemma write_conn_only: "write_conn net a c data u = (u', r) \<Longrightarrow> only_address a u u'"
  by (auto simp: write_conn_def Let_def split: option.splits
      intro: only_address_log only_address_trans
        [OF only_address_trans [OF only_address_log only_address_log] only_address_drop])

lemma send_to_only: "send_to net a bytes u = (u', r) \<Longrightarrow> only_address a u u'"
  unfolding send_to_def
  by (auto split: prod.splits sum.splits option.splits
      dest!: get_conn_only write_conn_only intro: only_address_trans)

lemma trySend_only:
  "rpc_availableAddresses rpc \<noteq> [] \<Longrightarrow> rpc_callCounter rpc = 0 \<Longrightarrow>
   rpc_trySend net rpc bytes n u = (u', r) \<Longrightarrow>
   only_address (rpc_availableAddresses rpc ! (1 mod length (rpc_availableAddresses rpc))) u u' \<and>
   (\<exists>b. r = Inr b)"
proof (induction n arbitrary: u)
  case (Suc n)
  let ?a = "rpc_availableAddresses rpc ! (1 mod length (rpc_availableAddresses rpc))"
  obtain v e where v: "send_to net ?a bytes u = (v, e)" by fastforce
  then have "rpc_send net rpc bytes u = (v, Inr e)" using Suc.prems by (simp add: rpc_send_def)
  with Suc send_to_only [OF v] show ?case
    by (auto split: option.splits intro: only_address_trans)
qed auto

text \<open>
  The load is not spread over the compute servers: \<^verbatim>\<open>send\<close> counts its calls in a copy of
  the struct, so in every reachable state the shared counter is still zero and a delivery dials
  and uses only the second address of the sorted list (the first, when there is one address),
  whatever came before and however often it is tried again.
\<close>

theorem deliver_uses_one_server:
  assumes "reachable (\<lambda>s. s = rpcClient) (rpc_step net pm zl) s"
    and "rpc_availableAddresses (rs_rpc s) = addresses" and "addresses \<noteq> []"
    and "rpc_deliver net pm zl (rs_rpc s) msgs (rs_upstream s) = (u, r)"
  shows "only_address (addresses ! (1 mod length addresses)) (rs_upstream s) u \<and> (\<exists>b. r = Inr b)"
proof -
  have "rpc_callCounter (rs_rpc s) = 0" using up.reachable_inv [OF assms(1)] by (simp add: rpc_ok_def)
  with assms show ?thesis
    using trySend_only [of "rs_rpc s" net _ 3 "rs_upstream s" u r]
    by (auto simp: rpc_deliver_def Let_def split: if_splits prod.splits)
qed

text \<open>
  With no compute server known, delivering a non-empty batch panics with a division by zero
  before anything is dialled or written.
\<close>

theorem deliver_without_servers:
  assumes "rpc_availableAddresses rpc = []" and "msgs \<noteq> []"
  shows "rpc_deliver net pm zl rpc msgs u = (u, Inl DivideByZero)"
  using assms by (auto simp: rpc_deliver_def rpc_send_def Let_def numeral_3_eq_3 split: prod.split)

text \<open>
  A connection that has died is replaced: when writes to the remembered connection fail and a
  newly dialled one works, the frame is sent at the second attempt, the dead connection is closed
  and the new one remembered in its place.
\<close>

theorem trySend_replaces_dead_connection:
  assumes "rpc_availableAddresses rpc = addresses" and "addresses \<noteq> []" and "rpc_callCounter rpc = 0"
    and "a = addresses ! (1 mod length addresses)"
    and "map_of (up_connectionMap u) a = Some c" and "\<And>es. net_Write net es c (lengthBytes (int (length bytes))) = Some e"
    and "\<And>es. net_Dial net es a = Inr c'" and "\<And>es b. net_Write net es c' b = None"
  shows "\<exists>u'. rpc_trySend net rpc bytes 3 u = (u', Inr True) \<and>
    up_net u' = up_net u @ [Wrote c (lengthBytes (int (length bytes))) (Some e), Closed c,
      Dialed a (Inr c'), Wrote c' (lengthBytes (int (length bytes))) None, Wrote c' bytes None] \<and>
    map_of (up_connectionMap u') a = Some c'"
proof -
  let ?d = "drop_address a (log_net (Closed c) (log_net (Wrote c (lengthBytes (int (length bytes))) (Some e)) u))"
  have send: "rpc_send net rpc bytes v = (let (v, err) = send_to net a bytes v in (v, Inr err))" for v
    using assms(1-4) by (simp add: rpc_send_def)
  have first: "send_to net a bytes u = (?d, Some e)"
    by (simp add: send_to_def get_conn_def assms(5) write_conn_def assms(6) Let_def)
  have "map_of (up_connectionMap ?d) a = None" by (simp add: drop_address_def gomap_simps)
  then have "\<exists>v. send_to net a bytes ?d = (v, None) \<and> up_net v = up_net ?d @
      [Dialed a (Inr c'), Wrote c' (lengthBytes (int (length bytes))) None, Wrote c' bytes None] \<and>
      map_of (up_connectionMap v) a = Some c'"
    by (simp add: send_to_def get_conn_def write_conn_def assms(7,8) Let_def log_net_def
        drop_address_def gomap_simps)
  then obtain v where "send_to net a bytes ?d = (v, None)" and net: "up_net v = up_net ?d @
      [Dialed a (Inr c'), Wrote c' (lengthBytes (int (length bytes))) None, Wrote c' bytes None]"
    and map: "map_of (up_connectionMap v) a = Some c'" by blast
  with first have "rpc_trySend net rpc bytes 3 u = (v, Inr True)" by (simp add: numeral_3_eq_3 send)
  with net map show ?thesis by (simp add: log_net_def drop_address_def)
qed

subsection \<open>Discovery\<close>

lemma found_filter:
  "set ks \<subseteq> keys_of m \<Longrightarrow>
   range_loop (\<lambda>a t acc. if P t then acc @ [a] else acc) m ks acc = acc @ filter (\<lambda>a. P (the (map_of m a))) ks"
  by (induction ks arbitrary: acc) (auto simp: keys_of_conv split: option.splits)

definition live_servers ::
  "int \<Rightarrow> (string, string) gomap \<Rightarrow> string set" where
  "live_servers from result = {a. \<exists>t. map_of result a = Some t \<and> fresh_server from t}"

lemma availableAddresses_eq:
  assumes "range_order result order"
  shows "availableAddresses from result order = sorted_list_of_set (live_servers from result)"
proof -
  let ?P = "\<lambda>a. fresh_server from (the (map_of result a))"
  have keys: "set order = keys_of result" and dist: "distinct order"
    using assms by (auto simp: range_order_def)
  have "availableAddresses from result order = sort (filter ?P order)"
    using keys by (simp add: availableAddresses_def found_filter Let_def)
  also have "\<dots> = sorted_list_of_set (set (filter ?P order))"
    using dist by (simp only: sorted_list_of_set_sort_remdups distinct_remdups_id distinct_filter)
  also have "set (filter ?P order) = live_servers from result"
    using keys by (auto simp: live_servers_def keys_of_conv)
  finally show ?thesis .
qed

lemma close_vanished_net:
  "set ks \<subseteq> keys_of m \<Longrightarrow>
   range_loop (\<lambda>a c v. if map_of result a = None then log_net (Closed c) v else v) m ks u =
     u\<lparr>up_net := up_net u @ map (\<lambda>a. Closed (the (map_of m a))) (filter (\<lambda>a. map_of result a = None) ks)\<rparr>"
  by (induction ks arbitrary: u) (auto simp: keys_of_conv log_net_def split: option.splits)

text \<open>
  C37: A discovery run makes the address list the sorted list of the servers that registered
  within the last two seconds, whatever order redis and the run time list them in; it closes
  exactly the connections of servers that are gone from the registry, but leaves them in the map
  of connections; when the query fails nothing changes.
\<close>

theorem discovery_correct:
  assumes "range_order result order" and "range_order (up_connectionMap (rs_upstream s)) connOrder"
    and "0 \<le> nanos" and "in_int64 nanos"
  shows "rpc_discovery nanos (Inl err) order connOrder s = s \<and>
    rpc_discovery nanos (Inr result) order connOrder s =
      s\<lparr>rs_rpc := (rs_rpc s)\<lparr>rpc_availableAddresses :=
            sorted_list_of_set (live_servers (nanos div 1000000 - 2000) result)\<rparr>,
        rs_upstream := (rs_upstream s)\<lparr>up_net := up_net (rs_upstream s) @
            map (\<lambda>a. Closed (the (map_of (up_connectionMap (rs_upstream s)) a)))
              (filter (\<lambda>a. map_of result a = None) connOrder)\<rparr>\<rparr>"
proof -
  have "set connOrder \<subseteq> keys_of (up_connectionMap (rs_upstream s))" using assms(2) by (simp add: range_order_def)
  note closed = close_vanished_net [OF this, of result "rs_upstream s"]
  have "0 \<le> nanos div 1000000" and "nanos div 1000000 \<le> nanos"
    using assms(3) by (simp_all add: pos_imp_zdiv_nonneg_iff)
  then have "wrap64 (nanos sdiv 1000000 - 1 * 2000) = nanos div 1000000 - 2000"
    using assms(3,4) by (simp add: sdiv_nonneg in_int64_def)
  then show ?thesis
    by (simp add: rpc_discovery_def Let_def availableAddresses_eq [OF assms(1)] close_vanished_def closed)
qed

section \<open>Witnesses\<close>

text \<open>A network in which everything succeeds and connections are numbered in the order of the
  events, and one server.\<close>

definition sample_net :: net where
  "sample_net = \<lparr>net_Dial = (\<lambda>es a. Inr (Suc (Max (insert 0 (socks es))))), net_Write = (\<lambda>es c b. None)\<rparr>"

lemma finite_socks: "finite (socks es)"
proof -
  have "Some ` socks es \<subseteq> event_sock ` set es" by (auto simp: socks_def)
  then have "finite (Some ` socks es)" by (rule finite_subset) simp
  then show ?thesis by (rule finite_imageD) simp
qed

lemma sample_net_fresh: "net_fresh sample_net"
proof -
  have "Suc (Max (insert 0 (socks es))) \<notin> socks es" for es
    using finite_socks [of es] by (metis Max_ge Suc_n_not_le_n finite_insert insertI2)
  then show ?thesis by (simp add: net_fresh_def sample_net_def)
qed

definition server_text :: string where
  \<open>server_text = ''{"registerTime":9000}''\<close>

lemma server_text_json: "json_parse (string_bytes server_text) = Some (JObj [(''registerTime'', JNum ''9000'')])"
  by code_simp

definition one_server :: rpc_state where
  "one_server = rpcClient\<lparr>rs_rpc := \<lparr>rpc_availableAddresses = [''s:1''], rpc_callCounter = 0\<rparr>\<rparr>"

lemma sample_fresh_server: "fresh_server 8000 server_text"
  by (simp add: fresh_server_def json_Unmarshal_def server_text_json computeServerInfo_schema_def
      find_field_def dec_int_def parse_int64_def is_digit_def decimal_val_def digit_val_def in_int64_def
      first_err_def)

lemma one_server_reachable:
  "reachable (\<lambda>s. s = rpcClient) (rpc_step net pm zl) one_server"
proof -
  have "rpc_discovery 10000000000 (Inr [(''s:1'', server_text)]) [''s:1''] [] rpcClient = one_server"
    by (simp add: rpc_discovery_def rpcClient_def one_server_def availableAddresses_def Let_def
        sample_fresh_server close_vanished_def in_int64_def)
  then have "rpc_step net pm zl rpcClient one_server"
    using rpc_step.discovered [of net pm zl rpcClient] by metis
  moreover have "reachable (\<lambda>s. s = rpcClient) (rpc_step net pm zl) rpcClient"
    by (rule reach_init) simp
  ultimately show ?thesis by (rule reach_step [rotated])
qed

definition sample_pm :: "FromConnectorMessage list \<Rightarrow> bytes \<times> err option" where
  "sample_pm ms = ([1, 2, 3], None)"

text \<open>One delivery to the server: the state it leads to.\<close>

definition after_delivery :: rpc_state where
  "after_delivery = one_server\<lparr>rs_upstream := \<lparr>up_connectionMap = [(''s:1'', 1)],
     up_net = [Dialed ''s:1'' (Inr 1), Wrote 1 [0, 0, 0, 3] None, Wrote 1 [1, 2, 3] None]\<rparr>\<rparr>"

lemma lengthBytes_3: "lengthBytes 3 = [0, 0, 0, 3]"
  by (simp add: lengthBytes_def)

lemma sample_delivery:
  "rpc_deliver sample_net sample_pm id (rs_rpc one_server) [sample_msg ''1'' ''r''] (rs_upstream one_server) =
     (rs_upstream after_delivery, Inr True)"
  by (simp add: rpc_deliver_def sample_pm_def numeral_3_eq_3 rpc_send_def one_server_def rpcClient_def
      send_to_def get_conn_def write_conn_def sample_net_def log_net_def drop_address_def Let_def
      after_delivery_def socks_def)
    (simp add: lengthBytes_3 [unfolded numeral_3_eq_3])

lemma after_delivery_reachable:
  "reachable (\<lambda>s. s = rpcClient) (rpc_step sample_net sample_pm id) after_delivery"
proof -
  have "rpc_step sample_net sample_pm id one_server
      (one_server\<lparr>rs_upstream := rs_upstream after_delivery\<rparr>)"
    by (rule rpc_step.delivered [OF _ sample_delivery]) (simp add: sample_pm_def)
  then show ?thesis
    using reach_step [OF one_server_reachable] by (simp add: after_delivery_def)
qed

theorem rpc_streams_in_sync_witness:
  "\<exists>bodies. read_frames (stream 1 (up_net (rs_upstream after_delivery))) = Some bodies"
proof -
  have "map_of (up_connectionMap (rs_upstream after_delivery)) ''s:1'' = Some 1"
    by (simp add: after_delivery_def)
  from rpc_streams_in_sync [OF after_delivery_reachable sample_net_fresh this] show ?thesis .
qed

theorem deliver_uses_one_server_witness:
  "only_address ''s:1'' (rs_upstream one_server) (rs_upstream after_delivery)"
  using deliver_uses_one_server [OF one_server_reachable _ _ sample_delivery]
  by (simp add: one_server_def)

theorem deliver_without_servers_witness:
  "rpc_deliver sample_net sample_pm id (rs_rpc rpcClient) [sample_msg ''1'' ''r''] (rs_upstream rpcClient) =
     (rs_upstream rpcClient, Inl DivideByZero)"
  using deliver_without_servers [of "rs_rpc rpcClient" "[sample_msg ''1'' ''r'']"]
  by (simp add: rpcClient_def)

definition dead_net :: net where
  "dead_net = \<lparr>net_Dial = (\<lambda>es a. Inr 2), net_Write = (\<lambda>es c b. if c = 1 then Some ErrUnknown else None)\<rparr>"

theorem trySend_replaces_dead_connection_witness:
  "\<exists>u'. rpc_trySend dead_net (rs_rpc after_delivery) [7] 3 (rs_upstream after_delivery) = (u', Inr True) \<and>
     map_of (up_connectionMap u') ''s:1'' = Some 2"
  using trySend_replaces_dead_connection
    [of "rs_rpc after_delivery" "[''s:1'']" "''s:1''" "rs_upstream after_delivery" 1 dead_net "[7]" ErrUnknown 2]
  by (auto simp: after_delivery_def one_server_def dead_net_def)

theorem discovery_correct_witness:
  "rpc_availableAddresses (rs_rpc
     (rpc_discovery 10000000000 (Inr [(''s:1'', server_text)]) [''s:1''] [] rpcClient)) =
   sorted_list_of_set (live_servers 8000 [(''s:1'', server_text)])"
proof -
  have "range_order [(''s:1'', server_text)] [''s:1'']" and "range_order (up_connectionMap (rs_upstream rpcClient)) []"
    by (simp_all add: range_order_def keys_of_def rpcClient_def)
  from discovery_correct [OF this, of 10000000000] show ?thesis by (simp add: in_int64_def)
qed

end
