(* ===== verification/Service.thy ===== *)
theory Service
  imports Subscriber Client_Pump Heart_Beat Plain_Rpc
begin

text \<open>
  \<^verbatim>\<open>connectsvc.go\<close>: the message handlers of the service, the consumer that drains the chat
  queues to the compute servers, and the system they form.

  A handler takes the connection the message came in on; bdmsg hands it the user data of that
  connection. A panic that a handler does not recover is its result \<open>Inl\<close>; what bdmsg does with
  it is bdmsg's. \<open>service_step\<close> interleaves all goroutines of the connector, each operation one
  atomic step; its invariant \<open>world_ok\<close> holds in every reachable state.
\<close>

section \<open>Handlers\<close>

record svc_env =
  se_token :: token_env

text \<open>\<^verbatim>\<open>handleRegister\<close>; \<open>handshaked\<close> is bdmsg's \<^verbatim>\<open>Handshaked()\<close>. Every panic after
  the type assertion is recovered by stopping the connection.\<close>

definition handleRegister ::
  "svc_env \<Rightarrow> int \<Rightarrow> bool \<Rightarrow> conn \<Rightarrow> bytes \<Rightarrow> world \<Rightarrow> world \<times> unit may_panic" where
  "handleRegister env nanos handshaked s m w =
     (case userData w s of
        UD_SClient msc \<Rightarrow>
          (if handshaked then (emit (CallStop msc) w, Inr ())
           else
             (case Register_Unmarshal m zero_Register of
                (register, Some err) \<Rightarrow> (emit (CallStop msc) w, Inr ())
              | (register, None) \<Rightarrow>
                  (case ClientManager_clientIn (se_token env) nanos register msc w of
                     (w, Inl p) \<Rightarrow> (emit (CallStop msc) w, Inr ())
                   | (w, Inr (Inl err)) \<Rightarrow> (emit (CallStop msc) w, Inr ())
                   | (w, Inr (Inr c)) \<Rightarrow> (emit (CallHandshake msc) w, Inr ()))))
      | _ \<Rightarrow> (w, Inl TypeAssertion))"

text \<open>\<^verbatim>\<open>handleRefreshToken\<close>: the error of \<^verbatim>\<open>refreshToken\<close> is dropped, a panic stops the
  connection.\<close>

definition handleRefreshToken ::
  "svc_env \<Rightarrow> int \<Rightarrow> conn \<Rightarrow> bytes \<Rightarrow> world \<Rightarrow> world \<times> unit may_panic" where
  "handleRefreshToken env nanos s m w =
     (case userData w s of
        UD_Client c \<Rightarrow>
          (let w = Client_heartBeat nanos c w
           in case RefreshToken_Unmarshal m zero_RefreshToken of
                (refreshToken, Some err) \<Rightarrow> (emit (CallStop (c_msc (deref w c))) w, Inr ())
              | (refreshToken, None) \<Rightarrow>
                  (case Client_refreshToken (se_token env) (rt_Token refreshToken) c w of
                     (w, Inl p) \<Rightarrow> (emit (CallStop (c_msc (deref w c))) w, Inr ())
                   | (w, Inr err) \<Rightarrow> (w, Inr ())))
      | _ \<Rightarrow> (w, Inl TypeAssertion))"

text \<open>\<^verbatim>\<open>handleHeartBeat\<close> ignores whether the body decodes.\<close>

definition handleHeartBeat :: "svc_env \<Rightarrow> int \<Rightarrow> conn \<Rightarrow> bytes \<Rightarrow> world \<Rightarrow> world \<times> unit may_panic" where
  "handleHeartBeat env nanos s m w =
     (case userData w s of
        UD_Client c \<Rightarrow>
          (let (heartBeat, err) = HeartBeat_Unmarshal m zero_HeartBeat
           in (Client_heartBeat nanos c w, Inr ()))
      | _ \<Rightarrow> (w, Inl TypeAssertion))"

definition handleEnterRoom :: "svc_env \<Rightarrow> conn \<Rightarrow> bytes \<Rightarrow> world \<Rightarrow> world \<times> unit may_panic" where
  "handleEnterRoom env s m w =
     (case userData w s of
        UD_Client c \<Rightarrow>
          (case EnterRoom_Unmarshal m zero_EnterRoom of
             (enterRoom, Some err) \<Rightarrow> (w, Inl (PanicErr ErrParameter))
           | (enterRoom, None) \<Rightarrow>
               (let w = RoomManager_clientIn c (er_RoomId enterRoom) w
                in (upd_client c (\<lambda>x. x\<lparr>c_level := er_Level enterRoom\<rparr>) w, Inr ())))
      | _ \<Rightarrow> (w, Inl TypeAssertion))"

text \<open>The end of \<^verbatim>\<open>handleMsg\<close>: number the message and put it into its room's queue. \<open>None\<close>
  would be a trimming loop that never ends.\<close>

definition enqueue_msg ::
  "int \<Rightarrow> int \<Rightarrow> string \<Rightarrow> string \<Rightarrow> string \<Rightarrow> int \<Rightarrow> (string, string) gomap \<Rightarrow> world \<Rightarrow> world option" where
  "enqueue_msg nanos t roomId userId nickname level params w =
     (let counter = w_chatMessageCounter w + 1;
          w = w\<lparr>w_chatMessageCounter := counter\<rparr>;
          fromConnectorMessage = \<lparr>fm_MessageId = decimal (unat counter), fm_RoomId = roomId,
            fm_UserId = userId, fm_Nickname = nickname, fm_Time = nanos sdiv 1000000,
            fm_Level = wrap32 level, fm_Type = wrap32 t, fm_Params = params\<rparr>
      in map_option (\<lambda>g. w\<lparr>w_group := g\<rparr>) (MessageQueueGroup_Add fromConnectorMessage (w_group w)))"

definition handleMsg ::
  "svc_env \<Rightarrow> int \<Rightarrow> int \<Rightarrow> conn \<Rightarrow> bytes \<Rightarrow> world \<Rightarrow> (world \<times> unit may_panic) option" where
  "handleMsg env nanos t s m w =
     (case userData w s of
        UD_Client c \<Rightarrow>
          (let w = Client_heartBeat nanos c w;
               roomId = c_roomId (deref w c)
           in if t = 1 then
                (case Chat_Unmarshal m zero_Chat of
                   (chat, Some err) \<Rightarrow> Some (w, Inl (PanicErr ErrParameter))
                 | (chat, None) \<Rightarrow>
                     (let (roomId, w) =
                        (if ch_RoomId chat \<noteq> '''' \<and> ch_RoomId chat \<noteq> roomId
                         then (ch_RoomId chat, RoomManager_clientIn c (ch_RoomId chat) w)
                         else (roomId, w))
                      in map_option (\<lambda>w. (w, Inr ()))
                           (enqueue_msg nanos t roomId (c_ID (deref w c)) (ch_Nickname chat) (ch_Level chat)
                              [(''content'', ch_Content chat)] w)))
              else
                map_option (\<lambda>w. (w, Inr ()))
                  (enqueue_msg nanos t roomId (c_ID (deref w c)) '''' 0 [] w))
      | _ \<Rightarrow> Some (w, Inl TypeAssertion))"

text \<open>The handlers as \<^verbatim>\<open>newService\<close> registers them with the mux. Other message types are
  bdmsg's; nothing of the connector runs.\<close>

definition dispatch ::
  "svc_env \<Rightarrow> int \<Rightarrow> bool \<Rightarrow> int \<Rightarrow> conn \<Rightarrow> bytes \<Rightarrow> world \<Rightarrow> (world \<times> unit may_panic) option" where
  "dispatch env nanos handshaked t s m w =
     (if t = MsgTypeRegister then Some (handleRegister env nanos handshaked s m w)
      else if t = MsgTypeEnterRoom then Some (handleEnterRoom env s m w)
      else if t = MsgTypeChat then handleMsg env nanos t s m w
      else if t = MsgTypeRefreshToken then Some (handleRefreshToken env nanos s m w)
      else if t = MsgTypeHeartBeat then Some (handleHeartBeat env nanos s m w)
      else Some (w, Inr ()))"

section \<open>The consumer\<close>

record system =
  sys_world :: world
  sys_rpc :: rpc_state

text \<open>\<^verbatim>\<open>consumeEvent\<close>: a panic of \<^verbatim>\<open>deliver\<close> is recovered and logged.\<close>

definition consumeEvent ::
  "net \<Rightarrow> (FromConnectorMessage list \<Rightarrow> bytes \<times> err option) \<Rightarrow> (bytes \<Rightarrow> bytes) \<Rightarrow> string list \<Rightarrow>
   system \<Rightarrow> system" where
  "consumeEvent net pmarshal zlib order y =
     (let w = sys_world y;
          (readyToDeliver, restCount, g) = MessageQueueGroup_DrainTo order [] 10000 (w_group w);
          w = w\<lparr>w_group := g\<rparr>;
          (u, _) = rpc_deliver net pmarshal zlib (rs_rpc (sys_rpc y)) readyToDeliver (rs_upstream (sys_rpc y))
      in y\<lparr>sys_world := w, sys_rpc := (sys_rpc y)\<lparr>rs_upstream := u\<rparr>\<rparr>)"

definition consume ::
  "net \<Rightarrow> (FromConnectorMessage list \<Rightarrow> bytes \<times> err option) \<Rightarrow> (bytes \<Rightarrow> bytes) \<Rightarrow> string list \<Rightarrow>
   system \<Rightarrow> system" where
  "consume net pmarshal zlib order y =
     (let w = sys_world y;
          w = w\<lparr>w_packedMessageCounter := w_packedMessageCounter w + 1\<rparr>
      in consumeEvent net pmarshal zlib order (y\<lparr>sys_world := w\<rparr>))"

section \<open>The system\<close>

text \<open>One turn of the outbound goroutine of a client, as one step: see \<open>Client_Pump\<close> for its
  critical sections.\<close>

definition pump_turn ::
  "(bytes \<Rightarrow> bytes) \<Rightarrow> addr \<Rightarrow> world \<Rightarrow> world" where
  "pump_turn zlib c w =
     (if c_q (deref w c) then w
      else case a_take c w of (w, None) \<Rightarrow> w | (w, Some m) \<Rightarrow> a_send zlib c m w)"

record libs =
  l_env :: svc_env
  l_zlib :: "bytes \<Rightarrow> bytes"
  l_pmarshal :: "FromConnectorMessage list \<Rightarrow> bytes \<times> err option"
  l_net :: net

text \<open>A message on any connection, the end of a session, a session timer set or fired, a
  heart-beat tick, a message from the router, an outbound message sent, closing all clients.\<close>

inductive world_step :: "libs \<Rightarrow> world \<Rightarrow> world \<Rightarrow> bool" for l where
  message: "dispatch (l_env l) nanos handshaked t s m w = Some (w', r) \<Longrightarrow> world_step l w w'"
| session_end: "alive w c \<Longrightarrow> world_step l w (Client_monitor_done c w)"
| expire: "world_step l w
    (let w = Client_expire secs c expireTime w in w\<lparr>w_tasks := remove1 (Expire c expireTime) (w_tasks w)\<rparr>)"
| timer: "world_step l w (Client_session_expired c w)"
| tick: "world_step l w (heartBeat_tick disabled nanos order w)"
| router: "world_step l w (subscribe_turn roomOrder worldOrder received w)"
| pump: "world_step l w (pump_turn (l_zlib l) c w)"
| close_all: "world_step l w (ClientManager_CloseAll order w)"

inductive service_step :: "libs \<Rightarrow> system \<Rightarrow> system \<Rightarrow> bool" for l where
  in_world: "world_step l (sys_world y) w \<Longrightarrow> service_step l y (y\<lparr>sys_world := w\<rparr>)"
| consumed: "service_step l y (consume (l_net l) (l_pmarshal l) (l_zlib l) order y)"
| discovery: "service_step l y
    (y\<lparr>sys_rpc := rpc_discovery nanos reply order connOrder (sys_rpc y)\<rparr>)"

definition init_system :: system where
  "init_system = \<lparr>sys_world = init_world, sys_rpc = rpcClient\<rparr>"

section \<open>The invariant\<close>

text \<open>The running sessions: the clients whose monitor has not finished.\<close>

definition session_of :: "task \<Rightarrow> addr option" where
  "session_of t = (case t of Monitor c \<Rightarrow> Some c | _ \<Rightarrow> None)"

definition sessions :: "world \<Rightarrow> addr list" where
  "sessions w = List.map_filter session_of (w_tasks w)"

fun userdata_ok :: "world \<Rightarrow> conn \<Rightarrow> userdata \<Rightarrow> bool" where
  "userdata_ok w s (UD_SClient s') = (s' = s)"
| "userdata_ok w s (UD_Client c) = (c < length (w_heap w) \<and> c_msc (deref w c) = s)"
| "userdata_ok w s UD_nil = True"

definition sessions_ok :: "world \<Rightarrow> bool" where
  "sessions_ok w \<longleftrightarrow>
     clients_ok w \<and> distinct (sessions w) \<and>
     info_LoginUsers (w_info w) = of_nat (length (sessions w)) \<and>
     (\<forall>c \<in> set (sessions w). c < length (w_heap w)) \<and>
     (\<forall>c < length (w_heap w). c \<in> set (sessions w) \<longleftrightarrow> \<not> c_q (deref w c)) \<and>
     (\<forall>i c. map_of (w_clients w) i = Some c \<longrightarrow> c \<in> set (sessions w)) \<and>
     (\<forall>c \<in> set (sessions w). \<not> registered w c \<longrightarrow> stopped w (c_msc (deref w c))) \<and>
     (\<forall>s. userdata_ok w s (userData w s))"

text \<open>Rooms hold client objects under their own ids.\<close>

definition members_ok :: "world \<Rightarrow> bool" where
  "members_ok w \<longleftrightarrow> rooms_ok (w_rooms w) \<and>
     (\<forall>k c. member (w_rooms w) k = Some c \<longrightarrow> c < length (w_heap w) \<and> c_ID (deref w c) = snd k)"

text \<open>
  The user data of a connection is its running session; once that has ended it is nil, and before there was
  one it is what it was. So a connection has at most one session ever.
\<close>

definition conns_ok :: "world \<Rightarrow> bool" where
  "conns_ok w \<longleftrightarrow>
     (\<forall>c < length (w_heap w). userData w (c_msc (deref w c)) = (if c \<in> set (sessions w) then UD_Client c else UD_nil)) \<and>
     (\<forall>s. (\<forall>c < length (w_heap w). c_msc (deref w c) \<noteq> s) \<longrightarrow> userData w s = UD_SClient s)"

definition world_ok :: "world \<Rightarrow> bool" where
  "world_ok w \<longleftrightarrow> sessions_ok w \<and> members_ok w \<and> conns_ok w \<and> group_ok (w_group w)"

text \<open>What an operation that is not about sessions keeps.\<close>

definition same_sessions :: "world \<Rightarrow> world \<Rightarrow> bool" where
  "same_sessions w w' \<longleftrightarrow>
     w_clients w' = w_clients w \<and> sessions w' = sessions w \<and>
     info_LoginUsers (w_info w') = info_LoginUsers (w_info w) \<and>
     length (w_heap w') = length (w_heap w) \<and>
     (\<forall>a. c_ID (deref w' a) = c_ID (deref w a) \<and> c_msc (deref w' a) = c_msc (deref w a) \<and>
          c_q (deref w' a) = c_q (deref w a)) \<and>
     (\<forall>s. userData w' s = userData w s) \<and> (\<forall>s. stopped w s \<longrightarrow> stopped w' s)"

lemma same_sessions_refl [simp]: "same_sessions w w"
  by (simp add: same_sessions_def)

lemma same_sessions_trans: "same_sessions u v \<Longrightarrow> same_sessions v w \<Longrightarrow> same_sessions u w"
  by (simp add: same_sessions_def)

lemma userdata_ok_same: "same_sessions w w' \<Longrightarrow> userdata_ok w' s u = userdata_ok w s u"
  by (cases u) (simp_all add: same_sessions_def)

lemma sessions_ok_same:
  assumes same: "same_sessions w w'" and ok: "sessions_ok w"
  shows "sessions_ok w'"
proof -
  have eqs: "w_clients w' = w_clients w" "sessions w' = sessions w"
    "info_LoginUsers (w_info w') = info_LoginUsers (w_info w)" "length (w_heap w') = length (w_heap w)"
    "c_msc (deref w' a) = c_msc (deref w a)" "c_q (deref w' a) = c_q (deref w a)"
    "userData w' s = userData w s" for a s
    using same by (simp_all add: same_sessions_def)
  have defs: "registered w' a = registered w a" "clients_ok w' = clients_ok w" for a
    using same by (simp_all add: same_sessions_def registered_def clients_ok_def)
  have "stopped w s \<Longrightarrow> stopped w' s" for s using same by (simp add: same_sessions_def)
  with ok show ?thesis
    unfolding sessions_ok_def eqs defs userdata_ok_same [OF same] by blast
qed

lemma members_ok_same:
  "same_sessions w w' \<Longrightarrow> w_rooms w' = w_rooms w \<Longrightarrow> members_ok w \<Longrightarrow> members_ok w'"
  by (simp add: members_ok_def same_sessions_def)

lemma conns_ok_same: "same_sessions w w' \<Longrightarrow> conns_ok w \<Longrightarrow> conns_ok w'"
  by (simp add: conns_ok_def same_sessions_def)

lemma world_ok_same:
  "same_sessions w w' \<Longrightarrow> w_rooms w' = w_rooms w \<Longrightarrow> w_group w' = w_group w \<Longrightarrow> world_ok w \<Longrightarrow> world_ok w'"
  by (simp add: world_ok_def sessions_ok_same members_ok_same conns_ok_same)

lemma sessions_simps [simp]:
  "sessions (upd_client a f w) = sessions w" "sessions (emit k w) = sessions w"
  "sessions (spawn t w) = sessions w @ (case session_of t of None \<Rightarrow> [] | Some c \<Rightarrow> [c])"
  "sessions (w\<lparr>w_msgs := ms\<rparr>) = sessions w" "sessions (w\<lparr>w_rooms := rs\<rparr>) = sessions w"
  "sessions (w\<lparr>w_group := g\<rparr>) = sessions w" "sessions (w\<lparr>w_chatMessageCounter := n\<rparr>) = sessions w"
  "sessions (w\<lparr>w_packedMessageCounter := n\<rparr>) = sessions w" "sessions (w\<lparr>w_calls := ks\<rparr>) = sessions w"
  by (auto simp: sessions_def map_filter_simps map_filter_def split: option.split)

lemma same_sessions_upd:
  assumes "\<And>x. c_ID (f x) = c_ID x" "\<And>x. c_msc (f x) = c_msc x" "\<And>x. c_q (f x) = c_q x"
  shows "same_sessions w (upd_client c f w)"
  by (simp add: same_sessions_def assms)

lemma same_sessions_emit: "(\<And>s u. k \<noteq> CallSetUserData s u) \<Longrightarrow> same_sessions w (emit k w)"
  by (cases k) (auto simp: same_sessions_def)

lemma same_sessions_spawn: "session_of t = None \<Longrightarrow> same_sessions w (spawn t w)"
  by (simp add: same_sessions_def)

lemma same_sessions_fields [simp]:
  "same_sessions w (w\<lparr>w_msgs := ms\<rparr>)" "same_sessions w (w\<lparr>w_rooms := rs\<rparr>)"
  "same_sessions w (w\<lparr>w_group := g\<rparr>)" "same_sessions w (w\<lparr>w_chatMessageCounter := n\<rparr>)"
  "same_sessions w (w\<lparr>w_packedMessageCounter := n\<rparr>)"
  by (simp_all add: same_sessions_def userData_def stopped_def)

subsection \<open>Operations that are not about sessions\<close>

lemma heartBeat_same: "same_sessions w (Client_heartBeat nanos c w)"
  by (auto simp: Client_heartBeat_def intro: same_sessions_upd)

lemma Client_Close_same: "same_sessions w (Client_Close c w)"
  by (auto simp: Client_Close_def intro: same_sessions_emit)

lemma room_clientIn_same: "same_sessions w (RoomManager_clientIn c r w)"
  unfolding RoomManager_clientIn_def
  by (auto intro: same_sessions_trans [OF same_sessions_fields(2) same_sessions_upd])

lemma expire_same: "same_sessions w (Client_expire secs c e w)"
  unfolding Client_expire_def Let_def
  by (auto intro: same_sessions_upd same_sessions_trans [OF same_sessions_upd same_sessions_upd])

lemma session_expired_same: "same_sessions w (Client_session_expired c w)"
  unfolding Client_session_expired_def
  by (auto split: option.split intro: same_sessions_trans [OF same_sessions_upd Client_Close_same])

lemma range_loop_same:
  "(\<And>k v x. same_sessions x (body k v x)) \<Longrightarrow> same_sessions w (range_loop body m ks w)"
proof (induction ks arbitrary: w)
  case (Cons k ks)
  show ?case
  proof (cases "map_of m k")
    case (Some v)
    with same_sessions_trans [OF Cons.prems [of w k v] Cons.IH [OF Cons.prems]] show ?thesis by simp
  qed (use Cons in simp)
qed simp

lemma same_but_queues_sessions: "same_but_queues w w' \<Longrightarrow> same_sessions w w'"
proof -
  assume q: "same_but_queues w w'"
  have "c_ID (deref w' a) = c_ID (deref w a) \<and> c_msc (deref w' a) = c_msc (deref w a) \<and>
      c_q (deref w' a) = c_q (deref w a)" for a
  proof -
    from q obtain x where "deref w' a = (deref w a)\<lparr>c_queue := x\<rparr>"
      unfolding same_but_queues_def by blast
    then show ?thesis by simp
  qed
  with q show ?thesis
    by (simp add: same_but_queues_def same_sessions_def sessions_def userData_def stopped_def)
qed

lemma a_send_same: "same_sessions w (a_send zl c m w)"
  by (auto simp: a_send_def marshal_msg_def split: prod.splits sum.splits
      intro: same_sessions_trans [OF same_sessions_fields(1) same_sessions_emit])

lemma pump_turn_same:
  "same_sessions w (pump_turn zl c w)" "w_rooms (pump_turn zl c w) = w_rooms w"
  "w_group (pump_turn zl c w) = w_group w"
  by (auto simp: pump_turn_def a_take_def split: list.splits
      intro: same_sessions_trans [OF same_sessions_upd a_send_same])
    (auto simp: a_send_def marshal_msg_def split: prod.splits sum.splits)

lemma calls_only_loop:
  assumes "\<And>k v x. w_rooms (body k v x) = w_rooms x" "\<And>k v x. w_group (body k v x) = w_group x"
  shows "w_rooms (range_loop body m ks w) = w_rooms w" "w_group (range_loop body m ks w) = w_group w"
proof -
  show "w_rooms (range_loop body m ks w) = w_rooms w"
    by (induction ks arbitrary: w) (auto simp: assms split: option.split)
  show "w_group (range_loop body m ks w) = w_group w"
    by (induction ks arbitrary: w) (auto simp: assms split: option.split)
qed

lemma world_ok_tick: "world_ok w \<Longrightarrow> world_ok (heartBeat_tick d nanos order w)"
proof (rule world_ok_same)
  show "same_sessions w (heartBeat_tick d nanos order w)"
    by (auto simp: heartBeat_tick_def heartBeat_body_def Let_def intro!: range_loop_same Client_Close_same)
qed (auto simp: heartBeat_tick_def heartBeat_body_def Let_def calls_only_loop)

lemma world_ok_CloseAll: "world_ok w \<Longrightarrow> world_ok (ClientManager_CloseAll order w)"
proof (rule world_ok_same)
  show "same_sessions w (ClientManager_CloseAll order w)"
    by (auto simp: ClientManager_CloseAll_def intro!: range_loop_same Client_Close_same)
qed (auto simp: ClientManager_CloseAll_def calls_only_loop)

lemma world_loop_same: "same_but_queues w (range_loop (\<lambda>_ c. Client_ServerHello (Some c) m) cs us w)"
proof (induction us arbitrary: w)
  case (Cons u us)
  then show ?case by (auto split: option.split intro: same_but_queues_trans [OF ServerHello_same])
qed simp

lemma deliver_same:
  "same_but_queues w (deliverToUser fr w)" "same_but_queues w (deliverToRoom order fr w)"
  "same_but_queues w (deliverToWorld order fr w)"
proof -
  obtain v m where a: "alloc_msg (convert fr) w = (v, m)" by fastforce
  note v = alloc_msg_same [OF a]
  show "same_but_queues w (deliverToUser fr w)"
    by (simp add: deliverToUser_def a same_but_queues_trans [OF v single_same])
  show "same_but_queues w (deliverToRoom order fr w)"
    by (simp add: deliverToRoom_def a Let_def same_but_queues_trans [OF v fold_single_same] split: option.split)
  show "same_but_queues w (deliverToWorld order fr w)"
    by (simp add: deliverToWorld_def a same_but_queues_trans [OF v world_loop_same])
qed

lemma subscribe_same: "same_but_queues w (subscribe_turn ro wo received w)"
proof -
  have "same_but_queues w (handleSubscription ro wo payload w)" for payload
  proof -
    obtain fr e where u: "FromRouterMessage_Unmarshal (string_bytes payload) zero_FromRouterMessage = (fr, e)"
      by fastforce
    let ?v = "if fr_ToUserId fr \<noteq> '''' then deliverToUser fr w else w"
    have "same_but_queues w ?v" by (simp add: deliver_same)
    from same_but_queues_trans [OF this deliver_same(2)] same_but_queues_trans [OF this deliver_same(3)] this
    show ?thesis by (simp add: handleSubscription_def u Let_def)
  qed
  then show ?thesis by (auto simp: subscribe_turn_def split: sum.split)
qed

lemma world_ok_router: "world_ok w \<Longrightarrow> world_ok (subscribe_turn ro wo received w)"
  by (rule world_ok_same [OF same_but_queues_sessions [OF subscribe_same] same_but_queues_rooms [OF subscribe_same]])
    (use subscribe_same [of w ro wo received] in \<open>simp_all only: same_but_queues_def\<close>)

subsection \<open>Operations on rooms and queues\<close>

lemma members_ok_clientIn:
  assumes "members_ok w" and "c < length (w_heap w)"
  shows "members_ok (RoomManager_clientIn c r w)"
  using assms
  by (auto simp: members_ok_def rooms_ok_clientIn member_clientIn)

lemma world_ok_clientIn_room:
  "world_ok w \<Longrightarrow> c < length (w_heap w) \<Longrightarrow> world_ok (RoomManager_clientIn c r w)"
  by (simp add: world_ok_def members_ok_clientIn sessions_ok_same [OF room_clientIn_same] conns_ok_same [OF room_clientIn_same])

lemma world_ok_heartBeat: "world_ok w \<Longrightarrow> world_ok (Client_heartBeat nanos c w)"
  by (rule world_ok_same [OF heartBeat_same]) (simp_all add: Client_heartBeat_def)

lemma world_ok_emit: "(\<And>s u. k \<noteq> CallSetUserData s u) \<Longrightarrow> world_ok w \<Longrightarrow> world_ok (emit k w)"
  by (rule world_ok_same [OF same_sessions_emit]) simp_all

lemma enqueue_msg_ok:
  assumes "world_ok w"
  shows "\<exists>w'. enqueue_msg nanos t r u n lv ps w = Some w' \<and> world_ok w'"
proof -
  have "group_ok (w_group w)" using assms by (simp add: world_ok_def)
  note add = MessageQueueGroup_Add_ok [OF this]
  note same = same_sessions_trans [OF same_sessions_fields(4) same_sessions_fields(3)]
  have "sessions_ok (w\<lparr>w_chatMessageCounter := k, w_group := g\<rparr>)" and "conns_ok (w\<lparr>w_chatMessageCounter := k, w_group := g\<rparr>)" for k g
    using sessions_ok_same [OF same] conns_ok_same [OF same] assms by (simp_all add: world_ok_def)
  moreover have "members_ok (w\<lparr>w_chatMessageCounter := k, w_group := g\<rparr>)" for k g
    using assms by (simp add: world_ok_def members_ok_def)
  moreover obtain g where "MessageQueueGroup_Add \<lparr>fm_MessageId = decimal (unat (w_chatMessageCounter w + 1)),
      fm_RoomId = r, fm_UserId = u, fm_Nickname = n, fm_Time = nanos sdiv 1000000,
      fm_Level = wrap32 lv, fm_Type = wrap32 t, fm_Params = ps\<rparr> (w_group w) = Some g" and "group_ok g"
    using add by blast
  ultimately show ?thesis by (simp add: enqueue_msg_def world_ok_def)
qed

subsection \<open>A session ends\<close>

lemma sessions_monitor_done [simp]: "sessions (Client_monitor_done c w) = remove1 c (sessions w)"
proof -
  have "List.map_filter session_of (remove1 (Monitor c) ts) = remove1 c (List.map_filter session_of ts)" for ts
    by (induction ts) (auto simp: map_filter_simps session_of_def split: task.split option.split)
  then show ?thesis by (simp add: sessions_def Client_monitor_done_def Let_def)
qed

lemma monitor_done_frame [simp]:
  "w_heap (Client_monitor_done c w) = w_heap (Client_ending False c w)"
  "deref (Client_monitor_done c w) a = deref (Client_ending False c w) a"
  "w_clients (Client_monitor_done c w) = clients_remove (c_ID (deref w c)) c (w_clients w)"
  "w_rooms (Client_monitor_done c w) = rooms_ending (c_roomId (deref w c)) (c_ID (deref w c)) c (w_rooms w)"
  "w_group (Client_monitor_done c w) = w_group w"
  "info_LoginUsers (w_info (Client_monitor_done c w)) = info_LoginUsers (w_info w) - 1"
  "w_calls (Client_monitor_done c w) = w_calls w @ [CallSetUserData (c_msc (deref w c)) UD_nil]"
  by (simp_all add: Client_monitor_done_def Let_def)

lemma userData_snoc:
  "w_calls w' = w_calls w @ [CallSetUserData s u] \<Longrightarrow> userData w' s' = (if s' = s then u else userData w s')"
  by (simp add: userData_def)

lemma sessions_ok_monitor_done:
  assumes ok: "sessions_ok w" and c: "c \<in> set (sessions w)"
  shows "sessions_ok (Client_monitor_done c w)"
proof -
  let ?w = "Client_monitor_done c w"
  have len: "c < length (w_heap w)" and dist: "distinct (sessions w)" and cl: "clients_ok w"
    using ok c by (auto simp: sessions_ok_def)
  have set: "set (sessions ?w) = set (sessions w) - {c}" using dist by simp
  have same: "c_ID (deref ?w a) = c_ID (deref w a)" "c_msc (deref ?w a) = c_msc (deref w a)"
    "c_q (deref ?w a) \<longleftrightarrow> a = c \<or> c_q (deref w a)" for a
    using len by auto
  have look: "map_of (w_clients ?w) i = Some a \<longleftrightarrow> map_of (w_clients w) i = Some a \<and> a \<noteq> c" for i a
    using cl by (auto simp: lookup_clients_remove clients_ok_def)
  then have reg: "registered ?w a \<longleftrightarrow> registered w a \<and> a \<noteq> c" for a
    by (simp only: registered_def same)
  have "clients_ok ?w"
    using cl gomap_ok_clients_remove by (auto simp: clients_ok_def look same simp del: monitor_done_frame(2,3))
      (simp add: gomap_ok_clients_remove)
  moreover have "info_LoginUsers (w_info ?w) = of_nat (length (sessions ?w))"
  proof -
    have "length (sessions w) = Suc (length (remove1 c (sessions w)))"
      using c by (cases "sessions w") (auto simp: length_remove1 dest: length_pos_if_in_set)
    moreover have "info_LoginUsers (w_info w) = of_nat (length (sessions w))"
      using ok by (simp add: sessions_ok_def)
    ultimately show ?thesis by simp
  qed
  moreover have "stopped w s \<Longrightarrow> stopped ?w s" for s by (simp add: stopped_def)
  moreover have "userdata_ok ?w s (userData ?w s)" for s
    using ok by (cases "userData w s")
      (auto simp: userData_snoc [OF monitor_done_frame(7)] same sessions_ok_def dest: spec [of _ s]
        simp del: monitor_done_frame(2))
  ultimately show ?thesis
    using ok unfolding sessions_ok_def set look reg same by (auto simp: dist)
qed

lemma conns_ok_monitor_done:
  assumes ok: "conns_ok w" and sess: "sessions_ok w" and c: "c \<in> set (sessions w)"
  shows "conns_ok (Client_monitor_done c w)"
proof -
  let ?w = "Client_monitor_done c w"
  have len: "c < length (w_heap w)" and set: "set (remove1 c (sessions w)) = set (sessions w) - {c}"
    using sess c by (auto simp: sessions_ok_def)
  have msc: "c_msc (deref ?w a) = c_msc (deref w a)" for a using len by simp
  have mine: "userData w (c_msc (deref w c)) = UD_Client c" using ok c len by (simp add: conns_ok_def)
  have "userData ?w (c_msc (deref w a)) = (if a \<in> set (sessions ?w) then UD_Client a else UD_nil)" if "a < length (w_heap w)" for a
  proof -
    have "userData w (c_msc (deref w a)) = (if a \<in> set (sessions w) then UD_Client a else UD_nil)"
      using ok that by (simp add: conns_ok_def)
    with mine show ?thesis
      by (cases "c_msc (deref w a) = c_msc (deref w c)") (auto simp: userData_snoc [OF monitor_done_frame(7)] set split: if_splits)
  qed
  moreover have "userData ?w s = userData w s" if "c_msc (deref w c) \<noteq> s" for s
    using that by (simp add: userData_snoc [OF monitor_done_frame(7)])
  ultimately show ?thesis using ok len by (auto simp: conns_ok_def msc simp del: monitor_done_frame(2))
qed

subsection \<open>A session begins\<close>

text \<open>A session that is running but no longer registered has been told to stop.\<close>

lemma clientIn_superseded:
  assumes ok: "sessions_ok w" and tok: "refreshToken0 env (reg_Token r) = Inr (claims, None)"
    and inn: "ClientManager_clientIn env nanos r s w = (w', res)"
    and c: "c \<in> set (sessions w')" "\<not> registered w' c"
  shows "stopped w' (c_msc (deref w' c))"
proof -
  note facts = clientIn_accepted [OF tok inn]
  have look: "map_of (w_clients w') j = (if j = reg_UserId r then Some (length (w_heap w)) else map_of (w_clients w) j)" for j
    by (simp add: facts(3) gomap_simps)
  have "sessions w' = sessions w @ [length (w_heap w)]"
    by (simp add: sessions_def facts(7) map_filter_simps map_filter_def session_of_def)
  moreover have "c \<noteq> length (w_heap w)"
    using c(2) by (auto simp: registered_def look deref_def facts(2) new_client_def)
  ultimately have c': "c \<in> set (sessions w)" "c < length (w_heap w)"
    using c(1) ok by (auto simp: sessions_ok_def)
  then have old: "deref w' c = deref w c" by (simp add: deref_def facts(2) nth_append)
  show ?thesis
  proof (cases "registered w c")
    case True
    with c(2) old have "map_of (w_clients w) (reg_UserId r) = Some c"
      by (auto simp: registered_def look split: if_splits)
    with old show ?thesis by (simp add: stopped_def facts(8))
  next
    case False
    with ok c' have "stopped w (c_msc (deref w c))" by (simp add: sessions_ok_def)
    with old show ?thesis by (simp add: stopped_def facts(8))
  qed
qed

lemma sessions_ok_clientIn:
  assumes ok: "sessions_ok w" and tok: "refreshToken0 env (reg_Token r) = Inr (claims, None)"
    and inn: "ClientManager_clientIn env nanos r s w = (w', res)"
  shows "sessions_ok w'"
proof -
  let ?n = "length (w_heap w)" and ?i = "reg_UserId r"
  note facts = clientIn_accepted [OF tok inn]
  have cl: "clients_ok w" using ok by (simp add: sessions_ok_def)
  have sess: "sessions w' = sessions w @ [?n]"
    by (simp add: sessions_def facts(7) map_filter_simps map_filter_def session_of_def)
  have new: "c_ID (deref w' ?n) = ?i" "c_msc (deref w' ?n) = s" "\<not> c_q (deref w' ?n)"
    by (simp_all add: deref_def facts(2) new_client_def)
  have old: "deref w' a = deref w a" if "a < ?n" for a
    using that by (simp add: deref_def facts(2) nth_append)
  have len: "length (w_heap w') = Suc ?n" by (simp add: facts(2))
  have look: "map_of (w_clients w') j = (if j = ?i then Some ?n else map_of (w_clients w) j)" for j
    by (simp add: facts(3) gomap_simps)
  have below: "\<forall>c \<in> set (sessions w). c < ?n" using ok by (simp add: sessions_ok_def)
  have ud: "userData w' x = (if x = s then UD_Client ?n else userData w x)" for x
    by (auto simp: userData_def facts(8) split: option.split)
  have "clients_ok w'"
    using cl new(1) old len by (auto simp: clients_ok_def facts(3) gomap_simps less_SucI split: if_splits)
  moreover have "?n \<notin> set (sessions w)" using below by blast
  then have "distinct (sessions w')" using ok sess by (simp add: sessions_ok_def)
  moreover have "info_LoginUsers (w_info w') = of_nat (length (sessions w'))"
    using ok facts(9) sess by (simp add: sessions_ok_def)
  moreover have "\<forall>c \<in> set (sessions w'). c < length (w_heap w')" using below sess len by auto
  moreover have "c \<in> set (sessions w') \<longleftrightarrow> \<not> c_q (deref w' c)" if "c < length (w_heap w')" for c
    using that ok old new(3) sess len by (cases "c = ?n") (auto simp: sessions_ok_def less_Suc_eq)
  moreover have "c \<in> set (sessions w')" if "map_of (w_clients w') j = Some c" for j c
    using that ok by (auto simp: look sess sessions_ok_def split: if_splits)
  moreover have "stopped w' (c_msc (deref w' c))" if "c \<in> set (sessions w')" "\<not> registered w' c" for c
    using clientIn_superseded [OF ok tok inn that] .
  moreover have "userdata_ok w' x (userData w' x)" for x
  proof (cases "x = s")
    case False
    have "userdata_ok w x (userData w x)" using ok by (simp add: sessions_ok_def)
    then show ?thesis using False old len by (cases "userData w x") (auto simp: ud)
  qed (simp add: ud new len)
  ultimately show ?thesis unfolding sessions_ok_def by blast
qed

lemma conns_ok_clientIn:
  assumes ok: "conns_ok w" and sess: "sessions_ok w" and tok: "refreshToken0 env (reg_Token r) = Inr (claims, None)"
    and inn: "ClientManager_clientIn env nanos r s w = (w', res)" and s: "userData w s = UD_SClient s'"
  shows "conns_ok w'"
proof -
  let ?n = "length (w_heap w)"
  note facts = clientIn_accepted [OF tok inn]
  have sessions: "sessions w' = sessions w @ [?n]"
    by (simp add: sessions_def facts(7) map_filter_simps map_filter_def session_of_def)
  have old: "deref w' a = deref w a" if "a < ?n" for a using that by (simp add: deref_def facts(2) nth_append)
  have new: "c_msc (deref w' ?n) = s" by (simp add: deref_def facts(2) new_client_def)
  have ud: "userData w' x = (if x = s then UD_Client ?n else userData w x)" for x
    by (auto simp: userData_def facts(8) split: option.split)
  have fresh: "c_msc (deref w a) \<noteq> s" if "a < ?n" for a
    using ok s that by (auto simp: conns_ok_def split: if_splits)
  show ?thesis
    using ok fresh
    by (auto simp: conns_ok_def ud old new sessions facts(2) less_Suc_eq)
qed

lemma members_ok_grow:
  assumes "members_ok w" and "w_rooms w' = w_rooms w" and "w_heap w' = w_heap w @ [x]"
  shows "members_ok w'"
proof -
  have "deref w' a = deref w a" if "a < length (w_heap w)" for a
    using that assms(3) by (simp add: deref_def nth_append)
  with assms show ?thesis by (auto simp: members_ok_def less_SucI)
qed

lemma world_ok_clientIn:
  assumes "world_ok w" and "ClientManager_clientIn env nanos r s w = (w', res)" and "userData w s = UD_SClient s'"
  shows "world_ok w'"
proof (cases "refreshToken0 env (reg_Token r)")
  case (Inl p)
  with assms show ?thesis by (auto simp: ClientManager_clientIn_def)
next
  case (Inr q)
  then obtain claims e where q: "refreshToken0 env (reg_Token r) = Inr (claims, e)" by (cases q) auto
  show ?thesis
  proof (cases e)
    case None
    note tok = q [unfolded None]
    note facts = clientIn_accepted [OF tok assms(2)]
    show ?thesis
      using assms(1) sessions_ok_clientIn [OF _ tok assms(2)] members_ok_grow [OF _ facts(4,2)] facts(5)
        conns_ok_clientIn [OF _ _ tok assms(2,3)]
      by (simp add: world_ok_def)
  next
    case (Some e')
    with assms q show ?thesis by (auto simp: ClientManager_clientIn_def)
  qed
qed

lemma world_ok_monitor_done:
  assumes "world_ok w" and "alive w c"
  shows "world_ok (Client_monitor_done c w)"
proof -
  have c: "c \<in> set (sessions w)"
    using assms(2) by (force simp: alive_def sessions_def map_filter_def session_of_def)
  have "members_ok (Client_monitor_done c w)"
    using assms(1) by (auto simp: world_ok_def members_ok_def rooms_ok_ending member_ending split: if_splits)
  with assms(1) sessions_ok_monitor_done [OF _ c] conns_ok_monitor_done [OF _ _ c] show ?thesis by (simp add: world_ok_def)
qed

subsection \<open>Every step\<close>

lemma userData_client:
  "world_ok w \<Longrightarrow> userData w s = UD_Client c \<Longrightarrow> c < length (w_heap w) \<and> c_msc (deref w c) = s"
  unfolding world_ok_def sessions_ok_def by (metis userdata_ok.simps(2))

lemma world_ok_handleRegister:
  assumes "world_ok w" and "handleRegister env nanos h s m w = (w', r)"
  shows "world_ok w'"
proof (cases "userData w s")
  case (UD_SClient s')
  from assms(1) have "userdata_ok w s (userData w s)" by (simp add: world_ok_def sessions_ok_def)
  with UD_SClient have s': "s' = s" by simp
  from assms(2) show ?thesis
    by (auto simp: handleRegister_def UD_SClient s' assms(1) split: if_splits prod.splits option.splits sum.splits
        intro!: world_ok_emit dest!: world_ok_clientIn [OF assms(1) _ UD_SClient [unfolded s']])
qed (use assms in \<open>auto simp: handleRegister_def\<close>)

lemma world_ok_refreshToken:
  assumes "Client_refreshToken env token c w = (w', q)" and "world_ok w"
  shows "world_ok w'"
proof -
  have "w' = w \<or> (\<exists>k. w' = spawn (Expire c k) w)"
    using assms(1) by (auto simp: Client_refreshToken_def split: sum.splits prod.splits option.splits)
  with assms(2) show ?thesis
    by (auto intro!: world_ok_same [OF same_sessions_spawn] simp: session_of_def)
qed

lemma world_ok_handleRefreshToken:
  assumes "world_ok w" and "handleRefreshToken env nanos s m w = (w', r)"
  shows "world_ok w'"
  using assms(2) world_ok_heartBeat [OF assms(1)] assms(1)
  by (auto simp: handleRefreshToken_def Let_def split: userdata.splits prod.splits option.splits sum.splits
      intro!: world_ok_emit dest!: world_ok_refreshToken)

lemma world_ok_handleEnterRoom:
  assumes "world_ok w" and "handleEnterRoom env s m w = (w', r)"
  shows "world_ok w'"
proof (cases "userData w s")
  case (UD_Client c)
  have "world_ok (upd_client c (\<lambda>x. x\<lparr>c_level := l\<rparr>) (RoomManager_clientIn c rm w))" for l rm
    using world_ok_clientIn_room [OF assms(1)] userData_client [OF assms(1) UD_Client]
    by (intro world_ok_same [OF same_sessions_upd]) simp_all
  with assms UD_Client show ?thesis by (auto simp: handleEnterRoom_def Let_def split: prod.splits option.splits)
qed (use assms in \<open>auto simp: handleEnterRoom_def\<close>)

lemma handleMsg_ok:
  assumes "world_ok w"
  shows "\<exists>w' r. handleMsg env nanos t s m w = Some (w', r) \<and> world_ok w'"
proof (cases "userData w s")
  case (UD_Client c)
  let ?w = "Client_heartBeat nanos c w"
  have ok: "world_ok ?w" and "c < length (w_heap ?w)"
    using world_ok_heartBeat [OF assms] userData_client [OF assms UD_Client]
    by (simp_all add: Client_heartBeat_def)
  then have rm: "world_ok (RoomManager_clientIn c q ?w)" for q by (rule world_ok_clientIn_room)
  show ?thesis
    using ok UD_Client enqueue_msg_ok [OF ok] enqueue_msg_ok [OF rm]
    by (auto simp: handleMsg_def Let_def split: prod.split option.split)
qed (use assms in \<open>auto simp: handleMsg_def\<close>)

lemma world_ok_dispatch:
  assumes "world_ok w" and "dispatch env nanos h t s m w = Some (w', r)"
  shows "world_ok w'"
proof -
  have "world_ok w'" if "handleMsg env nanos t s m w = Some (w', r)"
    using handleMsg_ok [OF assms(1), of env nanos t s m] that by auto
  moreover have "world_ok w'" if "handleHeartBeat env nanos s m w = (w', r)"
    using assms(1) that
    by (auto simp: handleHeartBeat_def split: userdata.splits prod.splits intro: world_ok_heartBeat)
  ultimately show ?thesis
    using assms
    by (auto simp: dispatch_def dest: world_ok_handleRegister world_ok_handleEnterRoom
        world_ok_handleRefreshToken split: if_splits)
qed

lemma sessions_remove_expire [simp]: "sessions (w\<lparr>w_tasks := remove1 (Expire c e) (w_tasks w)\<rparr>) = sessions w"
proof -
  have "List.map_filter session_of (remove1 (Expire c e) ts) = List.map_filter session_of ts" for ts
    by (induction ts) (auto simp: map_filter_simps session_of_def split: task.split)
  then show ?thesis by (simp add: sessions_def)
qed

lemma world_ok_expire:
  assumes "world_ok w"
  shows "world_ok (let w = Client_expire secs c e w in w\<lparr>w_tasks := remove1 (Expire c e) (w_tasks w)\<rparr>)"
proof -
  let ?v = "Client_expire secs c e w"
  have "same_sessions ?v (?v\<lparr>w_tasks := remove1 (Expire c e) (w_tasks ?v)\<rparr>)"
    by (simp add: same_sessions_def) (simp add: userData_def stopped_def)
  note same = same_sessions_trans [OF expire_same this]
  show ?thesis
    unfolding Let_def by (rule world_ok_same [OF same _ _ assms]) (simp_all add: Client_expire_def Let_def)
qed

lemma world_ok_timer: "world_ok w \<Longrightarrow> world_ok (Client_session_expired c w)"
  by (rule world_ok_same [OF session_expired_same]) (simp_all add: Client_session_expired_def split: option.split)

lemma world_step_ok: "world_step l w w' \<Longrightarrow> world_ok w \<Longrightarrow> world_ok w'"
  by (induction rule: world_step.induct)
    (blast intro: world_ok_dispatch world_ok_monitor_done world_ok_expire world_ok_timer world_ok_tick
      world_ok_router world_ok_CloseAll world_ok_same [OF pump_turn_same])+

definition service_ok :: "system \<Rightarrow> bool" where
  "service_ok y \<longleftrightarrow> world_ok (sys_world y) \<and> rpc_callCounter (rs_rpc (sys_rpc y)) = 0"

lemma consume_ok:
  assumes "service_ok y"
  shows "service_ok (consume net pm zl order y)"
proof -
  let ?w = "sys_world y"
  obtain ms rest g where d: "MessageQueueGroup_DrainTo order [] 10000 (w_group ?w) = (ms, rest, g)"
    by (metis prod_cases3)
  obtain u r where u: "rpc_deliver net pm zl (rs_rpc (sys_rpc y)) ms (rs_upstream (sys_rpc y)) = (u, r)"
    by fastforce
  have g: "group_ok g"
    using assms d drain_rooms_ok
    by (auto simp: service_ok_def world_ok_def MessageQueueGroup_DrainTo_def split: option.splits prod.splits)
  note same = same_sessions_trans [OF same_sessions_fields(5) same_sessions_fields(3)]
  have "sessions_ok (?w\<lparr>w_packedMessageCounter := k, w_group := g\<rparr>)"
    and "conns_ok (?w\<lparr>w_packedMessageCounter := k, w_group := g\<rparr>)" for k
    using assms sessions_ok_same [OF same] conns_ok_same [OF same] by (simp_all add: service_ok_def world_ok_def)
  with g show ?thesis
    using assms d u
    by (simp add: service_ok_def consume_def consumeEvent_def Let_def world_ok_def members_ok_def)
qed

lemma service_step_ok: "service_step l y y' \<Longrightarrow> service_ok y \<Longrightarrow> service_ok y'"
proof (induction rule: service_step.induct)
  case (in_world y w)
  then show ?case by (simp add: service_ok_def world_step_ok)
next
  case (consumed y order)
  then show ?case by (simp add: consume_ok)
next
  case (discovery y nanos reply order connOrder)
  then show ?case by (simp add: service_ok_def rpc_discovery_def Let_def split: sum.split)
qed

lemma init_world_ok: "world_ok init_world"
  by (simp add: world_ok_def sessions_ok_def members_ok_def init_world_def clients_ok_def sessions_def
      map_filter_simps rooms_ok_def member_def userData_def conns_ok_def)

interpretation svc: inductive_invariant "\<lambda>y. y = init_system" "service_step l" service_ok for l
proof unfold_locales
  show "y = init_system \<Longrightarrow> service_ok y" for y
    by (simp add: service_ok_def init_system_def init_world_ok rpcClient_def)
qed (rule service_step_ok)

abbreviation reachable_system :: "libs \<Rightarrow> system \<Rightarrow> bool" where
  "reachable_system l \<equiv> reachable (\<lambda>y. y = init_system) (service_step l)"

lemma reachable_world_ok: "reachable_system l y \<Longrightarrow> world_ok (sys_world y)"
  using svc.reachable_inv [of l y] by (simp add: service_ok_def)

section \<open>Correctness\<close>

text \<open>
  C1: At most one session per user: in every reachable state, two running sessions of the same
  user id whose connections have not been told to stop are the same session.
\<close>

theorem single_live_session:
  assumes "reachable_system l y" and "w = sys_world y"
    and "alive w c" and "alive w c'" and "c_ID (deref w c) = c_ID (deref w c')"
    and "\<not> stopped w (c_msc (deref w c))" and "\<not> stopped w (c_msc (deref w c'))"
  shows "c = c'"
proof -
  have ok: "sessions_ok w" using reachable_world_ok [OF assms(1)] assms(2) by (simp add: world_ok_def)
  have "registered w a" if "alive w a" and "\<not> stopped w (c_msc (deref w a))" for a
  proof -
    have "a \<in> set (sessions w)" using that(1) by (force simp: alive_def sessions_def map_filter_def session_of_def)
    with ok that(2) show ?thesis unfolding sessions_ok_def by blast
  qed
  with assms(3-7) have "registered w c" and "registered w c'" by blast+
  with assms(5) show ?thesis by (simp add: registered_def)
qed

lemma set_sessions: "set (sessions w) = {c. alive w c}"
  by (force simp: alive_def sessions_def map_filter_def session_of_def split: task.splits)

text \<open>
  In every reachable state the counter of logged-in users is the number of running sessions,
  modulo \<open>2 ^ 32\<close>; a client is marked finished exactly when its session has ended; and every
  registered client has a running session.
\<close>

theorem login_users_counts_sessions:
  assumes "reachable_system l y" and "w = sys_world y"
  shows "info_LoginUsers (w_info w) = of_nat (card {c. alive w c}) \<and>
    (\<forall>c < length (w_heap w). alive w c \<longleftrightarrow> \<not> c_q (deref w c)) \<and>
    (\<forall>i c. ClientManager_Client i w = Some c \<longrightarrow> alive w c \<and> c_ID (deref w c) = i)"
proof -
  have ok: "sessions_ok w" using reachable_world_ok [OF assms(1)] assms(2) by (simp add: world_ok_def)
  then have "distinct (sessions w)" and cl: "clients_ok w" by (simp_all add: sessions_ok_def)
  then have "length (sessions w) = card {c. alive w c}" by (simp add: distinct_card flip: set_sessions)
  moreover have "c \<in> set (sessions w) \<longleftrightarrow> alive w c" for c by (simp add: set_sessions)
  ultimately show ?thesis
    using ok cl unfolding sessions_ok_def clients_ok_def ClientManager_Client_def by metis
qed

lemma handleMsg_chat:
  assumes ok: "world_ok w" and "userData w s = UD_Client c"
    and "Chat_Unmarshal m zero_Chat = (chat, None)"
  shows "\<exists>w'. handleMsg env nanos MsgTypeChat s m w = Some (w', Inr ()) \<and>
    (let room = (if ch_RoomId chat = '''' then c_roomId (deref w c) else ch_RoomId chat);
         msg = \<lparr>fm_MessageId = decimal (unat (w_chatMessageCounter w + 1)), fm_RoomId = room,
           fm_UserId = c_ID (deref w c), fm_Nickname = ch_Nickname chat, fm_Time = nanos sdiv 1000000,
           fm_Level = wrap32 (ch_Level chat), fm_Type = 1, fm_Params = [(''content'', ch_Content chat)]\<rparr>
     in waiting (w_group w') = (waiting (w_group w))(room := last_n 100 (waiting (w_group w) room @ [msg])) \<and>
        w_chatMessageCounter w' = w_chatMessageCounter w + 1)"
proof -
  have g: "group_ok (w_group w)" using ok by (simp add: world_ok_def)
  let ?r = "if ch_RoomId chat = '''' then c_roomId (deref w c) else ch_RoomId chat"
  let ?v = "Client_heartBeat nanos c w"
  let ?u = "if ch_RoomId chat \<noteq> '''' \<and> ch_RoomId chat \<noteq> c_roomId (deref ?v c)
    then RoomManager_clientIn c (ch_RoomId chat) ?v else ?v"
  have v: "c_roomId (deref ?v c) = c_roomId (deref w c)" "c_ID (deref ?u c) = c_ID (deref w c)"
    "w_group ?u = w_group w" "w_chatMessageCounter ?u = w_chatMessageCounter w"
    by (simp_all add: Client_heartBeat_def)
  have run: "handleMsg env nanos MsgTypeChat s m w = map_option (\<lambda>w. (w, Inr ()))
      (enqueue_msg nanos 1 ?r (c_ID (deref w c)) (ch_Nickname chat) (ch_Level chat)
        [(''content'', ch_Content chat)] ?u)"
    using assms(2,3) v(1) by (auto simp: handleMsg_def Let_def Client_heartBeat_def)
  show ?thesis
    using MessageQueueGroup_Add_ok [OF g, of "\<lparr>fm_MessageId = decimal (unat (w_chatMessageCounter w + 1)),
      fm_RoomId = ?r, fm_UserId = c_ID (deref w c), fm_Nickname = ch_Nickname chat,
      fm_Time = nanos sdiv 1000000, fm_Level = wrap32 (ch_Level chat), fm_Type = wrap32 1,
      fm_Params = [(''content'', ch_Content chat)]\<rparr>"]
    by (auto simp: run enqueue_msg_def Let_def v(3,4) in_int32_def)
qed

text \<open>
  C9: A chat message of a logged-in client is always accepted, in every reachable state: the
  handler returns, the message is numbered with the incremented counter and stored, as the
  newest of at most 100, in the queue of the room it names or, when it names none, of the room
  the client is in; no other room's queue changes.
\<close>

theorem handleMsg_stores_chat:
  assumes "reachable_system l y" and "w = sys_world y" and "userData w s = UD_Client c"
    and "Chat_Unmarshal m zero_Chat = (chat, None)"
  shows "\<exists>w'. handleMsg env nanos MsgTypeChat s m w = Some (w', Inr ()) \<and>
    (let room = (if ch_RoomId chat = '''' then c_roomId (deref w c) else ch_RoomId chat);
         msg = \<lparr>fm_MessageId = decimal (unat (w_chatMessageCounter w + 1)), fm_RoomId = room,
           fm_UserId = c_ID (deref w c), fm_Nickname = ch_Nickname chat, fm_Time = nanos sdiv 1000000,
           fm_Level = wrap32 (ch_Level chat), fm_Type = 1, fm_Params = [(''content'', ch_Content chat)]\<rparr>
     in waiting (w_group w') = (waiting (w_group w))(room := last_n 100 (waiting (w_group w) room @ [msg])) \<and>
        w_chatMessageCounter w' = w_chatMessageCounter w + 1)"
  using handleMsg_chat [OF _ assms(3,4)] reachable_world_ok [OF assms(1)] assms(2) by simp

lemma reachable_userData:
  assumes "reachable_system l y" and "w = sys_world y"
  shows "c < length (w_heap w) \<Longrightarrow> userData w (c_msc (deref w c)) = (if alive w c then UD_Client c else UD_nil)"
    and "(\<forall>c < length (w_heap w). c_msc (deref w c) \<noteq> s) \<Longrightarrow> userData w s = UD_SClient s"
  using reachable_world_ok [OF assms(1)] assms(2) by (auto simp: world_ok_def conns_ok_def set_sessions)

text \<open>
  C25: Without a running session there is no service: in every reachable state, on a connection that no running
  session belongs to, be it that none has begun or that it has ended, a chat, room, token or heart-beat message is refused with
  a failed type assertion and changes nothing; and on a connection whose session has ended, a registration is refused
  in the same way, so a connection has one session at most.
\<close>

theorem no_session_no_service:
  assumes "reachable_system l y" and "w = sys_world y"
    and "\<not> (\<exists>c < length (w_heap w). alive w c \<and> c_msc (deref w c) = s)"
    and "t \<in> {MsgTypeChat, MsgTypeEnterRoom, MsgTypeRefreshToken, MsgTypeHeartBeat} \<or>
      t = MsgTypeRegister \<and> (\<exists>c < length (w_heap w). c_msc (deref w c) = s)"
  shows "dispatch env nanos h t s m w = Some (w, Inl TypeAssertion)"
proof -
  have ended: "userData w s = UD_nil" if "c < length (w_heap w)" "c_msc (deref w c) = s" for c
    using reachable_userData(1) [OF assms(1,2) that(1)] that assms(3) by auto
  then have "userData w s = UD_nil \<or> userData w s = UD_SClient s \<and> \<not> (\<exists>c < length (w_heap w). c_msc (deref w c) = s)"
    using reachable_userData(2) [OF assms(1,2), of s] by blast
  with assms(4) show ?thesis
    by (auto simp: dispatch_def handleMsg_def handleEnterRoom_def handleRefreshToken_def handleHeartBeat_def handleRegister_def)
qed

text \<open>What a handler leaves of a client that is not its own.\<close>

definition keeps_client :: "world \<Rightarrow> addr \<Rightarrow> world \<Rightarrow> bool" where
  "keeps_client w a w' \<longleftrightarrow>
     deref w' a = deref w a \<and> length (w_heap w) \<le> length (w_heap w') \<and> alive w' a = alive w a"

lemma keeps_simps [simp]:
  "keeps_client w a w"
  "keeps_client w a (emit k v) = keeps_client w a v"
  "c \<noteq> a \<Longrightarrow> keeps_client w a (upd_client c f v) = keeps_client w a v"
  "c \<noteq> a \<Longrightarrow> keeps_client w a (Client_heartBeat nanos c v) = keeps_client w a v"
  "c \<noteq> a \<Longrightarrow> keeps_client w a (RoomManager_clientIn c r v) = keeps_client w a v"
  by (auto simp: keeps_client_def Client_heartBeat_def alive_def)

lemma keeps_clientIn:
  assumes "ClientManager_clientIn env nanos rg s w = (w', q)" and "a < length (w_heap w)"
  shows "keeps_client w a w'"
proof (cases "\<exists>claims. refreshToken0 env (reg_Token rg) = Inr (claims, None)")
  case True
  then obtain claims where "refreshToken0 env (reg_Token rg) = Inr (claims, None)" ..
  from clientIn_accepted [OF this assms(1)] show ?thesis
    using assms(2) by (simp add: keeps_client_def deref_def nth_append alive_def)
next
  case False
  with assms(1) have "w' = w"
    by (auto simp: ClientManager_clientIn_def split: sum.splits prod.splits option.splits)
  then show ?thesis by simp
qed

lemma keeps_handleRegister:
  "handleRegister env nanos h s m w = (w', r) \<Longrightarrow> a < length (w_heap w) \<Longrightarrow> keeps_client w a w'"
  by (auto simp: handleRegister_def split: userdata.splits if_splits prod.splits option.splits sum.splits
      dest: keeps_clientIn)

lemma keeps_enqueue:
  "enqueue_msg nanos t rm u nk lv ps v = Some v' \<Longrightarrow> keeps_client w a v' = keeps_client w a v"
  by (auto simp: enqueue_msg_def Let_def keeps_client_def alive_def)

lemma keeps_handleMsg:
  "handleMsg env nanos t s m w = Some (w', r) \<Longrightarrow> userData w s \<noteq> UD_Client a \<Longrightarrow> keeps_client w a w'"
  by (auto simp: handleMsg_def Let_def keeps_enqueue split: userdata.splits prod.splits option.splits if_splits)

lemma keeps_handleRefreshToken:
  "handleRefreshToken env nanos s m w = (w', r) \<Longrightarrow> userData w s \<noteq> UD_Client a \<Longrightarrow> keeps_client w a w'"
  by (auto simp: handleRefreshToken_def Let_def Client_refreshToken_def keeps_client_def alive_def
      Client_heartBeat_def split: userdata.splits prod.splits option.splits sum.splits)

lemma keeps_handleEnterRoom:
  "handleEnterRoom env s m w = (w', r) \<Longrightarrow> userData w s \<noteq> UD_Client a \<Longrightarrow> keeps_client w a w'"
  by (auto simp: handleEnterRoom_def Let_def split: userdata.splits prod.splits option.splits)

lemma keeps_handleHeartBeat:
  "handleHeartBeat env nanos s m w = (w', r) \<Longrightarrow> userData w s \<noteq> UD_Client a \<Longrightarrow> keeps_client w a w'"
  by (auto simp: handleHeartBeat_def split: userdata.splits prod.splits)

text \<open>What a handler that works for the client \<open>c\<close> of the connection \<open>s\<close> leaves of everything else.\<close>

definition keeps_others :: "conn \<Rightarrow> addr \<Rightarrow> world \<Rightarrow> world \<Rightarrow> bool" where
  "keeps_others s c w w' \<longleftrightarrow> same_sessions w w' \<and> (\<forall>x. x \<noteq> s \<longrightarrow> stopped w' x \<longrightarrow> stopped w x) \<and>
     (\<forall>k. snd k \<noteq> c_ID (deref w c) \<longrightarrow> member (w_rooms w') k = member (w_rooms w) k)"

lemma keeps_others_refl [simp]: "keeps_others s c w w"
  by (simp add: keeps_others_def)

lemma keeps_others_trans:
  assumes "keeps_others s c u v" and "keeps_others s c v w"
  shows "keeps_others s c u w"
proof -
  from assms have uv: "same_sessions u v" and vw: "same_sessions v w" by (simp_all only: keeps_others_def)
  then have "c_ID (deref v c) = c_ID (deref u c)" by (simp add: same_sessions_def)
  with assms show ?thesis
    unfolding keeps_others_def using same_sessions_trans [OF uv vw] by (metis (no_types))
qed

lemma keeps_others_heartBeat: "keeps_others s c w (Client_heartBeat nanos a w)"
  using heartBeat_same [of w nanos a] by (simp add: keeps_others_def) (simp add: Client_heartBeat_def)

lemma keeps_others_stop: "keeps_others s c w (emit (CallStop s) w)"
  by (auto simp: keeps_others_def intro: same_sessions_emit)

lemma keeps_others_level: "keeps_others s c w (upd_client c (\<lambda>x. x\<lparr>c_level := lv\<rparr>) w)"
  by (auto simp: keeps_others_def intro: same_sessions_upd)

lemma keeps_others_room: "members_ok w \<Longrightarrow> keeps_others s c w (RoomManager_clientIn c r w)"
  by (auto simp: keeps_others_def room_clientIn_same) (auto simp: RoomManager_clientIn_def member_clientIn members_ok_def stopped_def)

lemma keeps_others_enqueue: "enqueue_msg nanos t r u n lv ps w = Some w' \<Longrightarrow> keeps_others s c w w'"
  using same_sessions_trans [OF same_sessions_fields(4) same_sessions_fields(3)]
  by (auto simp: enqueue_msg_def Let_def keeps_others_def stopped_def)

lemma keeps_others_refreshToken:
  "Client_refreshToken env token a w = (w', q) \<Longrightarrow> keeps_others s c w w'"
  by (auto simp: Client_refreshToken_def keeps_others_def session_of_def intro!: same_sessions_spawn
      split: sum.splits prod.splits option.splits)

lemma keeps_others_dispatch:
  assumes ok: "world_ok w" and run: "dispatch env nanos h t s m w = Some (w', r)" and "t \<noteq> MsgTypeRegister"
    and c: "userData w s = UD_Client c"
  shows "keeps_others s c w w'"
proof -
  let ?v = "Client_heartBeat nanos c w"
  have msc: "c_msc (deref w c) = s" using userData_client [OF ok c] by simp
  note beat = keeps_others_heartBeat [of s c w nanos c]
  note after = keeps_others_trans [OF beat]
  have rooms: "members_ok w" "members_ok ?v"
    using ok world_ok_heartBeat [OF ok] by (simp_all add: world_ok_def)
  have "keeps_others s c w w'" if "handleMsg env nanos t s m w = Some (w', r)"
  proof -
    have enter: "keeps_others s c w (RoomManager_clientIn c rm ?v)" for rm by (rule after [OF keeps_others_room [OF rooms(2)]])
    from that c show ?thesis
      by (auto simp: handleMsg_def Let_def split: prod.splits option.splits if_splits
          intro: beat after [OF keeps_others_enqueue] keeps_others_trans [OF enter keeps_others_enqueue])
  qed
  moreover have "keeps_others s c w w'" if "handleEnterRoom env s m w = (w', r)"
    using that c keeps_others_trans [OF keeps_others_room [OF rooms(1)] keeps_others_level]
    by (auto simp: handleEnterRoom_def Let_def split: prod.splits option.splits)
  moreover have "keeps_others s c w w'" if run: "handleRefreshToken env nanos s m w = (w', r)"
  proof -
    have stop: "keeps_others s c w (emit (CallStop (c_msc (deref u c))) u)" if u: "keeps_others s c w u" for u
    proof -
      have "c_msc (deref u c) = s" using u msc by (simp add: keeps_others_def same_sessions_def)
      then show ?thesis using keeps_others_trans [OF u keeps_others_stop] by simp
    qed
    obtain tok e where tok: "RefreshToken_Unmarshal m zero_RefreshToken = (tok, e)" by fastforce
    obtain u q where u: "Client_refreshToken (se_token env) (rt_Token tok) c ?v = (u, q)" by fastforce
    note kept = after [OF keeps_others_refreshToken [OF u]]
    show ?thesis
      using run c stop [OF beat] stop [OF kept] kept by (cases e; cases q) (simp_all add: handleRefreshToken_def tok u Let_def)
  qed
  moreover have "keeps_others s c w w'" if "handleHeartBeat env nanos s m w = (w', r)"
    using that c beat by (auto simp: handleHeartBeat_def split: prod.splits)
  ultimately show ?thesis using assms(2,3) by (simp add: dispatch_def split: if_splits)
qed

lemma clientIn_refused:
  assumes "\<forall>claims. refreshToken0 env (reg_Token rg) \<noteq> Inr (claims, None)" and "ClientManager_clientIn env nanos rg s w = (w', q)"
  shows "w' = w \<and> (\<forall>c. q \<noteq> Inr (Inr c))"
  using assms by (auto simp: ClientManager_clientIn_def split: sum.splits prod.splits option.splits)

text \<open>What an accepted registration does to the clients there are, and the client it makes.\<close>

lemma clientIn_effect:
  assumes "refreshToken0 env (reg_Token rg) = Inr (claims, None)" and "ClientManager_clientIn env nanos rg s w = (v, q)"
  shows "userData v x = (if x = s then UD_Client (length (w_heap w)) else userData w x)"
    and "stopped v x \<longleftrightarrow> stopped w x \<or> (\<exists>b. map_of (w_clients w) (reg_UserId rg) = Some b \<and> c_msc (deref w b) = x)"
    and "registered v (length (w_heap w)) \<and> c_ID (deref v (length (w_heap w))) = reg_UserId rg \<and>
      userData v s = UD_Client (length (w_heap w)) \<and> c_msc (deref v (length (w_heap w))) = s \<and> alive v (length (w_heap w))"
    and "a < length (w_heap w) \<Longrightarrow> registered v a \<longleftrightarrow> registered w a \<and> c_ID (deref w a) \<noteq> reg_UserId rg"
proof -
  note facts = clientIn_accepted [OF assms]
  show ud: "userData v x = (if x = s then UD_Client (length (w_heap w)) else userData w x)" for x
    by (auto simp: userData_def facts(8) split: option.split)
  show "stopped v x \<longleftrightarrow> stopped w x \<or> (\<exists>b. map_of (w_clients w) (reg_UserId rg) = Some b \<and> c_msc (deref w b) = x)"
    by (cases "map_of (w_clients w) (reg_UserId rg)") (auto simp: stopped_def facts(8))
  show "registered v (length (w_heap w)) \<and> c_ID (deref v (length (w_heap w))) = reg_UserId rg \<and>
      userData v s = UD_Client (length (w_heap w)) \<and> c_msc (deref v (length (w_heap w))) = s \<and> alive v (length (w_heap w))"
    by (auto simp: ud registered_def deref_def facts(2,3,7) new_client_def gomap_simps alive_def)
  show "a < length (w_heap w) \<Longrightarrow> registered v a \<longleftrightarrow> registered w a \<and> c_ID (deref w a) \<noteq> reg_UserId rg"
    by (auto simp: registered_def deref_def facts(2,3) nth_append gomap_simps)
qed

lemma login_users_clients:
  assumes "world_ok w" and "map_of (w_clients w) i = Some c"
  shows "alive w c \<and> c < length (w_heap w)"
proof -
  have "c \<in> set (sessions w)" and "\<forall>c \<in> set (sessions w). c < length (w_heap w)"
    using assms unfolding world_ok_def sessions_ok_def by blast+
  then show ?thesis by (simp add: set_sessions)
qed

text \<open>The connection of a registered client is nobody else's.\<close>

lemma reachable_owner:
  assumes "reachable_system l y" and "w = sys_world y" and "map_of (w_clients w) i = Some b" and "a < length (w_heap w)"
    and "c_msc (deref w b) = c_msc (deref w a)"
  shows "b = a"
proof -
  have b: "alive w b" "b < length (w_heap w)"
    using login_users_clients [OF reachable_world_ok [OF assms(1), folded assms(2)] assms(3)] by simp_all
  from reachable_userData(1) [OF assms(1,2) b(2)] b(1) have "userData w (c_msc (deref w a)) = UD_Client b"
    by (simp add: assms(5))
  with reachable_userData(1) [OF assms(1,2,4)] show ?thesis by (simp split: if_splits)
qed

lemma handleRegister_outcome:
  assumes ok: "world_ok w" and ud: "userData w s = UD_SClient s'" and run: "handleRegister env nanos handshaked s m w = (w', r)"
    and rg: "Register_Unmarshal m zero_Register = (rg, e)"
  shows "r = Inr () \<and>
    (if \<not> handshaked \<and> e = None \<and> (\<exists>claims. refreshToken0 (se_token env) (reg_Token rg) = Inr (claims, None))
     then \<exists>v. ClientManager_clientIn (se_token env) nanos rg s w = (v, Inr (Inr (length (w_heap w)))) \<and> w' = emit (CallHandshake s) v
     else w' = emit (CallStop s) w)"
proof -
  from ok have "userdata_ok w s (userData w s)" by (simp add: world_ok_def sessions_ok_def)
  with ud have s': "s' = s" by simp
  obtain v q where v: "ClientManager_clientIn (se_token env) nanos rg s w = (v, q)" by fastforce
  show ?thesis
  proof (cases "\<exists>claims. refreshToken0 (se_token env) (reg_Token rg) = Inr (claims, None)")
    case True
    with v have "q = Inr (Inr (length (w_heap w)))" using clientIn_accepted(1) by blast
    with run True v show ?thesis
      by (cases e) (auto simp: handleRegister_def ud s' rg split: if_splits)
  next
    case False
    with v have "v = w" and "\<forall>c. q \<noteq> Inr (Inr c)" using clientIn_refused by blast+
    with run False v show ?thesis
      by (cases e) (auto simp: handleRegister_def ud s' rg split: if_splits sum.splits)
  qed
qed

text \<open>
  C18: Registration is all or nothing, in every reachable state. On a connection that never had a session the
  handler does not panic; when the handshake is still to come, the message decodes and its token is accepted, it creates a session of the
  user id in the message, which is then registered, running and the connection's user data, and completes the handshake;
  in every other case it does nothing but stop the connection. On a connection that has or had a
  session, the type assertion fails, before the handler's recovery is in place, and nothing happens at all.
\<close>

theorem handleRegister_all_or_nothing:
  assumes "reachable_system l y" and "w = sys_world y"
    and "handleRegister env nanos handshaked s m w = (w', r)" and "Register_Unmarshal m zero_Register = (rg, e)"
  shows "if \<exists>c < length (w_heap w). c_msc (deref w c) = s then w' = w \<and> r = Inl TypeAssertion
    else r = Inr () \<and>
      (if \<not> handshaked \<and> e = None \<and> (\<exists>claims. refreshToken0 (se_token env) (reg_Token rg) = Inr (claims, None))
       then \<exists>c. userData w' s = UD_Client c \<and> registered w' c \<and> alive w' c \<and> c_msc (deref w' c) = s \<and>
         c_ID (deref w' c) = reg_UserId rg \<and> last (w_calls w') = CallHandshake s
       else w' = emit (CallStop s) w)"
proof (cases "\<exists>c < length (w_heap w). c_msc (deref w c) = s")
  case True
  then have "\<forall>s'. userData w s \<noteq> UD_SClient s'" using reachable_userData(1) [OF assms(1,2)] by (auto split: if_splits)
  with True assms(3) show ?thesis by (cases "userData w s") (auto simp: handleRegister_def)
next
  case False
  then have "userData w s = UD_SClient s" using reachable_userData(2) [OF assms(1,2)] by blast
  note outcome = handleRegister_outcome [OF reachable_world_ok [OF assms(1)] _ assms(3,4) [unfolded assms(2)], folded assms(2), OF this]
  have "\<exists>c. userData (emit (CallHandshake s) v) s = UD_Client c \<and> registered (emit (CallHandshake s) v) c \<and>
      alive (emit (CallHandshake s) v) c \<and> c_msc (deref (emit (CallHandshake s) v) c) = s \<and> c_ID (deref (emit (CallHandshake s) v) c) = reg_UserId rg"
    if tok: "refreshToken0 (se_token env) (reg_Token rg) = Inr (claims, None)"
      and inn: "ClientManager_clientIn (se_token env) nanos rg s w = (v, q)" for claims v q
    using clientIn_effect(3) [OF tok inn] by (intro exI [of _ "length (w_heap w)"]) (auto simp: registered_def)
  with False outcome show ?thesis by (auto split: if_splits)
qed

lemma isolation_same:
  assumes "keeps_others s c w w'" and "keeps_client w a w'" and "c_msc (deref w a) \<noteq> s" and "members_ok w" and "members_ok w'"
    and "userData w s = UD_Client c" and "a < length (w_heap w)"
  shows "registered w' a = registered w a \<and> stopped w' (c_msc (deref w a)) = stopped w (c_msc (deref w a)) \<and>
    userData w' (c_msc (deref w a)) = userData w (c_msc (deref w a)) \<and>
    ((\<forall>k. (member (w_rooms w') k = Some a) = (member (w_rooms w) k = Some a)) \<or> c_ID (deref w c) = c_ID (deref w a))"
proof -
  have "(member (w_rooms w') k = Some a) = (member (w_rooms w) k = Some a)" if "c_ID (deref w c) \<noteq> c_ID (deref w a)" for k
  proof (cases "snd k = c_ID (deref w c)")
    case True
    with that assms(2,4,5) show ?thesis unfolding members_ok_def keeps_client_def by metis
  qed (use assms(1) in \<open>simp add: keeps_others_def del: split_paired_All\<close>)
  then show ?thesis using assms(1-3) by (auto simp: keeps_others_def same_sessions_def registered_def keeps_client_def)
qed

text \<open>
  C19: A message on one connection leaves the other clients alone, in every reachable state: the object of a client that is not the
  connection's own (its queue, room, level, timer, heart-beat time and finished flag) stays exactly as it was, its session
  neither ends nor begins, the user data of its connection stays. Its registration stays and its connection
  is not told to stop, with one exception: a registration that takes over its user id. Then it was the registered client, its connection is told
  to stop, and the new client of this connection is registered in its place. Its place in every room stays too,
  unless the client of this connection has the same user id.
\<close>

theorem handlers_isolate_clients:
  assumes "reachable_system l y" and "w = sys_world y" and "dispatch env nanos h t s m w = Some (w', r)"
    and "a < length (w_heap w)" and "userData w s \<noteq> UD_Client a"
  shows "deref w' a = deref w a \<and> alive w' a = alive w a \<and>
    userData w' (c_msc (deref w a)) = userData w (c_msc (deref w a)) \<and>
    (registered w' a = registered w a \<and> stopped w' (c_msc (deref w a)) = stopped w (c_msc (deref w a)) \<or>
     t = MsgTypeRegister \<and> registered w a \<and> \<not> registered w' a \<and> stopped w' (c_msc (deref w a)) \<and>
     (\<exists>b. registered w' b \<and> c_ID (deref w' b) = c_ID (deref w a) \<and> userData w' s = UD_Client b)) \<and>
    ((\<forall>k. (member (w_rooms w') k = Some a) = (member (w_rooms w) k = Some a)) \<or>
     (\<exists>c. userData w s = UD_Client c \<and> c_ID (deref w c) = c_ID (deref w a)))"
proof -
  have ok: "world_ok w" using reachable_world_ok [OF assms(1)] assms(2) by simp
  have ok': "world_ok w'" by (rule world_ok_dispatch [OF ok assms(3)])
  have keeps: "keeps_client w a w'"
    using assms(3-5)
    by (auto simp: dispatch_def split: if_splits dest: keeps_handleRegister keeps_handleMsg
        keeps_handleRefreshToken keeps_handleEnterRoom keeps_handleHeartBeat)
  have other: "c_msc (deref w a) \<noteq> s \<or> userData w s = UD_nil"
    using reachable_userData(1) [OF assms(1,2,4)] assms(5) by (auto split: if_splits)
  show ?thesis
  proof (cases "userData w s")
    case (UD_SClient s')
    show ?thesis
    proof (cases "t = MsgTypeRegister")
      case True
      obtain rg e where rg: "Register_Unmarshal m zero_Register = (rg, e)" by fastforce
      from True assms(3) have "handleRegister env nanos h s m w = (w', r)" by (simp add: dispatch_def)
      from handleRegister_outcome [OF ok UD_SClient this rg] consider "w' = emit (CallStop s) w"
        | claims v where "refreshToken0 (se_token env) (reg_Token rg) = Inr (claims, None)"
          "ClientManager_clientIn (se_token env) nanos rg s w = (v, Inr (Inr (length (w_heap w))))" "w' = emit (CallHandshake s) v"
        by (auto split: if_splits)
      then show ?thesis
      proof cases
        case 1
        then show ?thesis using other UD_SClient by (auto simp: registered_def)
      next
        case 2
        note facts = clientIn_accepted [OF 2(1,2)] and new = clientIn_effect [OF 2(1,2)]
        let ?s = "c_msc (deref w a)"
        have same: "deref w' a = deref w a" "alive w' a = alive w a" using keeps by (simp_all add: keeps_client_def)
        have rooms: "w_rooms w' = w_rooms w" and data: "userData w' ?s = userData w ?s" and reg: "registered w' a \<longleftrightarrow> registered w a \<and> c_ID (deref w a) \<noteq> reg_UserId rg"
          using facts(4) new(1) [of ?s] new(4) [of a] other UD_SClient assms(4) by (simp_all add: 2(3) registered_def)
        have stop: "stopped w' ?s \<longleftrightarrow> stopped w ?s \<or> map_of (w_clients w) (reg_UserId rg) = Some a"
          using new(2) reachable_owner [OF assms(1,2) _ assms(4)] by (auto simp: 2(3))
        have regw: "registered w a \<longleftrightarrow> map_of (w_clients w) (c_ID (deref w a)) = Some a" by (simp add: registered_def)
        have "\<exists>b. registered w' b \<and> c_ID (deref w' b) = reg_UserId rg \<and> userData w' s = UD_Client b"
          using new(3) by (intro exI [of _ "length (w_heap w)"]) (auto simp: 2(3) registered_def)
        moreover have "map_of (w_clients w) (reg_UserId rg) = Some a \<Longrightarrow> c_ID (deref w a) = reg_UserId rg"
          using ok by (simp add: world_ok_def sessions_ok_def clients_ok_def)
        ultimately show ?thesis
          using same rooms data reg stop regw True by auto
      qed
    qed (use assms(3) UD_SClient in \<open>auto simp: dispatch_def handleMsg_def handleEnterRoom_def handleRefreshToken_def
        handleHeartBeat_def split: if_splits\<close>)
  next
    case (UD_Client c)
    show ?thesis
    proof (cases "t = MsgTypeRegister")
      case True
      with assms(3) UD_Client show ?thesis by (auto simp: dispatch_def handleRegister_def)
    next
      case False
      from isolation_same [OF keeps_others_dispatch [OF ok assms(3) False UD_Client] keeps _ _ _ UD_Client assms(4)]
      show ?thesis using ok ok' other keeps UD_Client by (auto simp: world_ok_def keeps_client_def)
    qed
  next
    case UD_nil
    with assms(3) have "w' = w"
      by (auto simp: dispatch_def handleMsg_def handleEnterRoom_def handleRefreshToken_def handleHeartBeat_def
          handleRegister_def split: if_splits)
    then show ?thesis by simp
  qed
qed

text \<open>A drain that has room for everything empties every queue.\<close>

lemma drain_all:
  assumes "group_ok (Some grp)" and "range_order grp order"
    and "(\<Sum>r \<in> keys_of grp. length (queue_of grp r)) \<le> n"
    and "MessageQueueGroup_DrainTo order [] (int n) (Some grp) = (ms, rest, g)"
  shows "waiting g r = []" and "set (queue_of grp r) \<subseteq> set ms"
proof -
  from MessageQueueGroup_DrainTo_spec [OF assms(1,2,4)] obtain taken where
    ms: "ms = concat (map taken order)" and split: "\<And>r. queue_of grp r = taken r @ waiting g r" and
    rest: "rest = (\<Sum>r \<in> keys_of grp. length (waiting g r))" and full: "0 < rest \<Longrightarrow> n \<le> length ms"
    by auto
  have order: "distinct order" "set order = keys_of grp" using assms(2) by (simp_all add: range_order_def)
  then have "length ms = (\<Sum>r \<in> keys_of grp. length (taken r))"
    by (simp add: ms length_concat sum_list_map_distinct o_def)
  then have "(\<Sum>r \<in> keys_of grp. length (queue_of grp r)) = length ms + rest"
    by (simp add: split rest sum.distrib)
  with assms(3) full have "rest = 0" by (cases "rest = 0") auto
  then have "waiting g r = []" if "r \<in> keys_of grp" using that rest by simp
  moreover have "waiting g r = []" if "r \<notin> keys_of grp"
    using that split [of r] by (simp add: queue_of_def keys_of_conv)
  ultimately show "waiting g r = []" by blast
  then have "queue_of grp r = taken r" using split [of r] by simp
  moreover have "queue_of grp r = []" if "r \<notin> keys_of grp" using that by (simp add: queue_of_def keys_of_conv)
  ultimately show "set (queue_of grp r) \<subseteq> set ms"
    using ms order(2) by (cases "r \<in> keys_of grp") auto
qed

text \<open>
  While no compute server is known the consumer throws messages away: a tick takes the waiting
  messages off the queues (all of them, up to 10000), nothing is written to the network, and the
  panic that stopped the delivery is swallowed, so the messages are gone.
\<close>

theorem consume_without_servers_loses_messages:
  assumes "w_group (sys_world y) = Some grp" and "group_ok (Some grp)" and "range_order grp order"
    and "rpc_availableAddresses (rs_rpc (sys_rpc y)) = []"
    and "(\<Sum>r \<in> keys_of grp. length (queue_of grp r)) \<le> 10000"
  shows "sys_rpc (consume net pm zl order y) = sys_rpc y \<and>
    (\<forall>r. waiting (w_group (sys_world (consume net pm zl order y))) r = [])"
proof -
  obtain ms rest g where d: "MessageQueueGroup_DrainTo order [] 10000 (Some grp) = (ms, rest, g)"
    by (metis prod_cases3)
  have "fst (rpc_deliver net pm zl (rs_rpc (sys_rpc y)) ms u) = u" for u
    using assms(4)
    by (auto simp: rpc_deliver_def rpc_send_def numeral_3_eq_3 Let_def split: prod.split)
  then have deliver: "\<exists>q. rpc_deliver net pm zl (rs_rpc (sys_rpc y)) ms u = (u, q)" for u
    by (metis prod.collapse)
  have "waiting g r = []" for r
    using drain_all (1) [OF assms(2,3,5), of ms rest g r] d by simp
  moreover have "w_group (sys_world (consume net pm zl order y)) = g"
    and "sys_rpc (consume net pm zl order y) = sys_rpc y"
    using deliver [of "rs_upstream (sys_rpc y)"] d assms(1)
    by (auto simp: consume_def consumeEvent_def Let_def)
  ultimately show ?thesis by simp
qed

section \<open>Witnesses\<close>

text \<open>Libraries that accept every token; the user registers on connection 7 and then again on
  connection 8.\<close>

definition register_text :: bytes where
  \<open>register_text = string_bytes ''{"UserId":"u"}''\<close>

definition chat_text :: bytes where
  \<open>chat_text = string_bytes ''{"RoomId":"r", "Content":"hi"}''\<close>

definition sample_svc :: svc_env where
  "sample_svc = \<lparr>se_token = accept_env\<rparr>"

definition sample_libs :: libs where
  "sample_libs = \<lparr>l_env = sample_svc,
     l_zlib = id, l_pmarshal = sample_pm, l_net = sample_net\<rparr>"

definition first_login :: world where
  "first_login = \<lparr>w_heap = [new_client ''u'' 7 0], w_msgs = [], w_clients = [(''u'', 0)], w_rooms = [],
     w_group = None, w_chatMessageCounter = 0, w_packedMessageCounter = 0,
     w_info = \<lparr>info_LoginUsers = 1, info_ConnectedClients = 0, info_InData = 0, info_OutData = 0,
       info_InQueue = 0\<rparr>,
     w_calls = [CallSetUserData 7 (UD_Client 0), CallHandshake 7],
     w_tasks = [Pump 0, Monitor 0, Expire 0 (- 1)]\<rparr>"

definition second_login :: world where
  "second_login = first_login\<lparr>w_heap := [new_client ''u'' 7 0, new_client ''u'' 8 0], w_clients := [(''u'', 1)],
     w_info := (w_info first_login)\<lparr>info_LoginUsers := 2\<rparr>,
     w_calls := w_calls first_login @ [CallStop 7, CallSetUserData 8 (UD_Client 1), CallHandshake 8],
     w_tasks := w_tasks first_login @ [Pump 1, Monitor 1, Expire 1 (- 1)]\<rparr>"

lemma sample_texts:
  "json_parse register_text = Some (JObj [(''UserId'', JStr ''u'')])"
  "json_parse chat_text = Some (JObj [(''RoomId'', JStr ''r''), (''Content'', JStr ''hi'')])"
  by code_simp+

lemma sample_Register_msg:
  "Register_Unmarshal register_text zero_Register =
     (\<lparr>reg_UserId = ''u'', reg_Token = '''', reg_ClientToConnectorVersion = 0\<rparr>, None)"
  by (simp add: Register_Unmarshal_def json_Unmarshal_def sample_texts
      Register_schema_def find_field_def dec_string_def zero_Register_def first_err_def)

lemma sample_Chat_msg:
  "Chat_Unmarshal chat_text zero_Chat = (zero_Chat\<lparr>ch_RoomId := ''r'', ch_Content := ''hi''\<rparr>, None)"
  by (simp add: Chat_Unmarshal_def json_Unmarshal_def sample_texts
      Chat_schema_def find_field_def dec_string_def zero_Chat_def first_err_def)

lemma sample_token: "refreshToken0 (se_token sample_svc) t = Inr (zero_Token\<lparr>tk_ExpireTime := - 1\<rparr>, None)"
  by (simp add: refreshToken0_def sample_svc_def accept_env_def)

lemmas sample_login = handleRegister_def sample_Register_msg sample_token userData_def zero_Token_def deref_def
  ClientManager_clientIn_def createClient_def Let_def add_LoginUsers_def spawn_def emit_def upd_client_def
  new_client_def

lemma first_login_step: "handleRegister sample_svc 0 False 7 register_text init_world = (first_login, Inr ())"
  by (simp add: sample_login init_world_def first_login_def)

lemma second_login_step: "handleRegister sample_svc 0 False 8 register_text first_login = (second_login, Inr ())"
  by (simp add: sample_login first_login_def second_login_def)

lemma message_step:
  assumes "reachable_system sample_libs (init_system\<lparr>sys_world := w\<rparr>)"
    and "dispatch sample_svc nanos h t s m w = Some (w', r)"
  shows "reachable_system sample_libs (init_system\<lparr>sys_world := w'\<rparr>)"
proof -
  have "world_step sample_libs w w'"
    by (rule world_step.message [of sample_libs nanos h t s m w w' r]) (simp add: sample_libs_def assms(2))
  then have "service_step sample_libs (init_system\<lparr>sys_world := w\<rparr>) (init_system\<lparr>sys_world := w'\<rparr>)"
    using service_step.in_world [of sample_libs "init_system\<lparr>sys_world := w\<rparr>" w'] by simp
  with assms(1) show ?thesis by (rule reach_step)
qed

lemma init_reachable: "reachable_system l (init_system\<lparr>sys_world := init_world\<rparr>)"
  by (rule reach_init) (simp add: init_system_def)

lemma first_login_reachable: "reachable_system sample_libs (init_system\<lparr>sys_world := first_login\<rparr>)"
proof (rule message_step [OF init_reachable])
  show "dispatch sample_svc 0 False MsgTypeRegister 7 register_text init_world = Some (first_login, Inr ())"
    by (simp add: dispatch_def first_login_step)
qed

lemma second_login_reachable: "reachable_system sample_libs (init_system\<lparr>sys_world := second_login\<rparr>)"
proof (rule message_step [OF first_login_reachable])
  show "dispatch sample_svc 0 False MsgTypeRegister 8 register_text first_login = Some (second_login, Inr ())"
    by (simp add: dispatch_def second_login_step)
qed

lemma second_login_facts:
  "alive second_login 0" "alive second_login 1" "\<not> stopped second_login 8"
  "c_ID (deref second_login 0) = ''u''" "c_ID (deref second_login 1) = ''u''"
  "c_msc (deref second_login 0) = 7" "c_msc (deref second_login 1) = 8"
  "userData second_login 8 = UD_Client 1" "userData second_login 9 = UD_SClient 9"
  "length (w_heap second_login) = 2"
  by (simp_all add: second_login_def first_login_def alive_def stopped_def deref_def new_client_def userData_def)

theorem single_live_session_witness:
  "alive second_login 0 \<and> alive second_login 1 \<and> \<not> stopped second_login 8 \<and> stopped second_login 7"
  using single_live_session [OF second_login_reachable, of second_login 0 1] second_login_facts by auto

theorem login_users_counts_sessions_witness:
  "info_LoginUsers (w_info second_login) = of_nat (card {c. alive second_login c})"
  using login_users_counts_sessions [OF second_login_reachable, of second_login] by simp

theorem handleMsg_stores_chat_witness:
  "\<exists>w'. handleMsg sample_svc 5000000 MsgTypeChat 8 chat_text second_login = Some (w', Inr ()) \<and>
     w_chatMessageCounter w' = 1"
  using handleMsg_stores_chat [OF second_login_reachable _ second_login_facts(8) sample_Chat_msg, of sample_svc 5000000]
  by (auto simp: Let_def second_login_def first_login_def)

lemma first_session_ended:
  "reachable_system sample_libs (init_system\<lparr>sys_world := Client_monitor_done 0 first_login\<rparr>)"
proof (rule reach_step [OF first_login_reachable])
  have "world_step sample_libs first_login (Client_monitor_done 0 first_login)"
    by (rule world_step.session_end) (simp add: alive_def first_login_def)
  then show "service_step sample_libs (init_system\<lparr>sys_world := first_login\<rparr>) (init_system\<lparr>sys_world := Client_monitor_done 0 first_login\<rparr>)"
    using service_step.in_world [of sample_libs "init_system\<lparr>sys_world := first_login\<rparr>"] by simp
qed

lemma first_session_ended_facts:
  "length (w_heap (Client_monitor_done 0 first_login)) = 1" "\<not> alive (Client_monitor_done 0 first_login) 0"
  "c_msc (deref (Client_monitor_done 0 first_login) 0) = 7"
proof -
  have f: "c_msc (deref first_login 0) = 7" "length (w_heap first_login) = 1"
    "\<not> Monitor 0 \<in> set (remove1 (Monitor 0) (w_tasks first_login))"
    by (simp_all add: first_login_def deref_def new_client_def)
  then show "length (w_heap (Client_monitor_done 0 first_login)) = 1" "\<not> alive (Client_monitor_done 0 first_login) 0"
    "c_msc (deref (Client_monitor_done 0 first_login) 0) = 7"
    by (simp_all add: alive_def) (simp_all add: Client_monitor_done_def Let_def)
qed

theorem no_session_no_service_witness:
  "dispatch sample_svc 0 True MsgTypeChat 7 chat_text (Client_monitor_done 0 first_login) =
     (Some (Client_monitor_done 0 first_login, Inl TypeAssertion)) \<and>
   dispatch sample_svc 0 False MsgTypeRegister 7 register_text (Client_monitor_done 0 first_login) =
     (Some (Client_monitor_done 0 first_login, Inl TypeAssertion))"
  using no_session_no_service [OF first_session_ended, of "Client_monitor_done 0 first_login" 7 MsgTypeChat sample_svc 0 True chat_text]
    no_session_no_service [OF first_session_ended, of "Client_monitor_done 0 first_login" 7 MsgTypeRegister sample_svc 0 False register_text]
    first_session_ended_facts
  by simp

theorem handlers_isolate_clients_witness:
  "deref second_login 0 = deref first_login 0 \<and> \<not> registered second_login 0 \<and> registered first_login 0 \<and>
   (\<exists>b. registered second_login b \<and> userData second_login 8 = UD_Client b)"
proof -
  have "dispatch sample_svc 0 False MsgTypeRegister 8 register_text first_login = Some (second_login, Inr ())"
    by (simp add: dispatch_def second_login_step)
  moreover have "registered first_login 0" "\<not> registered second_login 0"
    by (simp_all add: registered_def first_login_def second_login_def deref_def new_client_def)
  moreover have "length (w_heap first_login) = 1" "userData first_login 8 \<noteq> UD_Client 0"
    by (simp_all add: first_login_def userData_def)
  ultimately show ?thesis
    using handlers_isolate_clients [OF first_login_reachable, of first_login sample_svc 0 False MsgTypeRegister 8 register_text second_login "Inr ()" 0]
    by auto
qed

theorem handleRegister_all_or_nothing_witness:
  "snd (handleRegister sample_svc 0 True 9 register_text second_login) = Inr () \<and>
   fst (handleRegister sample_svc 0 False 8 register_text second_login) = second_login"
proof -
  obtain w' r w'' r'' where h: "handleRegister sample_svc 0 True 9 register_text second_login = (w', r)"
    "handleRegister sample_svc 0 False 8 register_text second_login = (w'', r'')" by fastforce
  have "c_msc (deref second_login c) \<noteq> 9" if "c < 2" for c
    using that second_login_facts by (auto simp: numeral_2_eq_2 less_Suc_eq)
  moreover have "\<exists>c < 2. c_msc (deref second_login c) = 8" using second_login_facts by (intro exI [of _ 1]) simp
  ultimately show ?thesis
    using handleRegister_all_or_nothing [OF second_login_reachable _ h(1) sample_Register_msg]
      handleRegister_all_or_nothing [OF second_login_reachable _ h(2) sample_Register_msg] h second_login_facts
    by auto
qed

theorem consume_without_servers_loses_messages_witness:
  "waiting (w_group (sys_world (consume sample_net sample_pm id [''r'']
     (init_system\<lparr>sys_world := init_world\<lparr>w_group := Some sample_group\<rparr>\<rparr>)))) ''r'' = [] \<and>
   waiting (Some sample_group) ''r'' \<noteq> []"
proof -
  let ?y = "init_system\<lparr>sys_world := init_world\<lparr>w_group := Some sample_group\<rparr>\<rparr>"
  have "(\<Sum>r \<in> keys_of sample_group. length (queue_of sample_group r)) \<le> 10000"
    by (simp add: sample_group_def keys_of_def queue_of_def)
  then show ?thesis
    using consume_without_servers_loses_messages [of ?y sample_group "[''r'']" sample_net sample_pm id]
      sample_group_ok sample_group_order
    by (simp add: init_system_def rpcClient_def) (simp add: waiting_def queue_of_def sample_group_def)
qed

end
