(* ===== verification/Statistics.thy ===== *)
theory Statistics
  imports Subscriber
begin

text \<open>
  \<^verbatim>\<open>stat.go\<close>: the counters of connected clients kept by the listener, and the report
  that the connector publishes every second. The byte counts of a connection (\<open>statis\<close>) are
  bdmsg's, the load figures come from the operating system; all are arguments. A
  floating-point number is its bit pattern: the code only passes it on.
\<close>

section \<open>Operations\<close>

type_synonym float64 = "64 word"

record NamingInfo =
  ni_RegisterTime :: int
  ni_LoginUsers :: "32 word"
  ni_ConnectedClients :: "32 word"
  ni_InData :: int
  ni_OutData :: int
  ni_InQueue :: int
  ni_OutQueue :: int
  ni_CPU :: "float64 list option"
  ni_MemoryUsage :: float64

definition add_ConnectedClients :: "32 word \<Rightarrow> world \<Rightarrow> world" where
  "add_ConnectedClients d w =
     w\<lparr>w_info := (w_info w)\<lparr>info_ConnectedClients := info_ConnectedClients (w_info w) + d\<rparr>\<rparr>"

text \<open>\<open>err\<close> is what the wrapped listener or connection returned.\<close>

definition listener_Accept :: "err option \<Rightarrow> world \<Rightarrow> world" where
  "listener_Accept err w = (if err = None then add_ConnectedClients 1 w else w)"

definition myConn_Close :: "err option \<Rightarrow> world \<Rightarrow> world \<times> err option" where
  "myConn_Close err w = ((if err = None then add_ConnectedClients (- 1) w else w), err)"

definition traffic_body :: "(conn \<Rightarrow> int \<times> int) \<Rightarrow> world \<Rightarrow> string \<Rightarrow> addr \<Rightarrow> int \<times> int \<Rightarrow> int \<times> int" where
  "traffic_body statis w i c totals =
     (let (BytesReaded, BytesWritten) = statis (c_msc (deref w c))
      in (wrap64 (fst totals + BytesReaded), wrap64 (snd totals + BytesWritten)))"

text \<open>The report function of \<^verbatim>\<open>RegisterNamingService\<close>. \<open>vmStat\<close> is \<open>None\<close> when the memory
  figures could not be read: the error is logged and the nil pointer read all the same. The
  slice \<open>cpuPercent\<close> is \<open>None\<close> when it is nil.\<close>

definition naming_report ::
  "(conn \<Rightarrow> int \<times> int) \<Rightarrow> float64 list option \<Rightarrow> float64 option \<Rightarrow> int \<Rightarrow> string list \<Rightarrow> string list \<Rightarrow> world \<Rightarrow>
   world \<times> NamingInfo may_panic" where
  "naming_report statis cpuPercent vmStat nanos order statOrder w =
     (let (totalIn, totalOut) = range_loop (traffic_body statis w) (w_clients w) order (0, 0);
          info = w_info w
      in case vmStat of
           None \<Rightarrow> (w, Inl NilDereference)
         | Some UsedPercent \<Rightarrow>
             (w\<lparr>w_info := info\<lparr>info_OutData := totalOut, info_InData := totalIn\<rparr>\<rparr>,
              Inr \<lparr>ni_RegisterTime = nanos sdiv 1000000, ni_LoginUsers = info_LoginUsers info,
                ni_ConnectedClients = info_ConnectedClients info,
                ni_InData = wrap64 (totalIn - info_InData info),
                ni_OutData = wrap64 (totalOut - info_OutData info),
                ni_InQueue = info_InQueue info, ni_OutQueue = subscriber_stat statOrder w,
                ni_CPU = cpuPercent, ni_MemoryUsage = UsedPercent\<rparr>))"

section \<open>Totals do not depend on the order\<close>

interpretation traffic: commuting_body "traffic_body statis w" for statis w
  by unfold_locales
    (simp add: traffic_body_def Let_def wrap_add_simps add.commute add.left_commute split: prod.split)

section \<open>Runs of reports\<close>

text \<open>Reports alternate with everything else the connector does, none of which touches the stored
  totals; \<open>ds\<close> are the increments of received bytes reported so far.\<close>

inductive report_run :: "int list \<Rightarrow> world \<Rightarrow> bool" where
  rr_start: "info_InData (w_info w) = 0 \<Longrightarrow> report_run [] w"
| rr_other: "report_run ds w \<Longrightarrow> info_InData (w_info w') = info_InData (w_info w) \<Longrightarrow> report_run ds w'"
| rr_report: "report_run ds w \<Longrightarrow>
    naming_report statis cpu vm nanos order statOrder w = (w', Inr r) \<Longrightarrow> report_run (ds @ [ni_InData r]) w'"

lemma report_values:
  assumes "naming_report statis cpu vm nanos order statOrder w = (w', Inr r)"
  shows "ni_InData r = wrap64 (info_InData (w_info w') - info_InData (w_info w))"
    and "ni_OutData r = wrap64 (info_OutData (w_info w') - info_OutData (w_info w))"
    and "info_InData (w_info w') = fst (range_loop (traffic_body statis w) (w_clients w) order (0, 0))"
  using assms by (auto simp: naming_report_def Let_def split: option.splits prod.splits)

text \<open>The order in which the run time visits the clients does not matter.\<close>

lemma report_order_irrelevant:
  assumes "range_order (w_clients w) order" and "range_order (w_clients w) order'"
  shows "naming_report statis cpu vm nanos order order w = naming_report statis cpu vm nanos order' order' w"
  unfolding naming_report_def subscriber_stat_def traffic.order_irrelevant [OF assms]
    stat.order_irrelevant [OF assms] ..

section \<open>Correctness\<close>

text \<open>
  The reported increments of received bytes add up: over every run of the connector their sum
  is, modulo \<open>2 ^ 64\<close>, the total the last report counted.
\<close>

theorem reports_add_up:
  assumes "report_run ds w"
  shows "wrap64 (sum_list ds) = wrap64 (info_InData (w_info w))"
  using assms
proof (induction rule: report_run.induct)
  case (rr_report ds w statis cpu vm nanos order statOrder w' r)
  let ?s = "info_InData (w_info w)" and ?t = "info_InData (w_info w')"
  have "wrap64 (sum_list (ds @ [ni_InData r])) = wrap64 (wrap64 (sum_list ds) + (?t - ?s))"
    by (simp only: report_values(1) [OF rr_report(2)] sum_list_append sum_list.Cons sum_list.Nil
        add_0_right wrap64_add_right wrap64_add)
  also have "\<dots> = wrap64 ?t" by (simp only: rr_report.IH wrap64_add) simp
  finally show ?case .
qed simp_all

text \<open>
  A report counts only the bytes of the clients registered at that moment and subtracts what
  the previous report counted: when the clients have left, it says that a negative number of
  bytes was received. Where the memory figures are missing the report function dereferences nil.
\<close>

theorem report_after_clients_left:
  assumes "w_clients w = []" and "in_int64 (- info_InData (w_info w))"
  shows "(\<exists>w' r. naming_report statis cpu (Some mu) nanos [] [] w = (w', Inr r) \<and>
      ni_InData r = - info_InData (w_info w)) \<and>
    naming_report statis cpu None nanos [] [] w = (w, Inl NilDereference)"
  using assms by (simp add: naming_report_def Let_def)

section \<open>Witnesses\<close>

definition one_client :: world where
  "one_client = init_world\<lparr>w_heap := [sample_client ''u'' 7], w_clients := [(''u'', 0)]\<rparr>"

definition one_report :: world where
  "one_report = fst (naming_report (\<lambda>_. (40, 2)) None (Some 0) 0 [''u''] [''u''] one_client)"

theorem reports_add_up_witness: "wrap64 (sum_list [40]) = wrap64 (info_InData (w_info one_report))"
proof -
  obtain r where r: "naming_report (\<lambda>_. (40, 2)) None (Some 0) 0 [''u''] [''u''] one_client = (one_report, Inr r)"
    and "ni_InData r = 40"
    by (simp add: one_report_def naming_report_def Let_def one_client_def init_world_def traffic_body_def
        in_int64_def)
  moreover have "report_run [] one_client"
    by (rule report_run.rr_start) (simp add: one_client_def init_world_def)
  ultimately have "report_run [40] one_report"
    using report_run.rr_report [of "[]" one_client] by fastforce
  then show ?thesis by (rule reports_add_up)
qed

theorem report_after_clients_left_witness:
  "\<exists>w' r. naming_report (\<lambda>_. (0, 0)) None (Some 0) 0 [] []
       (init_world\<lparr>w_info := (w_info init_world)\<lparr>info_InData := 100\<rparr>\<rparr>) = (w', Inr r) \<and> ni_InData r = - 100"
  using report_after_clients_left [of "init_world\<lparr>w_info := (w_info init_world)\<lparr>info_InData := 100\<rparr>\<rparr>"
      "\<lambda>_. (0, 0)" None 0 0]
  by (simp add: init_world_def in_int64_def)

end
