(* ===== verification/Naming.thy ===== *)
theory Naming
  imports Go_Prelude
begin

text \<open>
  \<^verbatim>\<open>naming.go\<close>: the connector asks several web services for its own internet address,
  takes the answer that most of them gave, and remembers it. What a service answers is an
  argument: the body of the response, or an error.
\<close>

section \<open>Finding an address in a page\<close>

text \<open>
  The regular expression \<^verbatim>\<open>(\d{1,3}\.){3}\d{1,3}\<close>, matched leftmost and greedily. A group
  must be followed by a dot, so it takes the whole run of digits at its place.
\<close>

definition match_group :: "string \<Rightarrow> (string \<times> string) option" where
  "match_group s =
     (let ds = takeWhile is_digit s; rest = drop (length ds) s
      in if 1 \<le> length ds \<and> length ds \<le> 3 \<and> (case rest of c # _ \<Rightarrow> c = CHR ''.'' | [] \<Rightarrow> False)
         then Some (ds @ [hd rest], tl rest) else None)"

fun match_groups :: "nat \<Rightarrow> string \<Rightarrow> (string \<times> string) option" where
  "match_groups 0 s = Some ('''', s)"
| "match_groups (Suc n) s =
     (case match_group s of
        None \<Rightarrow> None
      | Some (g, rest) \<Rightarrow> map_option (\<lambda>(gs, r). (g @ gs, r)) (match_groups n rest))"

definition match_ip :: "string \<Rightarrow> string option" where
  "match_ip s =
     (case match_groups 3 s of
        None \<Rightarrow> None
      | Some (gs, rest) \<Rightarrow>
          (let ds = take 3 (takeWhile is_digit rest) in if ds = [] then None else Some (gs @ ds)))"

fun find_ip :: "string \<Rightarrow> string" where
  "find_ip [] = (case match_ip [] of Some ip \<Rightarrow> ip | None \<Rightarrow> '''')"
| "find_ip (c # s) = (case match_ip (c # s) of Some ip \<Rightarrow> ip | None \<Rightarrow> find_ip s)"

text \<open>\<^verbatim>\<open>extractIp\<close>: \<open>get\<close> is the outcome of the request, the bytes of the body that could be
  read; that reading stopped early is ignored.\<close>

definition extractIp :: "string result \<Rightarrow> string result" where
  "extractIp get = (case get of Inl err \<Rightarrow> Inl err | Inr body \<Rightarrow> Inr (find_ip body))"

section \<open>Voting\<close>

definition vote :: "string \<Rightarrow> (string, nat) gomap \<Rightarrow> (string, nat) gomap" where
  "vote ip ipVotes =
     (let count = (case map_of ipVotes ip of None \<Rightarrow> 0 | Some n \<Rightarrow> n);
          ipVotes = (if map_of ipVotes ip = None then AList.update ip 0 ipVotes else ipVotes)
      in AList.update ip (count + 1) ipVotes)"

definition ip_votes :: "string result list \<Rightarrow> (string, nat) gomap" where
  "ip_votes gets = fold (\<lambda>get votes. case extractIp get of Inl err \<Rightarrow> votes | Inr ip \<Rightarrow> vote ip votes) gets []"

definition top_vote :: "(string, nat) gomap \<Rightarrow> string list \<Rightarrow> nat \<times> string" where
  "top_vote ipVotes order =
     range_loop (\<lambda>ip n (topVote, topIp). if topVote < n then (n, ip) else (topVote, topIp))
       ipVotes order (0, '''')"

definition resolveIp :: "string result list \<Rightarrow> string list \<Rightarrow> string may_panic" where
  "resolveIp gets order =
     (let (topVote, topIp) = top_vote (ip_votes gets) order
      in if topIp = '''' then Inl (PanicText ''no available dns'') else Inr topIp)"

definition resolveInternetAddress :: "string result list \<Rightarrow> string list \<Rightarrow> nat \<Rightarrow> string may_panic" where
  "resolveInternetAddress gets order port =
     bind_panic (resolveIp gets order) (\<lambda>ip. Inr (ip @ '':'' @ decimal port))"

text \<open>\<^verbatim>\<open>getInternetAddress\<close> with its cache.\<close>

definition getInternetAddress ::
  "string result list \<Rightarrow> string list \<Rightarrow> nat \<Rightarrow> string \<Rightarrow> string \<times> string may_panic" where
  "getInternetAddress gets order port cachedInternetAddress =
     (if cachedInternetAddress = '''' then
        (case resolveInternetAddress gets order port of
           Inl p \<Rightarrow> (cachedInternetAddress, Inl p)
         | Inr a \<Rightarrow> (a, Inr a))
      else (cachedInternetAddress, Inr cachedInternetAddress))"

section \<open>The matcher and the regular expression\<close>

definition octet :: "string \<Rightarrow> bool" where
  "octet s \<longleftrightarrow> 1 \<le> length s \<and> length s \<le> 3 \<and> list_all is_digit s"

definition is_ip :: "string \<Rightarrow> bool" where
  "is_ip s \<longleftrightarrow> (\<exists>a b c d. octet a \<and> octet b \<and> octet c \<and> octet d \<and> s = a @ ''.'' @ b @ ''.'' @ c @ ''.'' @ d)"

lemma dot_no_digit [simp]: "\<not> is_digit CHR ''.''"
  by (simp add: is_digit_def)

lemma match_group_iff:
  "match_group s = Some (g, rest) \<longleftrightarrow> (\<exists>a. octet a \<and> g = a @ ''.'' \<and> s = a @ ''.'' @ rest)"
proof
  assume m: "match_group s = Some (g, rest)"
  let ?ds = "takeWhile is_digit s"
  from m have "1 \<le> length ?ds" "length ?ds \<le> 3" and r: "drop (length ?ds) s = CHR ''.'' # rest"
    and g: "g = ?ds @ ''.''"
    by (auto simp: match_group_def Let_def split: if_splits list.splits)
  moreover have "list_all is_digit ?ds" by (auto simp: list_all_iff dest: set_takeWhileD)
  moreover have "s = ?ds @ drop (length ?ds) s" by (metis append_take_drop_id takeWhile_eq_take)
  ultimately show "\<exists>a. octet a \<and> g = a @ ''.'' \<and> s = a @ ''.'' @ rest"
    by (intro exI [of _ ?ds]) (simp add: octet_def)
next
  assume "\<exists>a. octet a \<and> g = a @ ''.'' \<and> s = a @ ''.'' @ rest"
  then obtain a where a: "octet a" "g = a @ ''.''" "s = a @ ''.'' @ rest" by blast
  then have "takeWhile is_digit s = a" by (simp add: octet_def list_all_iff takeWhile_append2)
  with a show "match_group s = Some (g, rest)" by (simp add: match_group_def octet_def Let_def)
qed

lemma match_ip_sound: "match_ip s = Some ip \<Longrightarrow> is_ip ip \<and> (\<exists>rest. s = ip @ rest)"
proof -
  assume "match_ip s = Some ip"
  then obtain gs rest where g: "match_groups 3 s = Some (gs, rest)"
    and ds: "take 3 (takeWhile is_digit rest) \<noteq> []" and ip: "ip = gs @ take 3 (takeWhile is_digit rest)"
    by (auto simp: match_ip_def Let_def split: option.splits if_splits)
  let ?d = "take 3 (takeWhile is_digit rest)"
  from g obtain a b c where abc: "octet a" "octet b" "octet c" "gs = a @ ''.'' @ b @ ''.'' @ c @ ''.''"
    and s: "s = gs @ rest"
    by (auto simp: numeral_3_eq_3 match_group_iff split: option.splits)
  have "octet ?d"
    using ds by (auto simp: octet_def list_all_iff Suc_le_eq dest: in_set_takeD set_takeWhileD)
  with abc ip have "is_ip ip" unfolding is_ip_def by (metis append.assoc)
  moreover have "rest = ?d @ drop (length ?d) rest"
    by (metis append_take_drop_id takeWhile_dropWhile_id append_eq_conv_conj append.assoc)
  ultimately show ?thesis using s ip by (metis append.assoc)
qed

text \<open>The dots fix the first three groups, so what is matched at a place is the longest address there.\<close>

lemma match_ip_complete:
  assumes "is_ip ip"
  obtains x where "match_ip (ip @ rest) = Some x" and "length ip \<le> length x"
proof -
  obtain a b c d where o4: "octet a" "octet b" "octet c" "octet d" and ip: "ip = a @ ''.'' @ b @ ''.'' @ c @ ''.'' @ d"
    using assms unfolding is_ip_def by blast
  have mg: "match_group (x @ CHR ''.'' # y) = Some (x @ ''.'', y)" if "octet x" for x y
    using that match_group_iff [of "x @ CHR ''.'' # y" "x @ ''.''" y] by auto
  have groups: "match_groups 3 (ip @ rest) = Some (a @ ''.'' @ b @ ''.'' @ c @ ''.'', d @ rest)"
    using o4 mg by (simp add: ip numeral_3_eq_3)
  have d: "length d \<le> length (take 3 (takeWhile is_digit (d @ rest)))" "d \<noteq> []"
    using o4(4) by (auto simp: octet_def takeWhile_append list_all_iff)
  then have "take 3 (takeWhile is_digit (d @ rest)) \<noteq> []" by auto
  then have "match_ip (ip @ rest) = Some ((a @ ''.'' @ b @ ''.'' @ c @ ''.'') @ take 3 (takeWhile is_digit (d @ rest)))"
    using groups by (simp add: match_ip_def Let_def)
  then show thesis by (rule that) (use d(1) in \<open>simp add: ip\<close>)
qed

lemma not_ip_empty [simp]: "\<not> is_ip ''''"
  by (auto simp: is_ip_def)

text \<open>\<open>pre\<close> is followed by the match that the leftmost-greedy search prefers: no match begins earlier, and none
  that begins there is longer.\<close>

definition preferred_match :: "string \<Rightarrow> string \<Rightarrow> string \<Rightarrow> bool" where
  "preferred_match s pre ip \<longleftrightarrow> is_ip ip \<and> (\<exists>post. s = pre @ ip @ post) \<and>
     (\<forall>pre' ip' post'. s = pre' @ ip' @ post' \<and> is_ip ip' \<longrightarrow>
        length pre < length pre' \<or> length pre = length pre' \<and> length ip' \<le> length ip)"

lemma find_ip_preferred: "find_ip s \<noteq> '''' \<Longrightarrow> \<exists>pre. preferred_match s pre (find_ip s)"
proof (induction s)
  case Nil
  then show ?case using match_ip_sound [of "[]"] by (auto split: option.splits)
next
  case (Cons c s)
  have here: "\<exists>x. match_ip (c # s) = Some x \<and> length ip \<le> length x" if "c # s = ip @ post" "is_ip ip" for ip post
    using match_ip_complete [OF that(2), of post] that(1) by auto
  show ?case
  proof (cases "match_ip (c # s)")
    case None
    with Cons obtain pre where pre: "preferred_match s pre (find_ip s)" by auto
    have "length (c # pre) < length pre' \<or> length (c # pre) = length pre' \<and> length ip' \<le> length (find_ip s)"
      if "c # s = pre' @ ip' @ post'" "is_ip ip'" for pre' ip' post'
    proof (cases pre')
      case Nil
      with that(1) have "c # s = ip' @ post'" by simp
      from here [OF this that(2)] None show ?thesis by simp
    next
      case (Cons d q)
      with that pre have "length pre < length q \<or> length pre = length q \<and> length ip' \<le> length (find_ip s)"
        unfolding preferred_match_def by auto
      with Cons show ?thesis by simp
    qed
    moreover have "is_ip (find_ip s) \<and> (\<exists>post. c # s = (c # pre) @ find_ip s @ post)"
      using pre unfolding preferred_match_def by auto
    moreover have "find_ip (c # s) = find_ip s" using None by simp
    ultimately have "preferred_match (c # s) (c # pre) (find_ip (c # s))" unfolding preferred_match_def by metis
    then show ?thesis ..
  next
    case (Some x)
    have long: "length [] < length pre' \<or> length [] = length pre' \<and> length ip' \<le> length x"
      if "c # s = pre' @ ip' @ post'" "is_ip ip'" for pre' ip' post'
      using here [of ip' post'] that Some by (cases pre') auto
    moreover have "is_ip x \<and> (\<exists>post. c # s = [] @ x @ post)" using match_ip_sound [OF Some] by auto
    ultimately have "preferred_match (c # s) [] x" unfolding preferred_match_def by blast
    moreover have "find_ip (c # s) = x" using Some by simp
    ultimately show ?thesis by blast
  qed
qed

lemma find_ip_complete: "is_ip ip \<Longrightarrow> find_ip (pre @ ip @ post) \<noteq> ''''"
proof (induction pre)
  case Nil
  then obtain x where x: "match_ip (ip @ post) = Some x" by (rule match_ip_complete)
  with match_ip_sound [OF x] have "x \<noteq> ''''" by auto
  with x show ?case by (cases "ip @ post") auto
next
  case (Cons c pre)
  then show ?case using match_ip_sound [of "c # pre @ ip @ post"] by (auto split: option.split)
qed

section \<open>Voting\<close>

lemma map_of_vote: "map_of (vote ip m) k = (if k = ip then Some (Suc (case map_of m ip of None \<Rightarrow> 0 | Some n \<Rightarrow> n)) else map_of m k)"
  by (simp add: vote_def Let_def gomap_simps)

definition answers :: "string result list \<Rightarrow> string list" where
  "answers gets = List.map_filter (\<lambda>get. case extractIp get of Inl _ \<Rightarrow> None | Inr ip \<Rightarrow> Some ip) gets"

lemma fold_votes:
  "(case map_of (fold (\<lambda>get votes. case extractIp get of Inl err \<Rightarrow> votes | Inr ip \<Rightarrow> vote ip votes) gets m) ip of
      None \<Rightarrow> 0 | Some n \<Rightarrow> n) = (case map_of m ip of None \<Rightarrow> 0 | Some n \<Rightarrow> n) + count_list (answers gets) ip"
  by (induction gets arbitrary: m)
    (auto simp: answers_def map_filter_simps map_of_vote split: sum.split option.split)

lemma votes_positive:
  "(\<forall>k n. map_of m k = Some n \<longrightarrow> 0 < n) \<Longrightarrow>
   map_of (fold (\<lambda>get votes. case extractIp get of Inl err \<Rightarrow> votes | Inr ip \<Rightarrow> vote ip votes) gets m) ip = Some n \<Longrightarrow> 0 < n"
proof (induction gets arbitrary: m)
  case (Cons get gets)
  show ?case
    by (rule Cons.IH [OF _ Cons.prems(2) [simplified]])
      (use Cons.prems(1) in \<open>auto simp: map_of_vote split: sum.split if_splits\<close>)
qed simp

text \<open>The votes of an answer are the number of services that gave it.\<close>

lemma ip_votes_count:
  "map_of (ip_votes gets) ip =
     (if count_list (answers gets) ip = 0 then None else Some (count_list (answers gets) ip))"
  using fold_votes [of gets "[]" ip] votes_positive [of "[]" gets ip]
  by (auto simp: ip_votes_def split: option.splits)

text \<open>A strict maximum wins whatever the visiting order.\<close>

abbreviation top_body :: "string \<Rightarrow> nat \<Rightarrow> nat \<times> string \<Rightarrow> nat \<times> string" where
  "top_body \<equiv> \<lambda>ip n (topVote, topIp). if topVote < n then (n, ip) else (topVote, topIp)"

lemma top_below:
  assumes "\<And>k v. k \<in> set ks \<Longrightarrow> map_of m k = Some v \<Longrightarrow> v < n" and "fst s < n"
  shows "fst (range_loop top_body m ks s) < n"
  using assms
proof (induction ks arbitrary: s)
  case (Cons k ks)
  have "fst (case map_of m k of None \<Rightarrow> s | Some v \<Rightarrow> top_body k v s) < n"
    using Cons.prems by (auto split: option.split prod.split)
  from Cons.IH [OF _ this] have "fst (range_loop top_body m ks
      (case map_of m k of None \<Rightarrow> s | Some v \<Rightarrow> top_body k v s)) < n"
    using Cons.prems(1) by (meson list.set_intros(2))
  then show ?case by simp
qed simp

lemma top_stays:
  assumes "\<And>k v. map_of m k = Some v \<Longrightarrow> v \<le> n"
  shows "range_loop top_body m ks (n, win) = (n, win)"
proof (induction ks)
  case (Cons k ks)
  then show ?case using assms [of k] by (auto split: option.split)
qed simp

lemma top_vote_winner:
  assumes win: "map_of m win = Some n" and most: "\<And>k v. map_of m k = Some v \<Longrightarrow> k \<noteq> win \<Longrightarrow> v < n"
    and "0 < n" and "range_order m order"
  shows "top_vote m order = (n, win)"
proof -
  have "win \<in> set order" and "distinct order"
    using assms(4) win by (auto simp: range_order_def keys_of_conv)
  then obtain as bs where o': "order = as @ win # bs" and "win \<notin> set as"
    by (metis split_list_first)
  then have "fst (range_loop top_body m as (0, '''')) < n"
    using most \<open>0 < n\<close> by (intro top_below) auto
  moreover have "v \<le> n" if "map_of m k = Some v" for k v
    using most [OF that] that win by (cases "k = win") auto
  ultimately show ?thesis
    using win by (auto simp: top_vote_def o' top_stays split: prod.split)
qed

section \<open>Correctness\<close>

text \<open>
  C39: The address matcher agrees with the leftmost, greedy search for the regular expression: it finds something in a
  page exactly when some part of the page is four groups of one to three digits with dots in between; what it finds is
  such a part, none begins further left, and none that begins there is longer, which determines it. (Greedy and longest
  are the same here, because a dot ends each of the first three groups.)
\<close>

theorem find_ip_correct:
  "(find_ip s = '''' \<longleftrightarrow> \<not> (\<exists>pre ip post. s = pre @ ip @ post \<and> is_ip ip)) \<and>
   (find_ip s \<noteq> '''' \<longrightarrow> (\<exists>pre post. s = pre @ find_ip s @ post \<and> is_ip (find_ip s) \<and>
      (\<forall>pre' ip' post'. s = pre' @ ip' @ post' \<and> is_ip ip' \<longrightarrow>
         length pre < length pre' \<or> length pre = length pre' \<and> length ip' \<le> length (find_ip s))))"
proof
  show "find_ip s = '''' \<longleftrightarrow> \<not> (\<exists>pre ip post. s = pre @ ip @ post \<and> is_ip ip)"
    using find_ip_preferred [of s] find_ip_complete unfolding preferred_match_def by metis
qed (use find_ip_preferred [of s] in \<open>auto simp: preferred_match_def\<close>)

text \<open>
  The answer that strictly more services gave than any other decides, in whatever order the
  run time visits the votes: a non-empty one is the connector's address. But a page without an
  address votes for the empty string, and when that vote leads the connector panics although
  other services did name an address.
\<close>

theorem resolveIp_strict_winner:
  assumes "0 < count_list (answers gets) win"
    and "\<And>ip. ip \<noteq> win \<Longrightarrow> count_list (answers gets) ip < count_list (answers gets) win"
    and "range_order (ip_votes gets) order"
  shows "resolveIp gets order =
    (if win = '''' then Inl (PanicText ''no available dns'') else Inr win)"
proof -
  have "top_vote (ip_votes gets) order = (count_list (answers gets) win, win)"
    using assms by (intro top_vote_winner) (auto simp: ip_votes_count split: if_splits)
  then show ?thesis by (simp add: resolveIp_def)
qed

section \<open>Witnesses\<close>

text \<open>Two services answer with pages that hold no address, one with an address.\<close>

definition sample_gets :: "string result list" where
  "sample_gets = [Inr ''<html>'', Inr ''ip=10.0.0.7;'', Inr ''down'']"

lemma sample_answers: "answers sample_gets = ['''', ''10.0.0.7'', '''']"
  by (simp add: answers_def sample_gets_def map_filter_simps extractIp_def match_ip_def numeral_3_eq_3
      match_group_def is_digit_def)

theorem resolveIp_strict_winner_witness:
  "resolveIp sample_gets ['''', ''10.0.0.7''] = Inl (PanicText ''no available dns'')"
proof -
  have "keys_of (ip_votes sample_gets) = {'''', ''10.0.0.7''}"
    by (auto simp: keys_of_conv ip_votes_count sample_answers split: if_splits)
  then have "range_order (ip_votes sample_gets) ['''', ''10.0.0.7'']"
    by (simp add: range_order_def)
  from resolveIp_strict_winner [OF _ _ this, of "''''"] show ?thesis by (simp add: sample_answers)
qed

text \<open>The whole last group is taken: the address in the page is read to its end.\<close>

theorem find_ip_correct_witness:
  "find_ip ''ip=10.0.0.254;'' = ''10.0.0.254'' \<and>
   (\<exists>pre post. ''ip=10.0.0.254;'' = pre @ ''10.0.0.254'' @ post \<and> is_ip ''10.0.0.254'')"
proof -
  have "find_ip ''ip=10.0.0.254;'' = ''10.0.0.254''" by code_simp
  then show ?thesis using find_ip_correct [of "''ip=10.0.0.254;''"] by auto
qed

end
