(* ===== verification/Go_Duration.thy ===== *)
theory Go_Duration
  imports Go_Prelude
begin

text \<open>
  What the configuration uses of Go's package \<^verbatim>\<open>time\<close>: \<^verbatim>\<open>time.ParseDuration\<close> and \<^verbatim>\<open>Duration.String\<close>, as they were
  when the connector was written (Go 1.8). A fraction is scaled in floating point; that one expression is the argument
  \<open>fl\<close>: \<open>fl f unit k\<close> is \<^verbatim>\<open>int64(float64(f) * (float64(unit) / scale))\<close> for the scale \<^verbatim>\<open>1e<k>\<close>. Of it only
  \<open>float_exact\<close> is used: it is exact when the result and the operands are integers below \<^verbatim>\<open>2^53\<close>.
\<close>

section \<open>Parsing\<close>

definition max_int64 :: int where
  "max_int64 = 2 ^ 63 - 1"

fun leadingInt :: "int \<Rightarrow> string \<Rightarrow> (int \<times> string) option" where
  "leadingInt x [] = Some (x, [])"
| "leadingInt x (c # s) =
     (if \<not> is_digit c then Some (x, c # s)
      else if x > max_int64 div 10 then None
      else let x = wrap64 (x * 10 + int (digit_val c)) in if x < 0 then None else leadingInt x s)"

text \<open>The scale is \<^verbatim>\<open>10^k\<close>; digits after an overflow are skipped.\<close>

fun leadingFraction :: "int \<Rightarrow> nat \<Rightarrow> bool \<Rightarrow> string \<Rightarrow> int \<times> nat \<times> string" where
  "leadingFraction x k overflow [] = (x, k, [])"
| "leadingFraction x k overflow (c # s) =
     (if \<not> is_digit c then (x, k, c # s)
      else if overflow then leadingFraction x k overflow s
      else if x > max_int64 div 10 then leadingFraction x k True s
      else let y = wrap64 (x * 10 + int (digit_val c))
           in if y < 0 then leadingFraction x k True s else leadingFraction y (Suc k) overflow s)"

definition unitMap :: "string \<Rightarrow> int option" where
  "unitMap = map_of
     [(''ns'', 1), (''us'', 1000), ([CHR 0xC2, CHR 0xB5, CHR ''s''], 1000), ([CHR 0xCE, CHR 0xBC, CHR ''s''], 1000),
      (''ms'', 1000000), (''s'', 1000000000), (''m'', 60000000000), (''h'', 3600000000000)]"

definition number_char :: "char \<Rightarrow> bool" where
  "number_char c \<longleftrightarrow> c = CHR ''.'' \<or> is_digit c"

definition invalid_duration :: err where
  "invalid_duration = ErrExternal ''time: invalid duration''"

text \<open>The optional fraction: its digits, the exponent of its scale, what follows, and whether there were digits.\<close>

definition parse_fraction :: "string \<Rightarrow> int \<times> nat \<times> string \<times> bool" where
  "parse_fraction t =
     (if t \<noteq> [] \<and> hd t = CHR ''.'' then
        (let (f, k, r) = leadingFraction 0 0 False (tl t) in (f, k, r, length (tl t) \<noteq> length r))
      else (0, 0, t, False))"

text \<open>One turn of the loop: a number, its unit, and what follows.\<close>

definition parse_part :: "(int \<Rightarrow> int \<Rightarrow> nat \<Rightarrow> int) \<Rightarrow> string \<Rightarrow> (int \<times> string) result" where
  "parse_part fl s =
     (if \<not> number_char (hd s) then Inl invalid_duration
      else case leadingInt 0 s of
        None \<Rightarrow> Inl invalid_duration
      | Some (v, t) \<Rightarrow>
          (let pre = (length s \<noteq> length t);
               (f, k, t, post) = parse_fraction t
           in if \<not> pre \<and> \<not> post then Inl invalid_duration
              else let u = takeWhile (\<lambda>c. \<not> number_char c) t; t = dropWhile (\<lambda>c. \<not> number_char c) t
                in if u = [] then Inl (ErrExternal ''time: missing unit in duration'')
                   else case unitMap u of
                     None \<Rightarrow> Inl (ErrExternal ''time: unknown unit in duration'')
                   | Some unit \<Rightarrow>
                       if v > max_int64 div unit then Inl invalid_duration
                       else let v = v * unit; v = (if f > 0 then wrap64 (v + fl f unit k) else v)
                         in if v < 0 then Inl invalid_duration else Inr (v, t)))"

lemma leadingInt_length: "leadingInt x s = Some (v, t) \<Longrightarrow> length t \<le> length s"
  by (induction x s rule: leadingInt.induct) (auto simp: Let_def split: if_splits)

lemma leadingFraction_length: "leadingFraction x k b s = (f, l, t) \<Longrightarrow> length t \<le> length s"
  by (induction x k b s rule: leadingFraction.induct) (auto simp: Let_def split: if_splits)

lemma parse_fraction_length: "parse_fraction t = (f, k, r, post) \<Longrightarrow> length r \<le> length t"
  by (cases t) (auto simp: parse_fraction_def Let_def dest: leadingFraction_length split: if_splits prod.splits)

lemma parse_part_length:
  assumes "parse_part fl s = Inr (v, t)"
  shows "length t < length s"
proof -
  obtain x r where r: "leadingInt 0 s = Some (x, r)" using assms by (auto simp: parse_part_def split: if_splits option.splits)
  obtain f k r' post where r': "parse_fraction r = (f, k, r', post)" by (metis prod_cases4)
  have "takeWhile (\<lambda>c. \<not> number_char c) r' \<noteq> []" "t = dropWhile (\<lambda>c. \<not> number_char c) r'"
    using assms r r' by (auto simp: parse_part_def Let_def split: if_splits option.splits)
  then have "length t < length r'" by (cases r') (auto simp: less_Suc_eq_le length_dropWhile_le split: if_splits)
  with parse_fraction_length [OF r'] leadingInt_length [OF r] show ?thesis by simp
qed

function parse_parts :: "(int \<Rightarrow> int \<Rightarrow> nat \<Rightarrow> int) \<Rightarrow> int \<Rightarrow> string \<Rightarrow> int result" where
  "parse_parts fl d s =
     (if s = [] then Inr d
      else case parse_part fl s of
        Inl err \<Rightarrow> Inl err
      | Inr (v, t) \<Rightarrow>
          (let d = wrap64 (d + v) in if d < 0 then Inl invalid_duration else parse_parts fl d t))"
  by pat_completeness auto
termination
  by (relation "measure (\<lambda>(fl, d, s). length s)") (auto dest: parse_part_length)

declare parse_parts.simps [simp del]

definition ParseDuration :: "(int \<Rightarrow> int \<Rightarrow> nat \<Rightarrow> int) \<Rightarrow> string \<Rightarrow> int result" where
  "ParseDuration fl s =
     (let (neg, s) = (if s \<noteq> [] \<and> hd s \<in> {CHR ''-'', CHR ''+''} then (hd s = CHR ''-'', tl s) else (False, s))
      in if s = ''0'' then Inr 0
         else if s = '''' then Inl invalid_duration
         else case parse_parts fl 0 s of Inl err \<Rightarrow> Inl err | Inr d \<Rightarrow> Inr (if neg then wrap64 (- d) else d))"

section \<open>Printing\<close>

text \<open>The buffer is filled from its end; \<open>buf\<close> is what is there already.\<close>

fun fmtFrac_loop :: "nat \<Rightarrow> bool \<Rightarrow> string \<Rightarrow> nat \<Rightarrow> bool \<times> string \<times> nat" where
  "fmtFrac_loop 0 print buf v = (print, buf, v)"
| "fmtFrac_loop (Suc n) print buf v =
     (let digit = v mod 10;
          print = (print \<or> digit \<noteq> 0);
          buf = (if print then digit_char digit # buf else buf)
      in fmtFrac_loop n print buf (v div 10))"

lemma fmtFrac_loop_numeral [simp]:
  "fmtFrac_loop (numeral k) print buf v =
     (let print = (print \<or> v mod 10 \<noteq> 0)
      in fmtFrac_loop (pred_numeral k) print (if print then digit_char (v mod 10) # buf else buf) (v div 10))"
  by (subst numeral_eq_Suc) (simp add: Let_def)

definition fmtFrac :: "string \<Rightarrow> nat \<Rightarrow> nat \<Rightarrow> string \<times> nat" where
  "fmtFrac buf v prec =
     (let (print, buf, v) = fmtFrac_loop prec False buf v in (if print then CHR ''.'' # buf else buf, v))"

fun fmtInt_loop :: "string \<Rightarrow> nat \<Rightarrow> string" where
  "fmtInt_loop buf v = (if v > 0 then fmtInt_loop (digit_char (v mod 10) # buf) (v div 10) else buf)"

declare fmtInt_loop.simps [simp del]

definition fmtInt :: "string \<Rightarrow> nat \<Rightarrow> string" where
  "fmtInt buf v = (if v = 0 then CHR ''0'' # buf else fmtInt_loop buf v)"

definition Duration_String :: "int \<Rightarrow> string" where
  "Duration_String d =
     (let neg = (d < 0);
          u = nat \<bar>d\<bar>
      in if u = 0 then ''0s''
         else let buf =
           (if u < 1000000000 then
              (let (prec, buf) =
                 (if u < 1000 then (0, ''ns'')
                  else if u < 1000000 then (3, [CHR 0xC2, CHR 0xB5, CHR ''s''])
                  else (6, ''ms''));
                   (buf, u) = fmtFrac buf u prec
               in fmtInt buf u)
            else
              (let (buf, u) = fmtFrac ''s'' u 9;
                   buf = fmtInt buf (u mod 60);
                   u = u div 60
               in if u > 0 then
                    (let buf = fmtInt (CHR ''m'' # buf) (u mod 60);
                         u = u div 60
                     in if u > 0 then fmtInt (CHR ''h'' # buf) u else buf)
                  else buf))
           in if neg then CHR ''-'' # buf else buf)"

section \<open>What is printed\<close>

lemma decimal_val_snoc [simp]: "decimal_val (ds @ [c]) = decimal_val ds * 10 + digit_val c"
  by (simp add: decimal_val_def)

lemma mod_power_Suc: "(v div 10 mod 10 ^ n) * 10 + v mod 10 = v mod (10 ^ Suc n :: nat)"
  using mod_mult2_eq [of v 10 "10 ^ n"] by simp

lemma fmtFrac_all:
  "\<exists>ds. fmtFrac_loop n True buf v = (True, ds @ buf, v div 10 ^ n) \<and> list_all is_digit ds \<and> length ds = n \<and>
     decimal_val ds = v mod 10 ^ n"
proof (induction n arbitrary: buf v)
  case 0
  show ?case by (simp add: decimal_val_def)
next
  case (Suc n)
  from Suc [of "digit_char (v mod 10) # buf" "v div 10"] obtain ds where
    "fmtFrac_loop n True (digit_char (v mod 10) # buf) (v div 10) = (True, ds @ digit_char (v mod 10) # buf, v div 10 div 10 ^ n)"
    "list_all is_digit ds" "length ds = n" "decimal_val ds = v div 10 mod 10 ^ n" by blast
  then show ?case using mod_power_Suc [of v n]
    by (intro exI [of _ "ds @ [digit_char (v mod 10)]"]) (simp add: div_mult2_eq)
qed

text \<open>The fraction without its trailing zeros, and no point when it is zero.\<close>

lemma fmtFrac_digits:
  obtains ds where "fmtFrac buf v n = ((if ds = [] then [] else CHR ''.'' # ds) @ buf, v div 10 ^ n)"
    and "list_all is_digit ds" and "length ds \<le> n" and "decimal_val ds * 10 ^ (n - length ds) = v mod 10 ^ n"
    and "ds = [] \<longleftrightarrow> v mod 10 ^ n = 0"
proof -
  have "\<exists>ds p. fmtFrac_loop n False buf v = (p, ds @ buf, v div 10 ^ n) \<and> list_all is_digit ds \<and> length ds \<le> n \<and>
      decimal_val ds * 10 ^ (n - length ds) = v mod 10 ^ n \<and> (ds = [] \<longleftrightarrow> v mod 10 ^ n = 0) \<and> (p \<longleftrightarrow> ds \<noteq> [])"
  proof (induction n arbitrary: v)
    case 0
    show ?case by (simp add: decimal_val_def)
  next
    case (Suc n)
    show ?case
    proof (cases "v mod 10 = 0")
      case True
      from Suc [of "v div 10"] obtain ds p where ds: "fmtFrac_loop n False buf (v div 10) = (p, ds @ buf, v div 10 div 10 ^ n)"
        "list_all is_digit ds" "length ds \<le> n" "decimal_val ds * 10 ^ (n - length ds) = v div 10 mod 10 ^ n"
        "ds = [] \<longleftrightarrow> v div 10 mod 10 ^ n = 0" "p \<longleftrightarrow> ds \<noteq> []" by (elim exE conjE) (rule that)
      have "v mod 10 ^ Suc n = (v div 10 mod 10 ^ n) * 10" using mod_power_Suc [of v n] True by simp
      with ds True show ?thesis
        by (intro exI [of _ ds] exI [of _ p]) (simp add: div_mult2_eq Suc_diff_le)
    next
      case False
      from fmtFrac_all [of n "digit_char (v mod 10) # buf" "v div 10"] obtain ds where
        ds: "fmtFrac_loop n True (digit_char (v mod 10) # buf) (v div 10) = (True, ds @ digit_char (v mod 10) # buf, v div 10 div 10 ^ n)"
        "list_all is_digit ds" "length ds = n" "decimal_val ds = v div 10 mod 10 ^ n" by blast
      moreover have "v mod 10 ^ Suc n \<noteq> 0" using mod_power_Suc [of v n] False by simp
      ultimately show ?thesis using False mod_power_Suc [of v n]
        by (intro exI [of _ "ds @ [digit_char (v mod 10)]"] exI [of _ True]) (simp add: div_mult2_eq)
    qed
  qed
  then obtain ds p where ds: "fmtFrac_loop n False buf v = (p, ds @ buf, v div 10 ^ n)" "list_all is_digit ds" "length ds \<le> n"
    "decimal_val ds * 10 ^ (n - length ds) = v mod 10 ^ n" "ds = [] \<longleftrightarrow> v mod 10 ^ n = 0" "p \<longleftrightarrow> ds \<noteq> []" by (elim exE conjE) (rule that)
  show thesis by (rule that [OF _ ds(2-5)]) (simp add: fmtFrac_def ds(1,6))
qed

lemma fmtInt_loop_decimal: "0 < v \<Longrightarrow> fmtInt_loop buf v = decimal v @ buf"
proof (induction v arbitrary: buf rule: less_induct)
  case (less v)
  show ?case
  proof (cases "v < 10")
    case True
    with less.prems show ?thesis by (simp add: fmtInt_loop.simps [of buf] fmtInt_loop.simps [of _ 0] decimal.simps)
  next
    case False
    then have "0 < v div 10" "v div 10 < v" by simp_all
    with less.IH [of "v div 10"] False show ?thesis by (simp add: fmtInt_loop.simps [of buf] decimal.simps [of v])
  qed
qed

lemma fmtInt_decimal: "fmtInt buf v = decimal v @ buf"
proof (cases "v = 0")
  case True
  have "decimal 0 = ''0''" by code_simp
  with True show ?thesis by (simp add: fmtInt_def)
qed (simp add: fmtInt_def fmtInt_loop_decimal)

section \<open>Reading it back\<close>

definition number_ends :: "string \<Rightarrow> bool" where
  "number_ends t \<longleftrightarrow> t = [] \<or> \<not> is_digit (hd t)"

lemma leadingInt_digits:
  assumes "list_all is_digit ds" and "number_ends t" and "0 \<le> x"
    and "foldl (\<lambda>a c. a * 10 + int (digit_val c)) x ds \<le> max_int64"
  shows "leadingInt x (ds @ t) = Some (foldl (\<lambda>a c. a * 10 + int (digit_val c)) x ds, t)"
  using assms
proof (induction ds arbitrary: x)
  case Nil
  then show ?case by (cases t) (auto simp: number_ends_def)
next
  case (Cons c ds)
  let ?y = "x * 10 + int (digit_val c)"
  have "a \<le> foldl (\<lambda>a c. a * 10 + int (digit_val c)) a cs" if "0 \<le> a" for a cs
    using that
  proof (induction cs arbitrary: a)
    case (Cons c cs)
    have "a \<le> a * 10 + int (digit_val c)" using Cons.prems by simp
    also have "\<dots> \<le> foldl (\<lambda>a c. a * 10 + int (digit_val c)) (a * 10 + int (digit_val c)) cs"
      using Cons.prems by (intro Cons.IH) simp
    finally show ?case by simp
  qed simp
  from this [of ?y ds] Cons.prems have "?y \<le> max_int64" by simp
  then have "wrap64 ?y = ?y" "\<not> x > max_int64 div 10"
    using Cons.prems(3) by (auto simp: max_int64_def in_int64_def)
  with Cons show ?case by (simp add: Let_def)
qed

lemma foldl_decimal_val: "foldl (\<lambda>a c. a * 10 + int (digit_val c)) (int a) ds = int (foldl (\<lambda>a c. a * 10 + digit_val c) a ds)"
proof (induction ds arbitrary: a)
  case (Cons c ds)
  show ?case using Cons [of "a * 10 + digit_val c"] by simp
qed simp

lemma leadingInt_decimal:
  assumes "number_ends t" and "int n \<le> max_int64"
  shows "leadingInt 0 (decimal n @ t) = Some (int n, t)"
proof -
  have v: "foldl (\<lambda>a c. a * 10 + int (digit_val c)) 0 (decimal n) = int n"
    using foldl_decimal_val [of 0 "decimal n"] by (simp add: decimal_val_def [symmetric])
  have "list_all is_digit (decimal n)" by (simp add: list_all_iff decimal_digits)
  from leadingInt_digits [OF this assms(1), of 0] show ?thesis using assms(2) by (simp add: v)
qed

lemma leadingFraction_digits:
  assumes "list_all is_digit ds" and "number_ends t" and "x < 10 ^ k" and "k + length ds \<le> 9"
  shows "leadingFraction (int x) k False (ds @ t) = (int (foldl (\<lambda>a c. a * 10 + digit_val c) x ds), k + length ds, t)"
  using assms
proof (induction ds arbitrary: x k)
  case Nil
  then show ?case by (cases t) (auto simp: number_ends_def)
next
  case (Cons c ds)
  let ?y = "x * 10 + digit_val c"
  have c: "digit_val c < 10" using Cons.prems(1) by (simp add: is_digit_def digit_val_def) linarith
  with Cons.prems(3) have y: "?y < 10 ^ Suc k" by simp
  have "(10 :: nat) ^ k \<le> 10 ^ 8" using Cons.prems(4) by (intro power_increasing) simp_all
  then have x: "x < 10 ^ 8" using Cons.prems(3) by linarith
  then have "wrap64 (int ?y) = int ?y" using c by (simp add: in_int64_def)
  moreover have "\<not> int x > max_int64 div 10" using x by (simp add: max_int64_def)
  ultimately show ?case using Cons.IH [OF _ _ y] Cons.prems by (simp add: Let_def)
qed

text \<open>What is used of floating-point arithmetic: operations on integers are exact when the results are integers below
  \<^verbatim>\<open>2^53\<close>.\<close>

definition float_exact :: "(int \<Rightarrow> int \<Rightarrow> nat \<Rightarrow> int) \<Rightarrow> bool" where
  "float_exact fl \<longleftrightarrow> (\<forall>f unit k. 0 < f \<and> 0 < unit \<and> unit < 2 ^ 53 \<and> 10 ^ k dvd unit \<and> f * (unit div 10 ^ k) < 2 ^ 53 \<longrightarrow>
     fl f unit k = f * (unit div 10 ^ k))"

definition unit_text :: "string \<Rightarrow> bool" where
  "unit_text u \<longleftrightarrow> u \<noteq> [] \<and> list_all (\<lambda>c. \<not> number_char c) u"

definition part_ends :: "string \<Rightarrow> bool" where
  "part_ends r \<longleftrightarrow> r = [] \<or> number_char (hd r)"

definition frac_text :: "string \<Rightarrow> string" where
  "frac_text ds = (if ds = [] then [] else CHR ''.'' # ds)"

lemma unit_split:
  assumes "unit_text u" and "part_ends r"
  shows "takeWhile (\<lambda>c. \<not> number_char c) (u @ r) = u" and "dropWhile (\<lambda>c. \<not> number_char c) (u @ r) = r"
    and "number_ends (u @ r)" and "hd (u @ r) \<noteq> CHR ''.''" and "u @ r \<noteq> []"
proof -
  have all: "\<forall>c \<in> set u. \<not> number_char c" and u: "u \<noteq> []" using assms(1) by (auto simp: unit_text_def list_all_iff)
  moreover have "takeWhile (\<lambda>c. \<not> number_char c) r = []" "dropWhile (\<lambda>c. \<not> number_char c) r = r"
    using assms(2) by (cases r; simp add: part_ends_def)+
  ultimately show "takeWhile (\<lambda>c. \<not> number_char c) (u @ r) = u" "dropWhile (\<lambda>c. \<not> number_char c) (u @ r) = r"
    by (simp_all add: takeWhile_append2 dropWhile_append2)
  from all u have "\<not> number_char (hd (u @ r))" by simp
  then show "number_ends (u @ r)" "hd (u @ r) \<noteq> CHR ''.''" by (auto simp: number_ends_def number_char_def)
  show "u @ r \<noteq> []" using u by simp
qed

lemma parse_fraction_text:
  assumes "unit_text u" and "part_ends r" and "list_all is_digit ds" and "length ds \<le> 9"
  shows "parse_fraction (frac_text ds @ u @ r) = (int (decimal_val ds), length ds, u @ r, ds \<noteq> [])"
proof (cases "ds = []")
  case True
  then show ?thesis using unit_split [OF assms(1,2)]
    by (simp add: parse_fraction_def frac_text_def decimal_val_def)
next
  case False
  have "leadingFraction (int 0) 0 False (ds @ u @ r) = (int (decimal_val ds), 0 + length ds, u @ r)"
    unfolding decimal_val_def by (rule leadingFraction_digits [OF assms(3)]) (use unit_split(3) [OF assms(1,2)] assms(4) in simp_all)
  with False show ?thesis by (simp add: parse_fraction_def frac_text_def)
qed

lemma number_ends_frac: "unit_text u \<Longrightarrow> part_ends r \<Longrightarrow> number_ends (frac_text ds @ u @ r)"
  using unit_split(3) by (auto simp: frac_text_def number_ends_def is_digit_def)

lemma decimal_starts: "number_char (hd (decimal n @ t))"
proof -
  have "hd (decimal n) \<in> set (decimal n)" by simp
  from decimal_digits [OF this] show ?thesis by (simp add: number_char_def)
qed

text \<open>A number with a fraction that its unit can resolve, and the unit.\<close>

lemma parse_part_text:
  assumes fl: "float_exact fl" and u: "unit_text u" "unitMap u = Some unit" "0 < unit" "unit < 2 ^ 53" and r: "part_ends r"
    and ds: "list_all is_digit ds" "length ds \<le> 9" "10 ^ length ds dvd unit"
    and frac: "int (decimal_val ds) * (unit div 10 ^ length ds) < 2 ^ 53"
    and fits: "int a * unit + int (decimal_val ds) * (unit div 10 ^ length ds) \<le> max_int64"
  shows "parse_part fl (decimal a @ frac_text ds @ u @ r) =
    Inr (int a * unit + int (decimal_val ds) * (unit div 10 ^ length ds), r)"
proof -
  let ?f = "int (decimal_val ds) * (unit div 10 ^ length ds)"
  have "0 \<le> ?f" using u(3) by (simp add: pos_imp_zdiv_nonneg_iff)
  then have a: "int a * unit \<le> max_int64" using fits by simp
  have sum: "0 \<le> int a * unit + ?f" using u(3) \<open>0 \<le> ?f\<close> by simp
  have "int a \<le> max_int64 div unit" using a u(3) zdiv_mono1 [of "int a * unit" max_int64 unit] by simp
  moreover have "int a \<le> int a * unit" using u(3) by (cases a) simp_all
  then have "leadingInt 0 (decimal a @ frac_text ds @ u @ r) = Some (int a, frac_text ds @ u @ r)"
    using a by (intro leadingInt_decimal number_ends_frac [OF u(1) r]) simp
  moreover have "(if int (decimal_val ds) > 0 then wrap64 (int a * unit + fl (int (decimal_val ds)) unit (length ds)) else int a * unit) =
      int a * unit + ?f"
  proof (cases "decimal_val ds = 0")
    case False
    then have "fl (int (decimal_val ds)) unit (length ds) = ?f" using fl u(3,4) ds(3) frac by (simp add: float_exact_def)
    moreover have "0 \<le> int a * unit" using u(3) by simp
    then have "in_int64 (int a * unit + ?f)" using fits \<open>0 \<le> ?f\<close> by (auto simp: in_int64_def max_int64_def)
    ultimately show ?thesis using False by simp
  qed simp
  ultimately show ?thesis
    using parse_fraction_text [OF u(1) r ds(1,2)] unit_split [OF u(1) r] u decimal_starts sum
    by (simp add: parse_part_def Let_def unit_text_def not_less [symmetric])
qed

lemma parse_parts_step:
  assumes "parse_part fl s = Inr (v, t)" and "0 \<le> d + v" and "d + v \<le> max_int64"
  shows "parse_parts fl d s = parse_parts fl (d + v) t"
proof -
  have "s \<noteq> []" using parse_part_length [OF assms(1)] by auto
  moreover have "wrap64 (d + v) = d + v" using assms(2,3) by (simp add: in_int64_def max_int64_def)
  ultimately show ?thesis using assms by (subst parse_parts.simps) (simp add: Let_def)
qed

lemma parse_parts_Nil [simp]: "parse_parts fl d [] = Inr d"
  by (simp add: parse_parts.simps)

text \<open>The last part of what is printed, whatever number is put before it.\<close>

lemma fmtFrac_read:
  assumes "float_exact fl" and "unit_text un" and "unitMap un = Some (10 ^ prec)" and "prec \<le> 9"
  obtains buf where "fmtFrac un u prec = (buf, u div 10 ^ prec)"
    and "\<And>a. int (a * 10 ^ prec + u mod 10 ^ prec) \<le> max_int64 \<Longrightarrow>
      parse_part fl (decimal a @ buf) = Inr (int (a * 10 ^ prec + u mod 10 ^ prec), [])"
proof -
  obtain ds where ds: "fmtFrac un u prec = ((if ds = [] then [] else CHR ''.'' # ds) @ un, u div 10 ^ prec)"
    "list_all is_digit ds" "length ds \<le> prec" "decimal_val ds * 10 ^ (prec - length ds) = u mod 10 ^ prec"
    by (rule fmtFrac_digits)
  have p: "(10 :: int) ^ prec = 10 ^ (prec - length ds) * 10 ^ length ds" using ds(3) by (simp add: power_add [symmetric])
  then have q: "(10 :: int) ^ prec div 10 ^ length ds = 10 ^ (prec - length ds)" by simp
  have "int (decimal_val ds) * 10 ^ (prec - length ds) = int (decimal_val ds * 10 ^ (prec - length ds))" by simp
  also have "\<dots> = int (u mod 10 ^ prec)" using ds(4) by simp
  finally have v: "int (decimal_val ds) * (10 ^ prec div 10 ^ length ds) = int (u mod 10 ^ prec)" by (simp add: q)
  have small: "(10 :: int) ^ prec \<le> 10 ^ 9" using assms(4) by (intro power_increasing) simp_all
  then have "int (u mod 10 ^ prec) < 10 ^ 9"
    using pos_mod_bound [of "10 ^ prec" "int u"] by (simp add: zmod_int del: pos_mod_bound)
  then have f: "int (decimal_val ds) * (10 ^ prec div 10 ^ length ds) < 2 ^ 53" using v by simp
  have "parse_part fl (decimal a @ frac_text ds @ un @ []) = Inr (int a * 10 ^ prec + int (u mod 10 ^ prec), [])"
    if "int (a * 10 ^ prec + u mod 10 ^ prec) \<le> max_int64" for a
  proof -
    have "parse_part fl (decimal a @ frac_text ds @ un @ []) =
        Inr (int a * 10 ^ prec + int (decimal_val ds) * (10 ^ prec div 10 ^ length ds), [])"
      by (rule parse_part_text [OF assms(1-3) _ _ _ ds(2) _ _ f])
        (use small ds(3) assms(4) p that v in \<open>simp_all add: part_ends_def\<close>)
    then show ?thesis using v by simp
  qed
  then show thesis using ds(1) by (intro that) (simp_all add: frac_text_def)
qed

lemma whole_part:
  assumes "float_exact fl" and "unit_text un" and "unitMap un = Some unit" and "0 < unit" and "unit < 2 ^ 53"
    and "int a * unit \<le> max_int64"
  shows "parse_part fl (decimal a @ un @ decimal b @ t) = Inr (int a * unit, decimal b @ t)"
proof -
  have "part_ends (decimal b @ t)" using decimal_starts by (simp add: part_ends_def)
  from parse_part_text [OF assms(1-5) this, of "[]" a] assms(6) show ?thesis
    by (simp add: frac_text_def decimal_val_def)
qed

lemma unit_texts:
  "unit_text ''ns''" "unit_text [CHR 0xC2, CHR 0xB5, CHR ''s'']" "unit_text ''ms''" "unit_text ''s''" "unit_text ''m''" "unit_text ''h''"
  by code_simp+

lemma unitMap_simps:
  "unitMap ''ns'' = Some (10 ^ 0)" "unitMap [CHR 0xC2, CHR 0xB5, CHR ''s''] = Some (10 ^ 3)" "unitMap ''ms'' = Some (10 ^ 6)"
  "unitMap ''s'' = Some (10 ^ 9)" "unitMap ''m'' = Some 60000000000" "unitMap ''h'' = Some 3600000000000"
  by (simp_all add: unitMap_def)

text \<open>The text of a magnitude, and that it is read back.\<close>

definition magnitude_text :: "nat \<Rightarrow> string" where
  "magnitude_text u =
     (if u < 1000000000 then
        (let (prec, buf) =
           (if u < 1000 then (0, ''ns'')
            else if u < 1000000 then (3, [CHR 0xC2, CHR 0xB5, CHR ''s''])
            else (6, ''ms''));
             (buf, u) = fmtFrac buf u prec
         in fmtInt buf u)
      else
        (let (buf, u) = fmtFrac ''s'' u 9;
             buf = fmtInt buf (u mod 60);
             u = u div 60
         in if u > 0 then
              (let buf = fmtInt (CHR ''m'' # buf) (u mod 60);
                   u = u div 60
               in if u > 0 then fmtInt (CHR ''h'' # buf) u else buf)
            else buf))"

lemma Duration_String_eq:
  "Duration_String d = (if d = 0 then ''0s'' else if d < 0 then CHR ''-'' # magnitude_text (nat \<bar>d\<bar>) else magnitude_text (nat \<bar>d\<bar>))"
  by (simp add: Duration_String_def magnitude_text_def Let_def)

lemma parse_small:
  assumes "float_exact fl" and "unit_text un" and "unitMap un = Some (10 ^ prec)" and "prec \<le> 9" and "int u \<le> max_int64"
  shows "parse_parts fl 0 (let (buf, v) = fmtFrac un u prec in fmtInt buf v) = Inr (int u)"
proof -
  obtain buf where buf: "fmtFrac un u prec = (buf, u div 10 ^ prec)"
    "\<And>a. int (a * 10 ^ prec + u mod 10 ^ prec) \<le> max_int64 \<Longrightarrow>
      parse_part fl (decimal a @ buf) = Inr (int (a * 10 ^ prec + u mod 10 ^ prec), [])"
    using fmtFrac_read [OF assms(1-4)] by blast
  have "parse_part fl (decimal (u div 10 ^ prec) @ buf) = Inr (int u, [])"
    using buf(2) [of "u div 10 ^ prec"] assms(5) by (simp only: div_mult_mod_eq)
  from parse_parts_step [OF this, of 0] assms(5) show ?thesis by (simp add: buf(1) fmtInt_decimal)
qed

lemma parse_large:
  assumes fl: "float_exact fl" and u: "int u \<le> max_int64" and big: "1000000000 \<le> u"
  shows "parse_parts fl 0 (magnitude_text u) = Inr (int u)"
proof -
  obtain buf where buf: "fmtFrac ''s'' u 9 = (buf, u div 10 ^ 9)"
    "\<And>a. int (a * 10 ^ 9 + u mod 10 ^ 9) \<le> max_int64 \<Longrightarrow>
      parse_part fl (decimal a @ buf) = Inr (int (a * 10 ^ 9 + u mod 10 ^ 9), [])"
    using fmtFrac_read [OF fl unit_texts(4) unitMap_simps(4) order_refl] by blast
  define v s m where "v = u div 10 ^ 9" and "s = v mod 60" and "m = v div 60"
  have total: "u = (m div 60) * 3600000000000 + (m mod 60) * 60000000000 + (s * 10 ^ 9 + u mod 10 ^ 9)"
  proof -
    have "v = m * 60 + s" "m = (m div 60) * 60 + m mod 60" by (simp_all add: s_def m_def)
    moreover have "u = v * 10 ^ 9 + u mod 10 ^ 9" by (simp add: v_def)
    moreover have "t = a * 3600000000000 + b * 60000000000 + (s * 10 ^ 9 + r)"
      if "v = m * 60 + s" "m = a * 60 + b" "t = v * 10 ^ 9 + r" for a b r t using that by simp
    ultimately show ?thesis by blast
  qed
  have secs: "parse_parts fl (int d) (decimal s @ buf) = Inr (int (d + (s * 10 ^ 9 + u mod 10 ^ 9)))"
    if "d + (s * 10 ^ 9 + u mod 10 ^ 9) = u" for d
  proof -
    have "int (s * 10 ^ 9 + u mod 10 ^ 9) \<le> max_int64" using that u by linarith
    from parse_parts_step [OF buf(2) [OF this], of "int d"] that u show ?thesis
      by (simp only: of_nat_add [symmetric]) simp
  qed
  have mins: "parse_parts fl (int d) (decimal (m mod 60) @ ''m'' @ decimal s @ buf) = Inr (int u)"
    if "d + (m mod 60) * 60000000000 + (s * 10 ^ 9 + u mod 10 ^ 9) = u" for d
  proof -
    have fits: "int d + int (m mod 60) * 60000000000 \<le> max_int64" using that u by linarith
    then have "int (m mod 60) * 60000000000 \<le> max_int64" by linarith
    from whole_part [OF fl unit_texts(5) unitMap_simps(5) _ _ this, of s buf]
    have "parse_part fl (decimal (m mod 60) @ ''m'' @ decimal s @ buf) = Inr (int (m mod 60) * 60000000000, decimal s @ buf)" by simp
    from parse_parts_step [OF this _ fits] secs [OF that] that show ?thesis by simp
  qed
  have printed: "magnitude_text u = (if m = 0 then decimal s @ buf
      else if m div 60 = 0 then decimal (m mod 60) @ ''m'' @ decimal s @ buf
      else decimal (m div 60) @ ''h'' @ decimal (m mod 60) @ ''m'' @ decimal s @ buf)"
    using big buf(1) by (simp add: magnitude_text_def fmtInt_decimal v_def s_def m_def Let_def)
  consider "m = 0" | "m \<noteq> 0" "m div 60 = 0" | "m div 60 \<noteq> 0" by auto
  then show ?thesis
  proof cases
    case 1
    with secs [of 0] total printed show ?thesis by simp
  next
    case 2
    with mins [of 0] total printed show ?thesis by simp
  next
    case 3
    have fits: "int (m div 60) * 3600000000000 \<le> max_int64" using total u by linarith
    from whole_part [OF fl unit_texts(6) unitMap_simps(6) _ _ this, of "m mod 60" "''m'' @ decimal s @ buf"]
    have "parse_part fl (decimal (m div 60) @ ''h'' @ decimal (m mod 60) @ ''m'' @ decimal s @ buf) =
        Inr (int (m div 60) * 3600000000000, decimal (m mod 60) @ ''m'' @ decimal s @ buf)" by simp
    from parse_parts_step [OF this, of 0] fits mins [of "m div 60 * 3600000000000"] total printed 3 show ?thesis by auto
  qed
qed

lemma parse_magnitude:
  assumes "float_exact fl" and "0 < u" and "int u \<le> max_int64"
  shows "parse_parts fl 0 (magnitude_text u) = Inr (int u)"
proof (cases "u < 1000000000")
  case True
  note small = parse_small [OF assms(1) _ _ _ assms(3)]
  have "parse_parts fl 0 (let (buf, v) = fmtFrac ''ns'' u 0 in fmtInt buf v) = Inr (int u)"
    "parse_parts fl 0 (let (buf, v) = fmtFrac [CHR 0xC2, CHR 0xB5, CHR ''s''] u 3 in fmtInt buf v) = Inr (int u)"
    "parse_parts fl 0 (let (buf, v) = fmtFrac ''ms'' u 6 in fmtInt buf v) = Inr (int u)"
    using unit_texts unitMap_simps by (intro small; simp)+
  with True show ?thesis by (simp add: magnitude_text_def Let_def)
next
  case False
  then show ?thesis by (intro parse_large [OF assms(1,3)]) simp
qed

text \<open>Every duration but the least one is read back from its text.\<close>

lemma parse_String:
  assumes "float_exact fl" and "\<bar>d\<bar> < 2 ^ 63"
  shows "ParseDuration fl (Duration_String d) = Inr d"
proof (cases "d = 0")
  case True
  have "decimal 0 = ''0''" by code_simp
  then have "parse_part fl ''0s'' = Inr (0, [])"
    using parse_part_text [OF assms(1) unit_texts(4) unitMap_simps(4), of "[]" "[]" 0]
    by (simp add: frac_text_def decimal_val_def part_ends_def max_int64_def)
  then have "parse_parts fl 0 ''0s'' = Inr 0" by (rule parse_parts_step [THEN trans]) (simp_all add: max_int64_def)
  with True show ?thesis by (simp add: ParseDuration_def Duration_String_def)
next
  case False
  let ?u = "nat \<bar>d\<bar>" and ?s = "magnitude_text (nat \<bar>d\<bar>)"
  have parsed: "parse_parts fl 0 ?s = Inr \<bar>d\<bar>"
    using parse_magnitude [OF assms(1), of ?u] assms(2) False by (simp add: max_int64_def)
  then have nonempty: "?s \<noteq> []" using False by auto
  then obtain p where "parse_part fl ?s = Inr p" using parsed by (subst (asm) parse_parts.simps) (auto split: sum.splits)
  then have first: "number_char (hd ?s)" and other: "?s \<noteq> ''0''"
    by (auto simp: parse_part_def parse_fraction_def Let_def is_digit_def number_char_def split: if_splits option.splits prod.splits)
  have "\<not> number_char CHR ''-''" "\<not> number_char CHR ''+''" by code_simp+
  with first have sign: "hd ?s \<noteq> CHR ''-''" "hd ?s \<noteq> CHR ''+''" by metis+
  have d: "in_int64 d" using assms(2) unfolding in_int64_def by linarith
  show ?thesis
  proof (cases "d < 0")
    case True
    have "ParseDuration fl (CHR ''-'' # ?s) = Inr (wrap64 (- \<bar>d\<bar>))"
      using nonempty other parsed by (simp add: ParseDuration_def)
    with True d show ?thesis by (simp add: Duration_String_eq)
  next
    case False
    have "ParseDuration fl ?s = Inr \<bar>d\<bar>"
      using nonempty other parsed sign by (simp add: ParseDuration_def del: abs_of_nonneg)
    with False \<open>d \<noteq> 0\<close> show ?thesis by (simp add: Duration_String_eq)
  qed
qed

text \<open>Exact scaling, for concrete inputs.\<close>

definition exact_scale :: "int \<Rightarrow> int \<Rightarrow> nat \<Rightarrow> int" where
  "exact_scale f unit k = f * unit div 10 ^ k"

lemma exact_scale_exact: "float_exact exact_scale"
  by (auto simp: float_exact_def exact_scale_def div_mult_swap)

end
