(* ===== verification/Connector_Config.thy ===== *)
theory Connector_Config
  imports Token Go_Duration
begin

text \<open>
  The configuration: \<^verbatim>\<open>common/config/config.go\<close> (reusable parts and their checks) and
  \<^verbatim>\<open>internal/config/config.go\<close> (the connector's configuration file). The texts of durations are those of
  \<open>Go_Duration\<close>; the resolution and printing of addresses are arguments (\<open>conf_env\<close>), as are the scaling of the
  fraction of a duration in floating point (\<open>ce_scale\<close>) and the text of a JSON value (\<open>ce_raw\<close>), which the custom decoders are given.
\<close>

section \<open>Durations and addresses\<close>

type_synonym Duration = int

record TCPAddr =
  ta_IP :: bytes
  ta_Port :: int
  ta_Zone :: string

definition zero_TCPAddr :: TCPAddr where
  "zero_TCPAddr = \<lparr>ta_IP = [], ta_Port = 0, ta_Zone = ''''\<rparr>"

record conf_env =
  ce_scale :: "int \<Rightarrow> int \<Rightarrow> nat \<Rightarrow> int"
  ce_ResolveTCPAddr :: "string \<Rightarrow> TCPAddr result"
  ce_TCPAddrString :: "TCPAddr \<Rightarrow> string"
  ce_raw :: "json \<Rightarrow> bytes"

definition quoted :: "bytes \<Rightarrow> bool" where
  "quoted b \<longleftrightarrow> \<not> (length b < 2 \<or> b ! 0 \<noteq> 34 \<or> b ! (length b - 1) \<noteq> 34)"

definition inside :: "bytes \<Rightarrow> string" where
  "inside b = bytes_string (take (length b - 2) (drop 1 b))"

definition Duration_Check :: "Duration \<Rightarrow> bool" where
  "Duration_Check d \<longleftrightarrow> d > 0"

definition Duration_MarshalJSON :: "Duration \<Rightarrow> bytes" where
  "Duration_MarshalJSON d = [34] @ string_bytes (Duration_String d) @ [34]"

definition Duration_UnmarshalJSON :: "conf_env \<Rightarrow> bytes \<Rightarrow> Duration \<Rightarrow> Duration \<times> err option" where
  "Duration_UnmarshalJSON env b d =
     (if \<not> quoted b then (d, Some ErrDurationFormat)
      else case ParseDuration (ce_scale env) (inside b) of Inl err \<Rightarrow> (d, Some err) | Inr d' \<Rightarrow> (d', None))"

definition TCPAddr_Check :: "TCPAddr \<Rightarrow> bool" where
  "TCPAddr_Check d \<longleftrightarrow> length (ta_IP d) > 0 \<and> ta_Port d \<noteq> 0"

definition TCPAddr_MarshalJSON :: "conf_env \<Rightarrow> TCPAddr \<Rightarrow> bytes" where
  "TCPAddr_MarshalJSON env d = [34] @ string_bytes (ce_TCPAddrString env d) @ [34]"

definition TCPAddr_UnmarshalJSON :: "conf_env \<Rightarrow> bytes \<Rightarrow> TCPAddr \<Rightarrow> TCPAddr \<times> err option" where
  "TCPAddr_UnmarshalJSON env b d =
     (if \<not> quoted b then (d, Some ErrTCPAddrFormat)
      else case ce_ResolveTCPAddr env (inside b) of Inl err \<Rightarrow> (d, Some err) | Inr d' \<Rightarrow> (d', None))"

section \<open>Reusable parts\<close>

record ServiceConfT =
  sc_ListenAddr :: TCPAddr
  sc_MaxConcurrent :: int
  sc_HesitateTime :: Duration

definition ServiceConfT_Check :: "ServiceConfT \<Rightarrow> bool" where
  "ServiceConfT_Check c \<longleftrightarrow> TCPAddr_Check (sc_ListenAddr c) \<and> sc_MaxConcurrent c \<ge> 0 \<and> sc_HesitateTime c \<ge> 0"

record UpstreamConfT =
  uc_Addr :: string
  uc_MaxConcurrent :: int
  uc_Timeout :: Duration

definition UpstreamConfT_Check :: "UpstreamConfT \<Rightarrow> bool" where
  "UpstreamConfT_Check c \<longleftrightarrow> length (uc_Addr c) > 0 \<and> uc_MaxConcurrent c \<ge> 0 \<and> uc_Timeout c \<ge> 0"

record MysqlConfT =
  mc_Addr :: string
  mc_MaxConcurrent :: int
  mc_User :: string
  mc_Pass :: string
  mc_DBName :: string

definition MysqlConfT_Check :: "MysqlConfT \<Rightarrow> bool" where
  "MysqlConfT_Check c \<longleftrightarrow> length (mc_Addr c) > 0 \<and> mc_MaxConcurrent c \<ge> 0 \<and> length (mc_User c) > 0 \<and>
     length (mc_Pass c) > 0 \<and> length (mc_DBName c) > 0"

record RedisConfT =
  rc_Addr :: string
  rc_MaxConcurrent :: int
  rc_Pass :: string

definition RedisConfT_Check :: "RedisConfT \<Rightarrow> bool" where
  "RedisConfT_Check c \<longleftrightarrow> length (rc_Addr c) > 0 \<and> rc_MaxConcurrent c \<ge> 0"

record BDMsgSvcConfT =
  bs_ListenAddr :: TCPAddr
  bs_InqueueN :: int
  bs_OutqueueN :: int
  bs_HandshakeTO :: Duration

definition BDMsgSvcConfT_Check :: "BDMsgSvcConfT \<Rightarrow> bool" where
  "BDMsgSvcConfT_Check c \<longleftrightarrow>
     TCPAddr_Check (bs_ListenAddr c) \<and> bs_InqueueN c > 0 \<and> bs_OutqueueN c > 0 \<and> bs_HandshakeTO c > 0"

record BDMsgCliConfT =
  bc_Addr :: TCPAddr
  bc_InqueueN :: int
  bc_OutqueueN :: int

definition BDMsgCliConfT_Check :: "BDMsgCliConfT \<Rightarrow> bool" where
  "BDMsgCliConfT_Check c \<longleftrightarrow> TCPAddr_Check (bc_Addr c) \<and> bc_InqueueN c > 0 \<and> bc_OutqueueN c > 0"

section \<open>The connector's configuration\<close>

text \<open>\<^verbatim>\<open>ConnectSvcConfT\<close> only embeds \<^verbatim>\<open>BDMsgSvcConfT\<close> and \<^verbatim>\<open>ManagerConfT\<close> is
  empty.\<close>

record ServiceSConfT =
  ss_Debug :: ServiceConfT
  ss_Connect :: BDMsgSvcConfT

record Mq =
  mq_KafkaBrokers :: "string list"
  mq_Topic :: string
  mq_ComputeBrokers :: "string list"

record Redis =
  re_MasterName :: string
  re_Addresses :: "string list"
  re_Password :: string
  re_Db :: int

record RedisPubSub =
  rp_Address :: string
  rp_Password :: string

record ConfigT =
  cf_PidFile :: string
  cf_ServiceS :: ServiceSConfT
  cf_Mq :: Mq
  cf_Redis :: Redis
  cf_RedisPubSub :: RedisPubSub
  cf_IpResolver :: "string list"
  cf_PemFile :: string
  cf_DisableHeartBeat :: bool

definition ConnectSvcConfT_Check :: "BDMsgSvcConfT \<Rightarrow> bool" where
  "ConnectSvcConfT_Check c \<longleftrightarrow> BDMsgSvcConfT_Check c"

definition ServiceSConfT_Check :: "ServiceSConfT \<Rightarrow> bool" where
  "ServiceSConfT_Check c \<longleftrightarrow> ConnectSvcConfT_Check (ss_Connect c)"

definition ManagerConfT_Check :: "unit \<Rightarrow> bool" where
  "ManagerConfT_Check c \<longleftrightarrow> True"

definition ConfigT_Check :: "ConfigT \<Rightarrow> bool" where
  "ConfigT_Check c \<longleftrightarrow> length (cf_PidFile c) > 0 \<and> ServiceSConfT_Check (cf_ServiceS c) \<and> ManagerConfT_Check ()"

section \<open>Decoding\<close>

definition dec_raw ::
  "(json \<Rightarrow> bytes) \<Rightarrow> (bytes \<Rightarrow> 'a \<Rightarrow> 'a \<times> err option) \<Rightarrow> ('s \<Rightarrow> 'a) \<Rightarrow> ('a \<Rightarrow> 's \<Rightarrow> 's) \<Rightarrow> 's decoder" where
  "dec_raw raw unmarshal get upd v s = (let (x, e) = unmarshal (raw v) (get s) in (upd x s, e))"

text \<open>A slice of strings, into a nil slice.\<close>

definition dec_strings :: "(string list \<Rightarrow> 's \<Rightarrow> 's) \<Rightarrow> 's decoder" where
  "dec_strings upd v s =
     (case v of
        JArr vs \<Rightarrow>
          (upd (map (\<lambda>v. case v of JStr t \<Rightarrow> t | _ \<Rightarrow> '''') vs) s,
           if list_all (\<lambda>v. case v of JStr _ \<Rightarrow> True | JNull \<Rightarrow> True | _ \<Rightarrow> False) vs
           then None else Some json_type_err)
      | JNull \<Rightarrow> (upd [] s, None)
      | _ \<Rightarrow> (s, Some json_type_err))"

text \<open>A bool with the option \<^verbatim>\<open>string\<close>: the literal inside a JSON string.\<close>

definition dec_quoted_bool :: "(bool \<Rightarrow> 's \<Rightarrow> 's) \<Rightarrow> 's decoder" where
  "dec_quoted_bool upd v s =
     (case v of
        JStr t \<Rightarrow>
          if t = ''true'' then (upd True s, None) else if t = ''false'' then (upd False s, None)
          else (s, Some json_type_err)
      | JNull \<Rightarrow> (s, None)
      | _ \<Rightarrow> (s, Some json_type_err))"

definition ServiceConfT_schema :: "conf_env \<Rightarrow> ServiceConfT schema" where
  "ServiceConfT_schema env =
     [(''listenaddr'', dec_raw (ce_raw env) (TCPAddr_UnmarshalJSON env) sc_ListenAddr (\<lambda>x. sc_ListenAddr_update (\<lambda>_. x))),
      (''maxconcurrent'', dec_int (\<lambda>n. sc_MaxConcurrent_update (\<lambda>_. n))),
      (''hesitatetime'', dec_raw (ce_raw env) (Duration_UnmarshalJSON env) sc_HesitateTime (\<lambda>x. sc_HesitateTime_update (\<lambda>_. x)))]"

definition BDMsgSvcConfT_schema :: "conf_env \<Rightarrow> BDMsgSvcConfT schema" where
  "BDMsgSvcConfT_schema env =
     [(''listenaddr'', dec_raw (ce_raw env) (TCPAddr_UnmarshalJSON env) bs_ListenAddr (\<lambda>x. bs_ListenAddr_update (\<lambda>_. x))),
      (''inqueuesize'', dec_int (\<lambda>n. bs_InqueueN_update (\<lambda>_. n))),
      (''outqueuesize'', dec_int (\<lambda>n. bs_OutqueueN_update (\<lambda>_. n))),
      (''handshaketimeout'', dec_raw (ce_raw env) (Duration_UnmarshalJSON env) bs_HandshakeTO (\<lambda>x. bs_HandshakeTO_update (\<lambda>_. x)))]"

definition ServiceSConfT_schema :: "conf_env \<Rightarrow> ServiceSConfT schema" where
  "ServiceSConfT_schema env =
     [(''debug'', dec_struct (ServiceConfT_schema env) ss_Debug (\<lambda>x. ss_Debug_update (\<lambda>_. x))),
      (''connect'', dec_struct (BDMsgSvcConfT_schema env) ss_Connect (\<lambda>x. ss_Connect_update (\<lambda>_. x)))]"

text \<open>The tag of \<^verbatim>\<open>ComputeBrokers\<close> is malformed, so the field goes by its own name.\<close>

definition Mq_schema :: "Mq schema" where
  "Mq_schema =
     [(''kafkabrokers'', dec_strings (\<lambda>x. mq_KafkaBrokers_update (\<lambda>_. x))),
      (''topic'', dec_string (\<lambda>x. mq_Topic_update (\<lambda>_. x))),
      (''ComputeBrokers'', dec_strings (\<lambda>x. mq_ComputeBrokers_update (\<lambda>_. x)))]"

definition Redis_schema :: "Redis schema" where
  "Redis_schema =
     [(''masterName'', dec_string (\<lambda>x. re_MasterName_update (\<lambda>_. x))),
      (''addresses'', dec_strings (\<lambda>x. re_Addresses_update (\<lambda>_. x))),
      (''password'', dec_string (\<lambda>x. re_Password_update (\<lambda>_. x))),
      (''db'', dec_int (\<lambda>x. re_Db_update (\<lambda>_. x)))]"

definition RedisPubSub_schema :: "RedisPubSub schema" where
  "RedisPubSub_schema =
     [(''address'', dec_string (\<lambda>x. rp_Address_update (\<lambda>_. x))),
      (''password'', dec_string (\<lambda>x. rp_Password_update (\<lambda>_. x)))]"

definition ConfigT_schema :: "conf_env \<Rightarrow> ConfigT schema" where
  "ConfigT_schema env =
     [(''pidFile'', dec_string (\<lambda>x. cf_PidFile_update (\<lambda>_. x))),
      (''service'', dec_struct (ServiceSConfT_schema env) cf_ServiceS (\<lambda>x. cf_ServiceS_update (\<lambda>_. x))),
      (''manager'', dec_struct [] (\<lambda>_. ()) (\<lambda>_ c. c)),
      (''mq'', dec_struct Mq_schema cf_Mq (\<lambda>x. cf_Mq_update (\<lambda>_. x))),
      (''redis'', dec_struct Redis_schema cf_Redis (\<lambda>x. cf_Redis_update (\<lambda>_. x))),
      (''redisPubSub'', dec_struct RedisPubSub_schema cf_RedisPubSub (\<lambda>x. cf_RedisPubSub_update (\<lambda>_. x))),
      (''ipResolver'', dec_strings (\<lambda>x. cf_IpResolver_update (\<lambda>_. x))),
      (''pemFile'', dec_string (\<lambda>x. cf_PemFile_update (\<lambda>_. x))),
      (''disableHeartBeat'', dec_quoted_bool (\<lambda>x. cf_DisableHeartBeat_update (\<lambda>_. x)))]"

text \<open>\<^verbatim>\<open>ParseConfig\<close>; \<open>file\<close> is the content of the file or the error of opening or reading
  it.\<close>

definition ParseConfig ::
  "conf_env \<Rightarrow> bytes result \<Rightarrow> ConfigT \<Rightarrow> ConfigT \<times> err option" where
  "ParseConfig env file Config =
     (case file of
        Inl err \<Rightarrow> (Config, Some err)
      | Inr blob \<Rightarrow>
          (case json_Unmarshal (ConfigT_schema env) blob Config of
             (Config, Some err) \<Rightarrow> (Config, Some err)
           | (Config, None) \<Rightarrow> if \<not> ConfigT_Check Config then (Config, Some ErrConfigContent) else (Config, None)))"

section \<open>Correctness\<close>

text \<open>
  A configuration that is accepted can be served: the pid file is named, the listen address
  has an address and a port, and queue sizes and handshake timeout are positive. It is accepted
  exactly when the file is read, decodes and passes that check.
\<close>

theorem ParseConfig_ok_iff:
  assumes "ParseConfig env file Config = (c, e)"
  shows "(e = None \<longleftrightarrow>
      (\<exists>blob. file = Inr blob \<and> json_Unmarshal (ConfigT_schema env) blob Config = (c, None)) \<and>
      ConfigT_Check c) \<and>
    (e = None \<longrightarrow> cf_PidFile c \<noteq> '''' \<and>
      (let b = ss_Connect (cf_ServiceS c) in
         ta_IP (bs_ListenAddr b) \<noteq> [] \<and> ta_Port (bs_ListenAddr b) \<noteq> 0 \<and>
         0 < bs_InqueueN b \<and> 0 < bs_OutqueueN b \<and> 0 < bs_HandshakeTO b))"
  using assms
  by (auto simp: ParseConfig_def ConfigT_Check_def ServiceSConfT_Check_def ConnectSvcConfT_Check_def
      ManagerConfT_Check_def BDMsgSvcConfT_Check_def TCPAddr_Check_def Let_def
      split: sum.splits prod.splits option.splits if_splits)

lemma inside_quotes: "quoted ([34] @ string_bytes t @ [34])" "inside ([34] @ string_bytes t @ [34]) = t"
  by (simp_all add: quoted_def inside_def bytes_string_def string_bytes_def nth_append o_def char_of_byte)

text \<open>
  C34: Every duration but the least one survives the configuration file: the decoder gives back what the encoder wrote,
  hours, minutes, fractions of seconds and negative durations included.
\<close>

theorem Duration_roundtrip:
  assumes "float_exact (ce_scale env)" and "\<bar>d\<bar> < 2 ^ 63"
  shows "Duration_UnmarshalJSON env (Duration_MarshalJSON d) d0 = (d, None)"
  using parse_String [OF assms]
  by (simp add: Duration_UnmarshalJSON_def Duration_MarshalJSON_def inside_quotes del: append_Cons append_Nil)

text \<open>Addresses do when their texts are resolved to them.\<close>

lemma TCPAddr_roundtrip:
  "ce_ResolveTCPAddr env (ce_TCPAddrString env a) = Inr a \<Longrightarrow>
   TCPAddr_UnmarshalJSON env (TCPAddr_MarshalJSON env a) a0 = (a, None)"
  by (simp add: TCPAddr_UnmarshalJSON_def TCPAddr_MarshalJSON_def inside_quotes del: append_Cons append_Nil)

section \<open>Witnesses\<close>

definition sample_ConfigT :: ConfigT where
  "sample_ConfigT = \<lparr>cf_PidFile = ''pid'',
     cf_ServiceS = \<lparr>ss_Debug = \<lparr>sc_ListenAddr = zero_TCPAddr, sc_MaxConcurrent = 0, sc_HesitateTime = 0\<rparr>,
       ss_Connect = \<lparr>bs_ListenAddr = \<lparr>ta_IP = [127, 0, 0, 1], ta_Port = 4100, ta_Zone = ''''\<rparr>,
         bs_InqueueN = 20, bs_OutqueueN = 20, bs_HandshakeTO = 5000000000\<rparr>\<rparr>,
     cf_Mq = \<lparr>mq_KafkaBrokers = [], mq_Topic = '''', mq_ComputeBrokers = []\<rparr>,
     cf_Redis = \<lparr>re_MasterName = '''', re_Addresses = [], re_Password = '''', re_Db = 0\<rparr>,
     cf_RedisPubSub = \<lparr>rp_Address = '''', rp_Password = ''''\<rparr>, cf_IpResolver = [], cf_PemFile = '''',
     cf_DisableHeartBeat = False\<rparr>"

theorem ParseConfig_ok_iff_witness:
  "0 < bs_HandshakeTO (ss_Connect (cf_ServiceS sample_ConfigT)) \<and> ConfigT_Check sample_ConfigT"
proof -
  let ?env = "\<lparr>ce_scale = exact_scale,
    ce_ResolveTCPAddr = (\<lambda>_. Inl ErrTCPAddrFormat), ce_TCPAddrString = (\<lambda>_. ''''), ce_raw = (\<lambda>_. [])\<rparr>"
  have null: "json_parse (string_bytes ''null'') = Some JNull" by code_simp
  have "ParseConfig ?env (Inr (string_bytes ''null'')) sample_ConfigT = (sample_ConfigT, None)"
    using null by (simp add: ParseConfig_def json_Unmarshal_def ConfigT_Check_def ServiceSConfT_Check_def
        ConnectSvcConfT_Check_def BDMsgSvcConfT_Check_def TCPAddr_Check_def ManagerConfT_Check_def sample_ConfigT_def)
  from ParseConfig_ok_iff [OF this] show ?thesis by (simp add: Let_def)
qed

theorem Duration_roundtrip_witness:
  "Duration_String 5415250000000 = ''1h30m15.25s'' \<and>
   Duration_UnmarshalJSON \<lparr>ce_scale = exact_scale, ce_ResolveTCPAddr = (\<lambda>_. Inl ErrTCPAddrFormat),
       ce_TCPAddrString = (\<lambda>_. ''''), ce_raw = (\<lambda>_. [])\<rparr>
     (Duration_MarshalJSON 5415250000000) 0 = (5415250000000, None)"
proof (rule conjI)
  have "decimal 15 = ''15''" "decimal 30 = ''30''" "decimal 1 = ''1''" "digit_char 5 = CHR ''5''" "digit_char 2 = CHR ''2''"
    by code_simp+
  then show "Duration_String 5415250000000 = ''1h30m15.25s''"
    by (simp add: Duration_String_eq magnitude_text_def fmtInt_decimal fmtFrac_def Let_def)
qed (rule Duration_roundtrip, simp_all add: exact_scale_exact)

end
