(* ===== verification/Lifecycle.thy ===== *)
theory Lifecycle
  imports Service Statistics Naming Connector_Config
begin

text \<open>
  The life of the process: \<^verbatim>\<open>Start\<close> and \<^verbatim>\<open>newService\<close> of \<^verbatim>\<open>connectsvc.go\<close>, the periodic
  registration of \<^verbatim>\<open>stat.go\<close> and \<^verbatim>\<open>naming.go\<close>, the debug service and \<^verbatim>\<open>main\<close>.

  What the process does to the outside is recorded: \<open>ps_redis\<close> lists the commands it sent to
  redis, \<open>ps_events\<close> the steps of its life that concern listeners, goroutines, the bdmsg
  server and the pid file. What the outside answers is an argument. The text of a floating-point
  number (\<^verbatim>\<open>strconv.FormatFloat\<close>) is an argument, \<open>None\<close> for the values JSON does not have.
\<close>

section \<open>State\<close>

datatype redis_cmd = HSet string string bytes | HDel string string

datatype goroutine = SubscribeLoop | NamingTicker | HeartBeatLoop | ConsumerTicker | DiscoveryTicker

datatype event =
    Listening TCPAddr | Spawned goroutine | HandleFunc int | ServerCreated Duration int int | ServerStarted
  | DebugStarted | PidOpened string | DebugStopped | DebugWaited | ServerStopped | ClientsClosed
  | ClientsWaited | ManagersClosed | PidClosed

record process =
  ps_system :: system
  ps_cachedInternetAddress :: string
  ps_redis :: "redis_cmd list"
  ps_events :: "event list"

definition init_process :: process where
  "init_process = \<lparr>ps_system = init_system, ps_cachedInternetAddress = '''', ps_redis = [], ps_events = []\<rparr>"

definition event :: "event \<Rightarrow> process \<Rightarrow> process" where
  "event e p = p\<lparr>ps_events := ps_events p @ [e]\<rparr>"

definition redis :: "redis_cmd \<Rightarrow> process \<Rightarrow> process" where
  "redis c p = p\<lparr>ps_redis := ps_redis p @ [c]\<rparr>"

text \<open>The answers of the sites that tell the own address, and the order in which their votes are
  visited; the clock, the reply of redis and the visiting orders of the first discovery.\<close>

record start_env =
  en_gets :: "string result list"
  en_order :: "string list"
  en_nanos :: int
  en_reply :: "(string, string) gomap result"
  en_replyOrder :: "string list"

section \<open>Registration with the naming service\<close>

definition getPort :: "ConfigT \<Rightarrow> nat" where
  "getPort Config = nat (ta_Port (bs_ListenAddr (ss_Connect (cf_ServiceS Config))))"

definition own_address :: "ConfigT \<Rightarrow> start_env \<Rightarrow> process \<Rightarrow> process \<times> string may_panic" where
  "own_address Config env p =
     (let (cached, r) = getInternetAddress (en_gets env) (en_order env) (getPort Config) (ps_cachedInternetAddress p)
      in (p\<lparr>ps_cachedInternetAddress := cached\<rparr>, r))"

definition RegisterNamingService :: "ConfigT \<Rightarrow> start_env \<Rightarrow> process \<Rightarrow> process \<times> unit may_panic" where
  "RegisterNamingService Config env p =
     (case own_address Config env p of
        (p, Inl panic) \<Rightarrow> (p, Inl panic)
      | (p, Inr _) \<Rightarrow> (event (Spawned NamingTicker) p, Inr ()))"

definition UnregisterNamingService :: "ConfigT \<Rightarrow> start_env \<Rightarrow> process \<Rightarrow> process \<times> unit may_panic" where
  "UnregisterNamingService Config env p =
     (case own_address Config env p of
        (p, Inl panic) \<Rightarrow> (p, Inl panic)
      | (p, Inr a) \<Rightarrow> (redis (HDel ''go-servers'' a) p, Inr ()))"

text \<open>The encoding of a \<^verbatim>\<open>[]float64\<close>: a nil slice is \<^verbatim>\<open>null\<close>, and one value that JSON does not have
  makes the whole encoding fail.\<close>

definition json_floats :: "(float64 \<Rightarrow> string option) \<Rightarrow> float64 list option \<Rightarrow> json option" where
  "json_floats ftext floats =
     (case floats of
        None \<Rightarrow> Some JNull
      | Some xs \<Rightarrow>
          (if list_all (\<lambda>x. ftext x \<noteq> None) xs then Some (JArr (map (\<lambda>x. JNum (the (ftext x))) xs)) else None))"

definition NamingInfo_Marshal :: "(float64 \<Rightarrow> string option) \<Rightarrow> NamingInfo \<Rightarrow> bytes result" where
  "NamingInfo_Marshal ftext p =
     (case (json_floats ftext (ni_CPU p), ftext (ni_MemoryUsage p)) of
        (Some cpu, Some mem) \<Rightarrow>
          json_Marshal (json_struct
            [(''registerTime'', json_int (ni_RegisterTime p)), (''loginUsers'', json_int (sint (ni_LoginUsers p))),
             (''connectedClients'', json_int (sint (ni_ConnectedClients p))), (''inData'', json_int (ni_InData p)),
             (''outData'', json_int (ni_OutData p)), (''inQueue'', json_int (ni_InQueue p)),
             (''outQueue'', json_int (ni_OutQueue p)), (''cpuUsage'', cpu), (''memoryUsage'', JNum mem)])
      | _ \<Rightarrow> Inl (ErrExternal ''json: unsupported value''))"

text \<open>One tick of the ticker: a report that cannot be made panics, one that cannot be encoded is
  dropped.\<close>

definition naming_tick ::
  "ConfigT \<Rightarrow> start_env \<Rightarrow> (float64 \<Rightarrow> string option) \<Rightarrow> (conn \<Rightarrow> int \<times> int) \<Rightarrow> float64 list option \<Rightarrow> float64 option \<Rightarrow>
   int \<Rightarrow> string list \<Rightarrow> string list \<Rightarrow> process \<Rightarrow> process \<times> unit may_panic" where
  "naming_tick Config env ftext statis cpuPercent vmStat nanos order statOrder p =
     (case naming_report statis cpuPercent vmStat nanos order statOrder (sys_world (ps_system p)) of
        (w, Inl panic) \<Rightarrow> (p, Inl panic)
      | (w, Inr tempInfo) \<Rightarrow>
          (let p = p\<lparr>ps_system := (ps_system p)\<lparr>sys_world := w\<rparr>\<rparr>
           in case NamingInfo_Marshal ftext tempInfo of
                Inl err \<Rightarrow> (p, Inr ())
              | Inr jsonText \<Rightarrow>
                  (case own_address Config env p of
                     (p, Inl panic) \<Rightarrow> (p, Inl panic)
                   | (p, Inr a) \<Rightarrow> (redis (HSet ''go-servers'' a jsonText) p, Inr ()))))"

section \<open>Starting\<close>

definition initRpcServerDiscovery :: "start_env \<Rightarrow> process \<Rightarrow> process" where
  "initRpcServerDiscovery env p =
     (let p = event (Spawned DiscoveryTicker) p
      in p\<lparr>ps_system := (ps_system p)\<lparr>sys_rpc :=
            rpc_discovery (en_nanos env) (en_reply env) (en_replyOrder env)
              (map fst (up_connectionMap (rs_upstream (sys_rpc (ps_system p))))) (sys_rpc (ps_system p))\<rparr>\<rparr>)"

text \<open>\<^verbatim>\<open>newService\<close>: the deferred call runs when it returns.\<close>

definition newService :: "ConfigT \<Rightarrow> start_env \<Rightarrow> Duration \<Rightarrow> int \<Rightarrow> int \<Rightarrow> process \<Rightarrow> process \<times> unit may_panic" where
  "newService Config env handshakeTO pumperInN pumperOutN p =
     (let p = event (Spawned SubscribeLoop) p;
          p = fold (\<lambda>t. event (HandleFunc t))
                [MsgTypeRegister, MsgTypeEnterRoom, MsgTypeChat, MsgTypeRefreshToken, MsgTypeHeartBeat] p;
          p = event (ServerCreated handshakeTO pumperInN pumperOutN) p
      in case RegisterNamingService Config env p of
           (p, Inl panic) \<Rightarrow> (p, Inl panic)
         | (p, Inr _) \<Rightarrow>
             (let p = event (Spawned HeartBeatLoop) p;
                  p = event (Spawned ConsumerTicker) p;
                  p = initRpcServerDiscovery env p
              in UnregisterNamingService Config env p))"

definition connectsvc_Start ::
  "ConfigT \<Rightarrow> start_env \<Rightarrow> err option \<Rightarrow> process \<Rightarrow> process \<times> unit result may_panic" where
  "connectsvc_Start Config env listenErr p =
     (let conf = ss_Connect (cf_ServiceS Config)
      in if listenErr \<noteq> None then (p, Inr (Inl ErrAddress))
         else case newService Config env (bs_HandshakeTO conf) (bs_InqueueN conf) (bs_OutqueueN conf)
                     (event (Listening (bs_ListenAddr conf)) p) of
             (p, Inl panic) \<Rightarrow> (p, Inl panic)
           | (p, Inr _) \<Rightarrow> (event ServerStarted p, Inr (Inr ())))"

definition debugsvc_Start :: "ServiceConfT \<Rightarrow> err option \<Rightarrow> process \<Rightarrow> process \<times> unit result" where
  "debugsvc_Start conf listenErr p =
     (if listenErr \<noteq> None then (p, Inl ErrAddress)
      else (event DebugStarted (event (Listening (sc_ListenAddr conf)) p), Inr ()))"

text \<open>
  \<^verbatim>\<open>main\<close> up to the \<^verbatim>\<open>select\<close>. The result says whether the process goes on and, if it does, whether
  the debug service runs.
\<close>

definition main_start ::
  "ConfigT \<Rightarrow> start_env \<Rightarrow> err option \<Rightarrow> err option \<Rightarrow> process \<Rightarrow> process \<times> bool option may_panic" where
  "main_start Config env listenErr debugListenErr p =
     (case connectsvc_Start Config env listenErr p of
        (p, Inl panic) \<Rightarrow> (p, Inl panic)
      | (p, Inr (Inl err)) \<Rightarrow> (p, Inr None)
      | (p, Inr (Inr _)) \<Rightarrow>
          (let (p, debugS) =
                 (if ServiceConfT_Check (ss_Debug (cf_ServiceS Config))
                  then case debugsvc_Start (ss_Debug (cf_ServiceS Config)) debugListenErr p of
                      (p, Inl err) \<Rightarrow> (p, False)
                    | (p, Inr _) \<Rightarrow> (p, True)
                  else (p, False))
           in (event (PidOpened (cf_PidFile Config)) p, Inr (Some debugS))))"

text \<open>\<^verbatim>\<open>main\<close> after the \<^verbatim>\<open>select\<close>; \<open>order\<close> is the visiting order of \<^verbatim>\<open>CloseAll\<close>.\<close>

definition main_stop :: "bool \<Rightarrow> string list \<Rightarrow> process \<Rightarrow> process" where
  "main_stop debugS order p =
     (let p = (if debugS then event DebugWaited (event DebugStopped p) else p);
          p = event ServerStopped p;
          p = event ClientsClosed (p\<lparr>ps_system := (ps_system p)\<lparr>sys_world :=
                ClientManager_CloseAll order (sys_world (ps_system p))\<rparr>\<rparr>);
          p = event ClientsWaited p;
          p = event ManagersClosed p
      in event PidClosed p)"

section \<open>A running process\<close>

inductive running :: "ConfigT \<Rightarrow> start_env \<Rightarrow> libs \<Rightarrow> process \<Rightarrow> bool" for Config env l where
  started: "main_start Config env listenErr debugListenErr init_process = (p, Inr (Some debugS)) \<Longrightarrow>
    running Config env l p"
| served: "running Config env l p \<Longrightarrow> service_step l (ps_system p) y \<Longrightarrow> running Config env l (p\<lparr>ps_system := y\<rparr>)"
| reported: "running Config env l p \<Longrightarrow>
    naming_tick Config env' ftext statis cpu vm nanos order statOrder p = (p', Inr ()) \<Longrightarrow> running Config env l p'"

lemmas process_steps = event_def redis_def Let_def

lemma own_address_cached [simp]:
  "ps_cachedInternetAddress p \<noteq> '''' \<Longrightarrow> own_address Config env p = (p, Inr (ps_cachedInternetAddress p))"
  by (simp add: own_address_def getInternetAddress_def)

lemma resolved_nonempty: "resolveInternetAddress gets order port = Inr a \<Longrightarrow> a \<noteq> ''''"
  by (auto simp: resolveInternetAddress_def)

section \<open>When the process starts\<close>

text \<open>What a successful start leaves behind.\<close>

lemma newService_result:
  assumes "ps_cachedInternetAddress p = ''''"
  shows "newService Config env to i n p =
    (case resolveInternetAddress (en_gets env) (en_order env) (getPort Config) of
       Inl panic \<Rightarrow> (p\<lparr>ps_events := ps_events p @ Spawned SubscribeLoop #
           map HandleFunc [MsgTypeRegister, MsgTypeEnterRoom, MsgTypeChat, MsgTypeRefreshToken, MsgTypeHeartBeat] @
           [ServerCreated to i n]\<rparr>, Inl panic)
     | Inr a \<Rightarrow> (p\<lparr>ps_events := ps_events p @ Spawned SubscribeLoop #
           map HandleFunc [MsgTypeRegister, MsgTypeEnterRoom, MsgTypeChat, MsgTypeRefreshToken, MsgTypeHeartBeat] @
           [ServerCreated to i n, Spawned NamingTicker, Spawned HeartBeatLoop, Spawned ConsumerTicker, Spawned DiscoveryTicker],
         ps_cachedInternetAddress := a, ps_redis := ps_redis p @ [HDel ''go-servers'' a],
         ps_system := (ps_system p)\<lparr>sys_rpc := rpc_discovery (en_nanos env) (en_reply env) (en_replyOrder env)
           (map fst (up_connectionMap (rs_upstream (sys_rpc (ps_system p))))) (sys_rpc (ps_system p))\<rparr>\<rparr>, Inr ()))"
proof (cases "resolveInternetAddress (en_gets env) (en_order env) (getPort Config)")
  case (Inl e)
  with assms show ?thesis
    by (simp add: newService_def RegisterNamingService_def own_address_def getInternetAddress_def process_steps)
next
  case (Inr a)
  with assms resolved_nonempty [OF Inr] show ?thesis
    by (simp add: newService_def RegisterNamingService_def UnregisterNamingService_def own_address_def
        getInternetAddress_def initRpcServerDiscovery_def process_steps)
qed

lemma connectsvc_Start_ok:
  assumes "connectsvc_Start Config env e init_process = (p, Inr (Inr ()))"
  shows "\<exists>a. resolveInternetAddress (en_gets env) (en_order env) (getPort Config) = Inr a \<and>
    ps_cachedInternetAddress p = a \<and> ps_redis p = [HDel ''go-servers'' a] \<and> service_ok (ps_system p)"
proof -
  have "service_ok (init_system\<lparr>sys_rpc := rpc_discovery nanos reply order connOrder (sys_rpc init_system)\<rparr>)"
    for nanos reply order connOrder
    by (simp add: service_ok_def init_system_def init_world_ok rpcClient_def rpc_discovery_def Let_def split: sum.split)
  then show ?thesis
    using assms
    by (auto simp: connectsvc_Start_def newService_result init_process_def process_steps split: if_splits sum.splits)
qed

lemma main_start_ok:
  assumes "main_start Config env e e' init_process = (p, Inr (Some debugS))"
  shows "\<exists>a. resolveInternetAddress (en_gets env) (en_order env) (getPort Config) = Inr a \<and>
    ps_cachedInternetAddress p = a \<and> ps_redis p = [HDel ''go-servers'' a] \<and> service_ok (ps_system p)"
proof -
  obtain q where "connectsvc_Start Config env e init_process = (q, Inr (Inr ()))"
    and "ps_cachedInternetAddress p = ps_cachedInternetAddress q" "ps_redis p = ps_redis q" "ps_system p = ps_system q"
    using assms
    by (auto simp: main_start_def debugsvc_Start_def process_steps split: prod.splits sum.splits if_splits)
  with connectsvc_Start_ok show ?thesis by metis
qed

text \<open>
  The process comes up exactly when it can listen and learns its own address: a listener that
  fails ends \<^verbatim>\<open>main\<close> before anything is started, without an address it panics with nothing
  but the server object made, and the debug service runs exactly when it is configured and
  can listen too.
\<close>

theorem main_start_iff:
  "((\<exists>p. main_start Config env listenErr debugListenErr init_process = (p, Inr (Some debugS))) \<longleftrightarrow>
     listenErr = None \<and> (\<exists>a. resolveInternetAddress (en_gets env) (en_order env) (getPort Config) = Inr a) \<and>
     (debugS \<longleftrightarrow> ServiceConfT_Check (ss_Debug (cf_ServiceS Config)) \<and> debugListenErr = None)) \<and>
   main_start Config env (Some e) debugListenErr init_process = (init_process, Inr None) \<and>
   (\<forall>panic. resolveInternetAddress (en_gets env) (en_order env) (getPort Config) = Inl panic \<longrightarrow>
     (\<exists>p. main_start Config env None debugListenErr init_process = (p, Inl panic) \<and> ps_redis p = [] \<and>
       ServerStarted \<notin> set (ps_events p)))"
proof (intro conjI allI impI)
  show "(\<exists>p. main_start Config env listenErr debugListenErr init_process = (p, Inr (Some debugS))) \<longleftrightarrow>
     listenErr = None \<and> (\<exists>a. resolveInternetAddress (en_gets env) (en_order env) (getPort Config) = Inr a) \<and>
     (debugS \<longleftrightarrow> ServiceConfT_Check (ss_Debug (cf_ServiceS Config)) \<and> debugListenErr = None)"
    by (auto simp: main_start_def connectsvc_Start_def newService_result debugsvc_Start_def init_process_def
        process_steps split: sum.split)
  show "main_start Config env (Some e) debugListenErr init_process = (init_process, Inr None)"
    by (simp add: main_start_def connectsvc_Start_def)
  fix panic
  assume "resolveInternetAddress (en_gets env) (en_order env) (getPort Config) = Inl panic"
  then show "\<exists>p. main_start Config env None debugListenErr init_process = (p, Inl panic) \<and> ps_redis p = [] \<and>
      ServerStarted \<notin> set (ps_events p)"
    by (simp add: main_start_def connectsvc_Start_def newService_result init_process_def process_steps)
qed

section \<open>The entry in the naming service\<close>





lemma main_stop_redis [simp]: "ps_redis (main_stop debugS order p) = ps_redis p"
  by (simp add: main_stop_def process_steps)


section \<open>Shutdown\<close>

lemma naming_tick_ok:
  assumes "naming_tick Config env ftext statis cpu vm nanos order statOrder p = (p', r)" and "service_ok (ps_system p)"
  shows "service_ok (ps_system p')"
proof -
  let ?w = "sys_world (ps_system p)"
  have "same_sessions ?w (?w\<lparr>w_info := (w_info ?w)\<lparr>info_OutData := x, info_InData := y\<rparr>\<rparr>)" for x y
    by (simp add: same_sessions_def sessions_def stopped_def userData_def)
  then have "world_ok (?w\<lparr>w_info := (w_info ?w)\<lparr>info_OutData := x, info_InData := y\<rparr>\<rparr>)" for x y
    by (rule world_ok_same) (use assms(2) in \<open>simp_all add: service_ok_def\<close>)
  with assms show ?thesis
    by (auto simp: naming_tick_def own_address_def naming_report_def service_ok_def process_steps
        split: prod.splits sum.splits option.splits)
qed

lemma running_ok: "running Config env l p \<Longrightarrow> service_ok (ps_system p)"
proof (induction rule: running.induct)
  case (started e e' p d)
  then show ?case using main_start_ok by blast
next
  case (served p y)
  then show ?case by (simp add: service_step_ok)
next
  case (reported p env' ftext statis cpu vm nanos order statOrder p')
  then show ?case using naming_tick_ok by blast
qed

text \<open>
  C28: A shutdown reaches everybody: whatever the process did before, when \<^verbatim>\<open>main\<close> has closed the
  clients the connection of every session that is still running has been told to stop, those
  of superseded sessions included; the server was stopped before and is waited for after.
\<close>

theorem shutdown_stops_every_session:
  assumes "running Config env l p" and "w = sys_world (ps_system p)" and "range_order (w_clients w) order"
    and "alive w c"
  shows "stopped (sys_world (ps_system (main_stop debugS order p))) (c_msc (deref w c)) \<and>
    (\<exists>es. ps_events (main_stop debugS order p) =
      es @ [ServerStopped, ClientsClosed, ClientsWaited, ManagersClosed, PidClosed])"
proof -
  have ok: "sessions_ok w" using running_ok [OF assms(1)] assms(2) by (simp add: service_ok_def world_ok_def)
  have "c \<in> set (sessions w)" using assms(4) by (simp add: set_sessions)
  then have "registered w c \<or> stopped w (c_msc (deref w c))" using ok by (auto simp: sessions_ok_def)
  then have "stopped (ClientManager_CloseAll order w) (c_msc (deref w c))"
  proof
    assume "registered w c"
    then have "c_ID (deref w c) \<in> set order" "the (map_of (w_clients w) (c_ID (deref w c))) = c"
      using assms(3) by (auto simp: registered_def range_order_def keys_of_conv)
    then show ?thesis using CloseAll_stops_registered [OF assms(3)] by (force simp: stopped_def)
  qed (use CloseAll_stops_registered [OF assms(3)] in \<open>simp add: stopped_def\<close>)
  then show ?thesis using assms(2) by (auto simp: main_stop_def process_steps)
qed

section \<open>Witnesses\<close>

definition sample_start :: start_env where
  "sample_start = \<lparr>en_gets = [Inr ''10.0.0.7''], en_order = [''10.0.0.7''], en_nanos = 0,
     en_reply = Inl ErrUnknown, en_replyOrder = []\<rparr>"

lemma sample_address: "resolveInternetAddress (en_gets sample_start) (en_order sample_start) (getPort sample_ConfigT) = Inr ''10.0.0.7:4100''"
  by code_simp

definition started_process :: process where
  "started_process = fst (main_start sample_ConfigT sample_start None None init_process)"

lemma started_process_running:
  "running sample_ConfigT sample_start l started_process" "ps_system started_process = init_system"
proof -
  obtain p where p: "main_start sample_ConfigT sample_start None None init_process = (p, Inr (Some False))"
    and "ps_system p = init_system"
    using sample_address
    by (auto simp: main_start_def connectsvc_Start_def newService_result debugsvc_Start_def init_process_def
        process_steps sample_ConfigT_def ServiceConfT_Check_def TCPAddr_Check_def zero_TCPAddr_def
        sample_start_def rpc_discovery_def init_system_def)
  then show "ps_system started_process = init_system" by (simp add: started_process_def)
  from p have "started_process = p" by (simp add: started_process_def)
  with running.started [OF p] show "running sample_ConfigT sample_start l started_process" by simp
qed

lemma running_reachable:
  assumes "reachable_system l y"
  shows "running sample_ConfigT sample_start l (started_process\<lparr>ps_system := y\<rparr>)"
  using assms
proof (induction rule: reachable.induct)
  case (reach_init y)
  then have "started_process\<lparr>ps_system := y\<rparr> = started_process" by (simp flip: started_process_running(2))
  with started_process_running(1) [of l] show ?case by simp
next
  case (reach_step y y')
  from running.served [OF reach_step.IH, of y'] reach_step.hyps show ?case by simp
qed


theorem shutdown_stops_every_session_witness:
  "stopped (sys_world (ps_system (main_stop False [''u'']
     (started_process\<lparr>ps_system := init_system\<lparr>sys_world := second_login\<rparr>\<rparr>)))) 8"
proof -
  have o: "range_order (w_clients second_login) [''u'']"
    by (simp add: second_login_def range_order_def keys_of_def)
  from shutdown_stops_every_session [OF running_reachable [OF second_login_reachable] _ o second_login_facts(2), of False]
  show ?thesis using second_login_facts(7) by simp
qed

theorem main_start_iff_witness:
  "\<exists>p. main_start sample_ConfigT sample_start None None init_process = (p, Inr (Some False))"
proof -
  have "\<not> ServiceConfT_Check (ss_Debug (cf_ServiceS sample_ConfigT))"
    by (simp add: sample_ConfigT_def ServiceConfT_Check_def TCPAddr_Check_def zero_TCPAddr_def)
  then show ?thesis
    using main_start_iff [of sample_ConfigT sample_start None None False ErrUnknown] sample_address by auto
qed

end
