(* ===== verification/Log_Factory.thy ===== *)
theory Log_Factory
  imports Go_Json
begin

text \<open>
  \<^verbatim>\<open>logfactory.go\<close>: which loggers the configuration file asks for. The logging package
  lumber is not part of the repository: its level constants are an argument (\<open>lumber\<close>), and a
  logger is the list of the appenders it writes to. The file system and the parser of human
  readable sizes are arguments too.
\<close>

section \<open>Operations\<close>

definition substr :: "string \<Rightarrow> int \<Rightarrow> int \<Rightarrow> string may_panic" where
  "substr s pos len =
     (let rs = runes s;
          l = pos + len;
          l = (if l > int (length rs) then int (length rs) else l)
      in if 0 \<le> pos \<and> pos \<le> l then Inr (concat (take (nat (l - pos)) (drop (nat pos) rs)))
         else Inl SliceBounds)"

text \<open>\<^verbatim>\<open>strings.LastIndex(dir, "/")\<close>, a byte offset.\<close>

fun last_slash :: "string \<Rightarrow> int" where
  "last_slash [] = - 1"
| "last_slash (c # s) =
     (let i = last_slash s in if i \<ge> 0 then i + 1 else if c = CHR ''/'' then 0 else - 1)"

definition getParentDirectory :: "string \<Rightarrow> string may_panic" where
  "getParentDirectory dir = substr dir 0 (last_slash dir)"

record lumber_levels =
  l_TRACE :: int
  l_DEBUG :: int
  l_INFO :: int
  l_WARN :: int
  l_ERROR :: int
  l_FATAL :: int

definition stringToLevel :: "lumber_levels \<Rightarrow> string \<Rightarrow> int" where
  "stringToLevel lumber levelText =
     (if levelText = ''TRACE'' then l_TRACE lumber
      else if levelText = ''DEBUG'' then l_DEBUG lumber
      else if levelText = ''INFO'' then l_INFO lumber
      else if levelText = ''WARN'' then l_WARN lumber
      else if levelText = ''ERROR'' then l_ERROR lumber
      else if levelText = ''FATAL'' then l_FATAL lumber
      else - 1)"

record appender =
  ap_Enable :: bool
  ap_AppenderType :: string
  ap_Level :: string
  ap_Filename :: string
  ap_Pattern :: string
  ap_Rotate :: bool
  ap_Maxlines :: string

record LoggerT =
  lg_Name :: string
  lg_Appenders :: "appender list"

record LogConfigT =
  lc_Refresh :: string
  lc_Loggers :: "LoggerT list"

definition zero_appender :: appender where
  "zero_appender = \<lparr>ap_Enable = False, ap_AppenderType = [], ap_Level = [], ap_Filename = [],
     ap_Pattern = [], ap_Rotate = False, ap_Maxlines = []\<rparr>"

definition appender_schema :: "appender schema" where
  "appender_schema =
     [(''enable'', dec_bool (\<lambda>b. ap_Enable_update (\<lambda>_. b))),
      (''type'', dec_string (\<lambda>t. ap_AppenderType_update (\<lambda>_. t))),
      (''level'', dec_string (\<lambda>t. ap_Level_update (\<lambda>_. t))),
      (''filename'', dec_string (\<lambda>t. ap_Filename_update (\<lambda>_. t))),
      (''pattern'', dec_string (\<lambda>t. ap_Pattern_update (\<lambda>_. t))),
      (''rotate'', dec_bool (\<lambda>b. ap_Rotate_update (\<lambda>_. b))),
      (''maxlines'', dec_string (\<lambda>t. ap_Maxlines_update (\<lambda>_. t)))]"

definition LoggerT_schema :: "LoggerT schema" where
  "LoggerT_schema =
     [(''name'', dec_string (\<lambda>t. lg_Name_update (\<lambda>_. t))),
      (''appenders'', dec_slice (dec_struct appender_schema id (\<lambda>x _. x)) zero_appender (\<lambda>x. lg_Appenders_update (\<lambda>_. x)))]"

definition LogConfigT_schema :: "LogConfigT schema" where
  "LogConfigT_schema =
     [(''refresh'', dec_string (\<lambda>t. lc_Refresh_update (\<lambda>_. t))),
      (''loggers'', dec_slice (dec_struct LoggerT_schema id (\<lambda>x _. x)) \<lparr>lg_Name = [], lg_Appenders = []\<rparr>
         (\<lambda>x. lc_Loggers_update (\<lambda>_. x)))]"

text \<open>\<^verbatim>\<open>ParseConfig2\<close>; \<open>file\<close> is the content of \<^verbatim>\<open>log.json\<close> or the error of opening or reading
  it.\<close>

definition ParseConfig2 :: "bytes result \<Rightarrow> LogConfigT result" where
  "ParseConfig2 file =
     (case file of
        Inl err \<Rightarrow> Inl err
      | Inr blob \<Rightarrow>
          (case json_Unmarshal LogConfigT_schema blob \<lparr>lc_Refresh = [], lc_Loggers = []\<rparr> of
             (_, Some err) \<Rightarrow> Inl err
           | (loggerConfig, None) \<Rightarrow> Inr loggerConfig))"

datatype sink = ConsoleLogger int | FileLogger string int int

text \<open>The outside world: whether a directory exists, whether it can be made, sizes, and whether a
  log file can be opened.\<close>

record log_env =
  le_lumber :: lumber_levels
  le_Stat :: "string \<Rightarrow> bool"
  le_MkdirAll :: "string \<Rightarrow> err option"
  le_FromHumanSize :: "string \<Rightarrow> int result"
  le_NewFileLogger :: "string \<Rightarrow> err option"

text \<open>One appender: the sinks collected so far and the root path, or an error.\<close>

definition add_appender ::
  "log_env \<Rightarrow> string \<Rightarrow> appender \<Rightarrow> sink list \<times> string \<Rightarrow> (sink list \<times> string) result may_panic" where
  "add_appender env name d s =
     (let (sinks, rootPath) = s; level = stringToLevel (le_lumber env) (ap_Level d)
      in if \<not> ap_Enable d then Inr (Inr s)
         else if ap_AppenderType d = ''console'' then Inr (Inr (sinks @ [ConsoleLogger level], rootPath))
         else if ap_AppenderType d = ''file'' then
           bind_panic (getParentDirectory (ap_Filename d)) (\<lambda>dir.
             case (if le_Stat env dir then None else le_MkdirAll env dir) of
               Some err \<Rightarrow> Inr (Inl err)
             | None \<Rightarrow>
                 (case le_FromHumanSize env (ap_Maxlines d) of
                    Inl err \<Rightarrow> Inr (Inl err)
                  | Inr sz \<Rightarrow>
                      (case le_NewFileLogger env (ap_Filename d) of
                         Some err1 \<Rightarrow> Inr (Inl err1)
                       | None \<Rightarrow>
                           Inr (Inr (sinks @ [FileLogger (ap_Filename d) level sz],
                                if name = ''root'' \<and> ap_Level d = ''INFO'' then ap_Filename d else rootPath)))))
         else Inr (Inr s))"

fun add_appenders ::
  "log_env \<Rightarrow> string \<Rightarrow> appender list \<Rightarrow> sink list \<times> string \<Rightarrow> (sink list \<times> string) result may_panic" where
  "add_appenders env name [] s = Inr (Inr s)"
| "add_appenders env name (d # ds) s =
     bind_panic (add_appender env name d s) (\<lambda>r.
       case r of Inl err \<Rightarrow> Inr (Inl err) | Inr s' \<Rightarrow> add_appenders env name ds s')"

fun initLogger ::
  "log_env \<Rightarrow> LoggerT list \<Rightarrow> (string, sink list) gomap \<times> string \<Rightarrow>
   ((string, sink list) gomap \<times> string) result may_panic" where
  "initLogger env [] s = Inr (Inr s)"
| "initLogger env (d # ds) (logger, rootPath) =
     bind_panic (add_appenders env (lg_Name d) (lg_Appenders d) ([], rootPath)) (\<lambda>r.
       case r of
         Inl err \<Rightarrow> Inr (Inl err)
       | Inr (log, rootPath) \<Rightarrow> initLogger env ds (AList.update (lg_Name d) log logger, rootPath))"

text \<open>
  The package initialiser: \<open>setOutput\<close> is the outcome of handing the root path to gologf. An
  error ends the process (\<open>None\<close>); otherwise the two package variables are set, to nil when the
  map has no such logger.
\<close>

definition log_init ::
  "log_env \<Rightarrow> (string \<Rightarrow> err option) \<Rightarrow> bytes result \<Rightarrow> (sink list option \<times> sink list option) option may_panic" where
  "log_init env setOutput file =
     (case ParseConfig2 file of
        Inl err \<Rightarrow> Inr None
      | Inr loggerConfig \<Rightarrow>
          bind_panic (initLogger env (lc_Loggers loggerConfig) ([], [])) (\<lambda>r.
            case r of
              Inl err \<Rightarrow> Inr None
            | Inr (logger, rootPath) \<Rightarrow>
                if setOutput rootPath \<noteq> None then Inr None
                else Inr (Some (map_of logger ''root'', map_of logger ''timer''))))"

section \<open>Paths\<close>

lemma last_slash_none: "CHR ''/'' \<notin> set f \<Longrightarrow> last_slash f = - 1"
  by (induction f) auto

lemma last_slash_path: "CHR ''/'' \<notin> set f \<Longrightarrow> last_slash (d @ CHR ''/'' # f) = int (length d)"
  by (induction d) (auto simp: last_slash_none)

text \<open>
  The parent directory of a path: for an ASCII path with a slash it is what precedes the last
  slash, but for a file name without a slash the function slices up to -1 and panics, so a log
  file in the working directory stops the connector at start-up.
\<close>

theorem getParentDirectory_correct:
  assumes "CHR ''/'' \<notin> set f"
  shows "getParentDirectory f = Inl SliceBounds \<and>
    (ascii (d @ ''/'' @ f) \<longrightarrow> getParentDirectory (d @ ''/'' @ f) = Inr d)"
proof -
  have "concat (map (\<lambda>c. [c]) xs) = xs" for xs :: string by (induction xs) auto
  then show ?thesis
    using assms by (auto simp: getParentDirectory_def substr_def last_slash_none last_slash_path runes_ascii
        Let_def take_map)
qed

theorem getParentDirectory_correct_witness:
  "getParentDirectory ''connector.log'' = Inl SliceBounds \<and> getParentDirectory ''logs/connector.log'' = Inr ''logs''"
  using getParentDirectory_correct [of "''connector.log''" "''logs''"] by (simp add: ascii_def byte_in_def)

text \<open>A configuration whose log files all have a directory, all sizes of which parse and all files
  of which can be opened is accepted; every logger it names is registered.\<close>

definition sane_env :: "log_env \<Rightarrow> bool" where
  "sane_env env \<longleftrightarrow> (\<forall>d. le_MkdirAll env d = None) \<and> (\<forall>t. \<exists>n. le_FromHumanSize env t = Inr n) \<and>
     (\<forall>f. le_NewFileLogger env f = None)"

definition sane_appender :: "appender \<Rightarrow> bool" where
  "sane_appender d \<longleftrightarrow> (\<exists>p. getParentDirectory (ap_Filename d) = Inr p)"

lemma add_appenders_ok:
  "sane_env env \<Longrightarrow> list_all sane_appender ds \<Longrightarrow> \<exists>s'. add_appenders env name ds s = Inr (Inr s')"
proof (induction ds arbitrary: s)
  case (Cons d ds)
  have "\<exists>s'. add_appender env name d s = Inr (Inr s')"
  proof -
    obtain p where "getParentDirectory (ap_Filename d) = Inr p"
      using Cons.prems(2) by (auto simp: sane_appender_def)
    moreover obtain n where "le_FromHumanSize env (ap_Maxlines d) = Inr n"
      using Cons.prems(1) unfolding sane_env_def by blast
    ultimately show ?thesis using Cons.prems(1)
      by (cases s) (simp add: add_appender_def sane_env_def Let_def)
  qed
  with Cons show ?case by auto
qed simp

lemma initLogger_ok:
  assumes "sane_env env" and "\<And>d. d \<in> set ds \<Longrightarrow> list_all sane_appender (lg_Appenders d)"
  shows "\<exists>m root. initLogger env ds (m0, r0) = Inr (Inr (m, root)) \<and>
    keys_of m = keys_of m0 \<union> lg_Name ` set ds"
  using assms(2)
proof (induction ds arbitrary: m0 r0)
  case (Cons d ds)
  obtain ss r where s: "add_appenders env (lg_Name d) (lg_Appenders d) ([], r0) = Inr (Inr (ss, r))"
    using add_appenders_ok [OF assms(1) Cons.prems [of d]] by fastforce
  obtain m root where "initLogger env ds (AList.update (lg_Name d) ss m0, r) = Inr (Inr (m, root))"
    and "keys_of m = insert (lg_Name d) (keys_of m0) \<union> lg_Name ` set ds"
    using Cons.IH [of "AList.update (lg_Name d) ss m0" r] Cons.prems by auto
  with s show ?case by auto
qed simp

lemma log_init_sane:
  assumes "ParseConfig2 file = Inr c" and "sane_env env" and "\<And>p. setOutput p = None"
    and "\<And>d. d \<in> set (lc_Loggers c) \<Longrightarrow> list_all sane_appender (lg_Appenders d)"
    and "{''root'', ''timer''} \<subseteq> lg_Name ` set (lc_Loggers c)"
  shows "\<exists>root timer. log_init env setOutput file = Inr (Some (Some root, Some timer))"
proof -
  obtain m r where m: "initLogger env (lc_Loggers c) ([], []) = Inr (Inr (m, r))"
    "keys_of m = lg_Name ` set (lc_Loggers c)"
    using initLogger_ok [of env "lc_Loggers c" "[]" "[]", OF assms(2,4)] by (auto simp: keys_of_def)
  then have "''root'' \<in> keys_of m" "''timer'' \<in> keys_of m" using assms(5) by auto
  then obtain a b where "map_of m ''root'' = Some a" "map_of m ''timer'' = Some b" by (auto simp: keys_of_conv)
  with m(1) assms(1,3) show ?thesis by (simp add: log_init_def)
qed

text \<open>
  The loggers exist when the process starts: when \<^verbatim>\<open>log.json\<close> decodes and names the loggers
  \<^verbatim>\<open>root\<close> and \<^verbatim>\<open>timer\<close>, every appender's file has a directory, and directories, sizes,
  files and the redirection of gologf work, the initialiser sets both package variables; a
  file that cannot be read or decoded ends the process.
\<close>

theorem log_init_ok:
  assumes "ParseConfig2 file = Inr c" and "sane_env env" and "\<And>p. setOutput p = None"
    and "\<And>d. d \<in> set (lc_Loggers c) \<Longrightarrow> list_all sane_appender (lg_Appenders d)"
    and "{''root'', ''timer''} \<subseteq> lg_Name ` set (lc_Loggers c)"
  shows "(\<exists>root timer. log_init env setOutput file = Inr (Some (Some root, Some timer))) \<and>
    log_init env setOutput (Inl err) = Inr None"
  using log_init_sane [OF assms] by (simp add: log_init_def ParseConfig2_def)

text \<open>The document of the log configuration the repository ships (\<^verbatim>\<open>test/log.json\<close>), reduced to
  one appender per logger.\<close>

definition log_document :: json where
  "log_document = JObj [(''refresh'', JStr ''10s''), (''loggers'', JArr
     [JObj [(''name'', JStr ''root''), (''appenders'', JArr
        [JObj [(''enable'', JBool True), (''type'', JStr ''file''), (''level'', JStr ''INFO''),
           (''filename'', JStr ''./logs/connector.info.txt''), (''rotate'', JBool True), (''maxlines'', JStr ''50K'')]])],
      JObj [(''name'', JStr ''timer''), (''appenders'', JArr
        [JObj [(''enable'', JBool True), (''type'', JStr ''file''), (''level'', JStr ''INFO''),
           (''filename'', JStr ''./logs/connector.timer.txt''), (''rotate'', JBool True), (''maxlines'', JStr ''50K'')]])]])]"

lemma log_document_text: "json_parse (json_print log_document) = Some log_document"
  using json_roundtrip [of log_document] by (simp add: log_document_def valid_utf8_ascii ascii_def byte_in_def)

definition open_env :: log_env where
  "open_env = \<lparr>le_lumber = \<lparr>l_TRACE = 0, l_DEBUG = 1, l_INFO = 2, l_WARN = 3, l_ERROR = 4, l_FATAL = 5\<rparr>,
     le_Stat = (\<lambda>_. True), le_MkdirAll = (\<lambda>_. None), le_FromHumanSize = (\<lambda>_. Inr 50000),
     le_NewFileLogger = (\<lambda>_. None)\<rparr>"

definition log_config :: LogConfigT where
  "log_config =
     (let ap = (\<lambda>f. \<lparr>ap_Enable = True, ap_AppenderType = ''file'', ap_Level = ''INFO'', ap_Filename = f,
        ap_Pattern = [], ap_Rotate = True, ap_Maxlines = ''50K''\<rparr>)
      in \<lparr>lc_Refresh = ''10s'', lc_Loggers =
        [\<lparr>lg_Name = ''root'', lg_Appenders = [ap ''./logs/connector.info.txt'']\<rparr>,
         \<lparr>lg_Name = ''timer'', lg_Appenders = [ap ''./logs/connector.timer.txt'']\<rparr>]\<rparr>)"

lemma log_config_facts:
  "ParseConfig2 (Inr (json_print log_document)) = Inr log_config" "sane_env open_env"
  "d \<in> set (lc_Loggers log_config) \<Longrightarrow> list_all sane_appender (lg_Appenders d)"
  "{''root'', ''timer''} \<subseteq> lg_Name ` set (lc_Loggers log_config)"
proof -
  show "ParseConfig2 (Inr (json_print log_document)) = Inr log_config"
    by (simp add: ParseConfig2_def json_Unmarshal_def log_document_text)
      (simp add: log_document_def log_config_def LogConfigT_schema_def LoggerT_schema_def appender_schema_def find_field_def
        dec_string_def dec_bool_def dec_slice_def dec_struct_def zero_appender_def)
  have "getParentDirectory ''./logs/connector.info.txt'' = Inr ''./logs''"
    "getParentDirectory ''./logs/connector.timer.txt'' = Inr ''./logs''" by code_simp+
  then show "d \<in> set (lc_Loggers log_config) \<Longrightarrow> list_all sane_appender (lg_Appenders d)"
    by (auto simp: sane_appender_def log_config_def)
qed (simp_all add: sane_env_def open_env_def log_config_def)

theorem log_init_ok_witness:
  "\<exists>root timer. log_init open_env (\<lambda>_. None) (Inr (json_print log_document)) = Inr (Some (Some root, Some timer))"
  using log_init_ok [OF log_config_facts(1,2) _ log_config_facts(3,4), of "\<lambda>_. None"] by blast

end
