(* ===== verification/Boot.thy ===== *)
theory Boot
  imports Lifecycle Log_Factory
begin

text \<open>
  What runs before \<^verbatim>\<open>main\<close>: the flags of \<^verbatim>\<open>config.go\<close>, the package initialisers of
  \<^verbatim>\<open>logfactory.go\<close> (\<open>log_init\<close>) and \<^verbatim>\<open>token.go\<close>, which run in the order of the file names, and
  then \<^verbatim>\<open>main\<close> itself. An \<^verbatim>\<open>os.Exit\<close> is the result \<open>None\<close>, also the early return of \<^verbatim>\<open>main\<close>.
\<close>

section \<open>Operations\<close>

text \<open>The two flags share one variable, so the last one given counts; \<open>flags\<close> are the flags of the
  command line, name and value, in order.\<close>

definition conf :: "(string \<times> string) list \<Rightarrow> string" where
  "conf flags = fold (\<lambda>(name, v) c. if name = ''conf'' \<or> name = ''c'' then v else c) flags ''connector.conf''"

definition zero_ConfigT :: ConfigT where
  "zero_ConfigT = \<lparr>cf_PidFile = '''',
     cf_ServiceS = \<lparr>ss_Debug = \<lparr>sc_ListenAddr = zero_TCPAddr, sc_MaxConcurrent = 0, sc_HesitateTime = 0\<rparr>,
       ss_Connect = \<lparr>bs_ListenAddr = zero_TCPAddr, bs_InqueueN = 0, bs_OutqueueN = 0, bs_HandshakeTO = 0\<rparr>\<rparr>,
     cf_Mq = \<lparr>mq_KafkaBrokers = [], mq_Topic = '''', mq_ComputeBrokers = []\<rparr>,
     cf_Redis = \<lparr>re_MasterName = '''', re_Addresses = [], re_Password = '''', re_Db = 0\<rparr>,
     cf_RedisPubSub = \<lparr>rp_Address = '''', rp_Password = ''''\<rparr>, cf_IpResolver = [], cf_PemFile = '''',
     cf_DisableHeartBeat = False\<rparr>"

text \<open>The outside world: files by name, the configuration's parsers, gorsa's \<^verbatim>\<open>SetPublicKey\<close>,
  what the loggers need, and what a call on a logger that is nil does: \<open>Some\<close> of the panic, or \<open>None\<close> if lumber lets it pass.\<close>

record boot_env =
  bo_ReadFile :: "string \<Rightarrow> bytes result"
  bo_conf :: conf_env
  bo_SetPublicKey :: "string \<Rightarrow> err option"
  bo_log :: log_env
  bo_SetOutput :: "string \<Rightarrow> err option"
  bo_nil_log :: "panic option"

definition read1 :: "boot_env \<Rightarrow> string \<Rightarrow> bytes may_panic" where
  "read1 env path = (case bo_ReadFile env path of Inl err \<Rightarrow> Inl (PanicErr err) | Inr dat \<Rightarrow> Inr dat)"

definition token_init :: "boot_env \<Rightarrow> (string \<times> string) list \<Rightarrow> ConfigT option may_panic" where
  "token_init env flags =
     (case ParseConfig (bo_conf env) (bo_ReadFile env (conf flags)) zero_ConfigT of
        (Config, Some err) \<Rightarrow> Inr None
      | (Config, None) \<Rightarrow>
          (if cf_PemFile Config \<noteq> '''' then
             bind_panic (read1 env (cf_PemFile Config)) (\<lambda>pubPEMData.
               case bo_SetPublicKey env (bytes_string pubPEMData) of
                 Some err \<Rightarrow> Inl (PanicErr err)
               | None \<Rightarrow> Inr (Some Config))
           else Inr (Some Config)))"

text \<open>A line to a logger; \<^verbatim>\<open>log.json\<close> need not name the loggers \<^verbatim>\<open>root\<close> and \<^verbatim>\<open>timer\<close>, and one it does not name is nil.\<close>

definition log_line :: "boot_env \<Rightarrow> sink list option \<Rightarrow> unit may_panic" where
  "log_line env logger = (case (logger, bo_nil_log env) of (None, Some panic) \<Rightarrow> Inl panic | _ \<Rightarrow> Inr ())"

text \<open>
  A process that cannot listen logs the error twice, one that finds no address panics before it logs anything, and one that
  comes up has written to \<^verbatim>\<open>root\<close> (the vote on the address, the registration, its start), and to \<^verbatim>\<open>timer\<close> as well when its first
  discovery found a server.
\<close>

definition boot ::
  "boot_env \<Rightarrow> (string \<times> string) list \<Rightarrow> start_env \<Rightarrow> err option \<Rightarrow> err option \<Rightarrow>
   (ConfigT \<times> process \<times> bool) option may_panic" where
  "boot env flags senv listenErr debugListenErr =
     bind_panic (log_init (bo_log env) (bo_SetOutput env) (bo_ReadFile env ''./log.json'')) (\<lambda>loggers.
       case loggers of
         None \<Rightarrow> Inr None
       | Some (log, timerLog) \<Rightarrow>
           bind_panic (token_init env flags) (\<lambda>r.
             case r of
               None \<Rightarrow> Inr None
             | Some Config \<Rightarrow>
                 (case main_start Config senv listenErr debugListenErr init_process of
                    (p, Inl panic) \<Rightarrow> Inl panic
                  | (p, Inr None) \<Rightarrow> bind_panic (log_line env log) (\<lambda>_. Inr None)
                  | (p, Inr (Some debugS)) \<Rightarrow>
                      bind_panic (log_line env log) (\<lambda>_.
                        bind_panic (if rpc_availableAddresses (rs_rpc (sys_rpc (ps_system p))) = [] then Inr ()
                                    else log_line env timerLog) (\<lambda>_. Inr (Some (Config, p, debugS)))))))"

section \<open>When the connector comes up\<close>

lemma conf_cases:
  "conf [] = ''connector.conf''"
  "conf (flags @ [(name, v)]) = (if name = ''conf'' \<or> name = ''c'' then v else conf flags)"
  by (simp_all add: conf_def)

lemma main_start_up_iff:
  "(\<exists>p d. main_start Config env e e' init_process = (p, Inr (Some d))) \<longleftrightarrow>
   e = None \<and> (\<exists>a. resolveInternetAddress (en_gets env) (en_order env) (getPort Config) = Inr a)"
  by (auto simp: main_start_def connectsvc_Start_def newService_result debugsvc_Start_def init_process_def
      process_steps split: sum.split)

lemma token_init_iff:
  "token_init env flags = Inr (Some c) \<longleftrightarrow>
     ParseConfig (bo_conf env) (bo_ReadFile env (conf flags)) zero_ConfigT = (c, None) \<and>
     (cf_PemFile c \<noteq> '''' \<longrightarrow>
       (\<exists>pem. bo_ReadFile env (cf_PemFile c) = Inr pem \<and> bo_SetPublicKey env (bytes_string pem) = None))"
  by (auto simp: token_init_def read1_def split: prod.splits option.splits sum.splits if_splits)

lemma ParseConfig_accepts:
  "ParseConfig env file Config = (c, None) \<longleftrightarrow>
     (\<exists>blob. file = Inr blob \<and> json_Unmarshal (ConfigT_schema env) blob Config = (c, None)) \<and> ConfigT_Check c"
  by (auto simp: ParseConfig_def split: sum.splits prod.splits option.splits if_splits)

text \<open>What the connector needs to come up, in the order in which it is looked at.\<close>

definition boot_ready ::
  "boot_env \<Rightarrow> (string \<times> string) list \<Rightarrow> start_env \<Rightarrow> ConfigT \<Rightarrow> bool" where
  "boot_ready env flags senv c \<longleftrightarrow>
     (\<exists>blob. bo_ReadFile env (conf flags) = Inr blob \<and>
        json_Unmarshal (ConfigT_schema (bo_conf env)) blob zero_ConfigT = (c, None)) \<and>
     ConfigT_Check c \<and>
     (cf_PemFile c \<noteq> '''' \<longrightarrow>
        (\<exists>pem. bo_ReadFile env (cf_PemFile c) = Inr pem \<and> bo_SetPublicKey env (bytes_string pem) = None)) \<and>
     (\<exists>a. resolveInternetAddress (en_gets senv) (en_order senv) (getPort c) = Inr a)"

text \<open>
  With a \<^verbatim>\<open>log.json\<close> that names both loggers, the connector serves exactly when it can listen and everything else it needs is there. With
  one that decodes but does not name \<^verbatim>\<open>root\<close>, and a lumber that panics on a nil logger, it never serves.
\<close>

theorem boot_serves:
  assumes "log_init (bo_log env) (bo_SetOutput env) (bo_ReadFile env ''./log.json'') = Inr (Some (log, timerLog))"
  shows "(log \<noteq> None \<and> timerLog \<noteq> None \<longrightarrow>
      ((\<exists>p d. boot env flags senv listenErr debugListenErr = Inr (Some (c, p, d))) \<longleftrightarrow>
        listenErr = None \<and> boot_ready env flags senv c)) \<and>
    (log = None \<and> bo_nil_log env \<noteq> None \<longrightarrow> (\<forall>r. boot env flags senv listenErr debugListenErr \<noteq> Inr (Some r)))"
proof (intro conjI impI)
  assume loggers: "log \<noteq> None \<and> timerLog \<noteq> None"
  have "(\<exists>p d. boot env flags senv listenErr debugListenErr = Inr (Some (c, p, d))) \<longleftrightarrow>
     token_init env flags = Inr (Some c) \<and> (\<exists>p d. main_start c senv listenErr debugListenErr init_process = (p, Inr (Some d)))"
    using assms loggers
    by (auto simp: boot_def bind_panic_def log_line_def split: sum.splits option.splits prod.splits)
  then show "(\<exists>p d. boot env flags senv listenErr debugListenErr = Inr (Some (c, p, d))) \<longleftrightarrow>
      listenErr = None \<and> boot_ready env flags senv c"
    unfolding boot_ready_def token_init_iff ParseConfig_accepts main_start_up_iff by blast
next
  assume "log = None \<and> bo_nil_log env \<noteq> None"
  then show "\<forall>r. boot env flags senv listenErr debugListenErr \<noteq> Inr (Some r)"
    using assms by (auto simp: boot_def bind_panic_def log_line_def split: sum.splits option.splits prod.splits)
qed

section \<open>Witnesses\<close>

definition conf_document :: json where
  "conf_document = JObj [(''pidFile'', JStr ''pid''), (''service'', JObj [(''connect'', JObj
     [(''listenaddr'', JStr ''10.0.0.7:4100''), (''inqueuesize'', JNum ''10''), (''outqueuesize'', JNum ''10''),
      (''handshaketimeout'', JStr ''10s'')])])]"

definition sample_boot :: boot_env where
  "sample_boot = \<lparr>bo_ReadFile = (\<lambda>p. Inr (json_print (if p = ''./log.json'' then log_document else conf_document))),
     bo_conf = \<lparr>ce_scale = exact_scale,
       ce_ResolveTCPAddr = (\<lambda>_. Inr \<lparr>ta_IP = [10, 0, 0, 7], ta_Port = 4100, ta_Zone = ''''\<rparr>),
       ce_TCPAddrString = (\<lambda>_. ''10.0.0.7:4100''), ce_raw = json_print\<rparr>,
     bo_SetPublicKey = (\<lambda>_. None), bo_log = open_env, bo_SetOutput = (\<lambda>_. None), bo_nil_log = Some NilDereference\<rparr>"

lemma conf_document_text: "json_parse (json_print conf_document) = Some conf_document"
proof -
  have "is_number ''10''" by code_simp
  then show ?thesis
    using json_roundtrip [of conf_document] by (simp add: conf_document_def valid_utf8_ascii ascii_def byte_in_def)
qed

definition booted_ConfigT :: ConfigT where
  "booted_ConfigT = zero_ConfigT\<lparr>cf_PidFile := ''pid'',
     cf_ServiceS := (cf_ServiceS zero_ConfigT)\<lparr>ss_Connect := \<lparr>bs_ListenAddr = \<lparr>ta_IP = [10, 0, 0, 7], ta_Port = 4100, ta_Zone = ''''\<rparr>,
       bs_InqueueN = 10, bs_OutqueueN = 10, bs_HandshakeTO = 10000000000\<rparr>\<rparr>\<rparr>"

lemma conf_document_decodes:
  "json_Unmarshal (ConfigT_schema (bo_conf sample_boot)) (json_print conf_document) zero_ConfigT = (booted_ConfigT, None)"
proof -
  have "parse_int64 ''10'' = Some 10" by code_simp
  moreover have "ParseDuration exact_scale (inside (json_print (JStr ''10s''))) = Inr 10000000000" by code_simp
  moreover have "quoted (json_print (JStr ''10s''))" "quoted (json_print (JStr ''10.0.0.7:4100''))" by code_simp+
  ultimately show ?thesis
    by (simp add: json_Unmarshal_def conf_document_text)
      (simp add: conf_document_def ConfigT_schema_def ServiceSConfT_schema_def BDMsgSvcConfT_schema_def
        find_field_def dec_string_def dec_struct_def dec_int_def dec_raw_def TCPAddr_UnmarshalJSON_def
        Duration_UnmarshalJSON_def sample_boot_def booted_ConfigT_def zero_ConfigT_def)
qed

theorem boot_serves_witness:
  "\<exists>p d. boot sample_boot [(''x'', ''y'')] sample_start None None = Inr (Some (booted_ConfigT, p, d))"
proof -
  have c: "conf [(''x'', ''y'')] \<noteq> ''./log.json''" by (simp add: conf_def)
  obtain root timer where logs: "log_init open_env (\<lambda>_. None) (Inr (json_print log_document)) = Inr (Some (Some root, Some timer))"
    using log_init_sane [OF log_config_facts(1,2) _ log_config_facts(3,4), of "\<lambda>_. None"] by blast
  have "ConfigT_Check booted_ConfigT"
    by (simp add: ConfigT_Check_def ServiceSConfT_Check_def ConnectSvcConfT_Check_def BDMsgSvcConfT_Check_def
        TCPAddr_Check_def ManagerConfT_Check_def booted_ConfigT_def zero_ConfigT_def)
  moreover have "cf_PemFile booted_ConfigT = ''''" by (simp add: booted_ConfigT_def zero_ConfigT_def)
  moreover have "resolveInternetAddress (en_gets sample_start) (en_order sample_start) (getPort booted_ConfigT) = Inr ''10.0.0.7:4100''"
    using sample_address by (simp add: getPort_def booted_ConfigT_def sample_ConfigT_def)
  ultimately have "boot_ready sample_boot [(''x'', ''y'')] sample_start booted_ConfigT"
    using conf_document_decodes c by (simp add: boot_ready_def) (simp add: sample_boot_def)
  with boot_serves [of sample_boot "Some root" "Some timer"] logs show ?thesis by (simp add: sample_boot_def)
qed

end
