(* ===== verification/Chat_Stream.thy ===== *)
theory Chat_Stream
  imports Service
begin

text \<open>
  Chat messages across the whole system: which steps of the service touch them, in which order
  they leave for the compute servers, and that what leaves is well-formed text.
\<close>

section \<open>Steps that leave chat messages alone\<close>

text \<open>Neither the queues nor the counter change, and every client keeps its names.\<close>

definition same_chat :: "world \<Rightarrow> world \<Rightarrow> bool" where
  "same_chat w w' \<longleftrightarrow>
     w_group w' = w_group w \<and> w_chatMessageCounter w' = w_chatMessageCounter w \<and>
     length (w_heap w') = length (w_heap w) \<and>
     (\<forall>a. c_ID (deref w' a) = c_ID (deref w a) \<and> c_roomId (deref w' a) = c_roomId (deref w a))"

lemma same_chat_refl [simp]: "same_chat w w"
  by (simp add: same_chat_def)

lemma same_chat_trans: "same_chat u v \<Longrightarrow> same_chat v w \<Longrightarrow> same_chat u w"
  by (simp add: same_chat_def)

lemma same_chat_emit [simp]: "same_chat v (emit k w) = same_chat v w"
  by (simp add: same_chat_def)

lemma same_chat_spawn [simp]: "same_chat v (spawn t w) = same_chat v w"
  by (simp add: same_chat_def)

lemma same_chat_upd:
  "(\<And>x. c_ID (f x) = c_ID x) \<Longrightarrow> (\<And>x. c_roomId (f x) = c_roomId x) \<Longrightarrow> same_chat w (upd_client c f w)"
  by (simp add: same_chat_def)

lemma same_chat_heartBeat: "same_chat w (Client_heartBeat nanos c w)"
  by (simp add: Client_heartBeat_def same_chat_upd)

lemma same_chat_Close: "same_chat w (Client_Close c w)"
  by (simp add: Client_Close_def)

lemma same_chat_loop:
  "(\<And>k v x. same_chat x (body k v x)) \<Longrightarrow> same_chat w (range_loop body m ks w)"
proof (induction ks arbitrary: w)
  case (Cons k ks)
  then show ?case by (auto split: option.split intro: same_chat_trans [OF Cons.prems Cons.IH])
qed simp

lemma same_chat_tick: "same_chat w (heartBeat_tick d nanos order w)"
  by (auto simp: heartBeat_tick_def heartBeat_body_def Let_def intro!: same_chat_loop same_chat_Close)

lemma same_chat_CloseAll: "same_chat w (ClientManager_CloseAll order w)"
  by (auto simp: ClientManager_CloseAll_def intro!: same_chat_loop same_chat_Close)

lemma same_chat_monitor_done: "same_chat w (Client_monitor_done c w)"
  by (auto simp: same_chat_def Client_monitor_done_def Let_def)

lemma same_chat_expire:
  "same_chat w (let w = Client_expire secs c e w in w\<lparr>w_tasks := remove1 (Expire c e) (w_tasks w)\<rparr>)"
  by (auto simp: same_chat_def Client_expire_def Let_def)

lemma same_chat_timer: "same_chat w (Client_session_expired c w)"
  by (auto simp: Client_session_expired_def split: option.split
      intro: same_chat_trans [OF same_chat_upd same_chat_Close])

lemma same_chat_router: "same_chat w (subscribe_turn ro wo received w)"
proof -
  note q = subscribe_same [of w ro wo received]
  have "c_ID (deref (subscribe_turn ro wo received w) a) = c_ID (deref w a) \<and>
      c_roomId (deref (subscribe_turn ro wo received w) a) = c_roomId (deref w a)" for a
  proof -
    from q obtain x where "deref (subscribe_turn ro wo received w) a = (deref w a)\<lparr>c_queue := x\<rparr>"
      unfolding same_but_queues_def by blast
    then show ?thesis by simp
  qed
  with q show ?thesis by (simp add: same_but_queues_def same_chat_def)
qed

lemma same_chat_msgs [simp]: "same_chat v (w\<lparr>w_msgs := ms\<rparr>) = same_chat v w"
  by (simp add: same_chat_def)

lemma same_chat_pump: "same_chat w (pump_turn zl c w)"
proof -
  have send: "same_chat v (a_send zl c m v)" for v m
    by (auto simp: a_send_def marshal_msg_def split: prod.split sum.split)
  show ?thesis
    by (auto simp: pump_turn_def a_take_def split: list.split intro: same_chat_trans [OF same_chat_upd send])
qed

lemma same_chat_refreshToken: "Client_refreshToken env tok c w = (w', q) \<Longrightarrow> same_chat w w'"
  by (auto simp: Client_refreshToken_def split: sum.splits prod.splits option.splits)

lemma same_chat_handleRefreshToken: "handleRefreshToken env nanos s m w = (w', r) \<Longrightarrow> same_chat w w'"
  by (auto simp: handleRefreshToken_def Let_def split: userdata.splits prod.splits option.splits sum.splits
      dest!: same_chat_refreshToken intro: same_chat_heartBeat same_chat_trans)

section \<open>Steps that touch chat messages\<close>

definition chat_message :: "int \<Rightarrow> string \<Rightarrow> string \<Rightarrow> Chat \<Rightarrow> 64 word \<Rightarrow> FromConnectorMessage" where
  "chat_message nanos roomId userId chat counter =
     \<lparr>fm_MessageId = decimal (unat counter), fm_RoomId = roomId, fm_UserId = userId, fm_Nickname = ch_Nickname chat,
      fm_Time = nanos sdiv 1000000, fm_Level = wrap32 (ch_Level chat), fm_Type = wrap32 1,
      fm_Params = [(''content'', ch_Content chat)]\<rparr>"

text \<open>An accepted chat message: it gets the next number and goes into the queue of its room; its
  sender may have changed rooms.\<close>

definition accepted :: "int \<Rightarrow> addr \<Rightarrow> Chat \<Rightarrow> world \<Rightarrow> world \<Rightarrow> bool" where
  "accepted nanos c chat w w' \<longleftrightarrow>
     (let room = (if ch_RoomId chat = '''' then c_roomId (deref w c) else ch_RoomId chat)
      in w_chatMessageCounter w' = w_chatMessageCounter w + 1 \<and>
         MessageQueueGroup_Add (chat_message nanos room (c_ID (deref w c)) chat (w_chatMessageCounter w + 1)) (w_group w) =
           Some (w_group w') \<and>
         length (w_heap w') = length (w_heap w) \<and>
         (\<forall>a. c_ID (deref w' a) = c_ID (deref w a) \<and>
           c_roomId (deref w' a) \<in> {c_roomId (deref w a), ch_RoomId chat}))"

lemma handleMsg_accepted:
  assumes "userData w s = UD_Client c" and "Chat_Unmarshal m zero_Chat = (chat, None)"
    and "handleMsg env nanos MsgTypeChat s m w = Some (w', r)"
  shows "accepted nanos c chat w w'"
proof -
  let ?r = "if ch_RoomId chat = '''' then c_roomId (deref w c) else ch_RoomId chat"
  let ?v = "Client_heartBeat nanos c w"
  let ?u = "if ch_RoomId chat \<noteq> '''' \<and> ch_RoomId chat \<noteq> c_roomId (deref w c)
    then RoomManager_clientIn c (ch_RoomId chat) ?v else ?v"
  have u: "w_group ?u = w_group w" "w_chatMessageCounter ?u = w_chatMessageCounter w"
    "length (w_heap ?u) = length (w_heap w)" "c_ID (deref ?u a) = c_ID (deref w a)"
    "c_roomId (deref ?u a) \<in> {c_roomId (deref w a), ch_RoomId chat}" for a
    by (auto simp: Client_heartBeat_def)
  have "enqueue_msg nanos 1 ?r (c_ID (deref w c)) (ch_Nickname chat) (ch_Level chat)
      [(''content'', ch_Content chat)] ?u = Some w'"
    using assms by (auto simp: handleMsg_def Let_def Client_heartBeat_def split: if_splits)
  then obtain g where g: "MessageQueueGroup_Add (chat_message nanos ?r (c_ID (deref w c)) chat (w_chatMessageCounter w + 1))
      (w_group w) = Some g" and w': "w' = ?u\<lparr>w_chatMessageCounter := w_chatMessageCounter w + 1, w_group := g\<rparr>"
    unfolding enqueue_msg_def chat_message_def Let_def by (auto simp: u(1,2))
  show ?thesis
    unfolding accepted_def Let_def w' using g u by simp
qed

text \<open>Every other message leaves the queues and the counter as they are.\<close>

lemma clientIn_chat: "ClientManager_clientIn env nanos r s w = (w', res) \<Longrightarrow>
    w_group w' = w_group w \<and> w_chatMessageCounter w' = w_chatMessageCounter w"
  by (auto simp: ClientManager_clientIn_def createClient_def Let_def upd_client_def add_LoginUsers_def
      split: option.splits sum.splits prod.splits)

lemma handleRegister_chat: "handleRegister env nanos h s m w = (w', r) \<Longrightarrow>
    w_group w' = w_group w \<and> w_chatMessageCounter w' = w_chatMessageCounter w"
  by (auto simp: handleRegister_def split: userdata.splits if_splits prod.splits option.splits sum.splits
      dest!: clientIn_chat)

lemma handleEnterRoom_chat: "handleEnterRoom env s m w = (w', r) \<Longrightarrow>
    w_group w' = w_group w \<and> w_chatMessageCounter w' = w_chatMessageCounter w"
  by (auto simp: handleEnterRoom_def Let_def split: userdata.splits prod.splits option.splits)

lemma handleHeartBeat_chat: "handleHeartBeat env nanos s m w = (w', r) \<Longrightarrow> same_chat w w'"
  by (auto simp: handleHeartBeat_def same_chat_heartBeat split: userdata.splits prod.splits)

lemma handleMsg_rejected:
  assumes "handleMsg env nanos MsgTypeChat s m w = Some (w', r)"
    and "\<nexists>c chat. userData w s = UD_Client c \<and> Chat_Unmarshal m zero_Chat = (chat, None)"
  shows "same_chat w w'"
  using assms
  by (auto simp: handleMsg_def Let_def same_chat_heartBeat split: userdata.splits prod.splits option.splits)

lemma world_step_chat:
  assumes "world_step l w w'"
  shows "w_group w' = w_group w \<and> w_chatMessageCounter w' = w_chatMessageCounter w \<or>
    (\<exists>nanos s c m chat r. userData w s = UD_Client c \<and> Chat_Unmarshal m zero_Chat = (chat, None) \<and>
      handleMsg (l_env l) nanos MsgTypeChat s m w = Some (w', r))"
  using assms
proof (induction rule: world_step.induct)
  case (message nanos handshaked t s m w w' r)
  then show ?case
    unfolding dispatch_def
    by (auto split: if_splits dest: handleRegister_chat handleEnterRoom_chat)
      (metis handleMsg_rejected same_chat_def same_chat_handleRefreshToken handleHeartBeat_chat)+
qed (use same_chat_monitor_done same_chat_expire same_chat_timer same_chat_tick same_chat_router
    same_chat_pump same_chat_CloseAll in \<open>simp_all only: same_chat_def simp_thms\<close>)

section \<open>Frames on the wire\<close>

text \<open>
  The frames in the history of the network that were written in full: a length and, next, a body of
  that length on the same connection, both without an error.
\<close>

fun scan_event :: "net_event \<Rightarrow> (sock \<times> bytes) option \<times> bytes list \<Rightarrow> (sock \<times> bytes) option \<times> bytes list" where
  "scan_event (Wrote k b None) (Some (k', h), bs) =
     (if k' = k \<and> h = lengthBytes (int (length b)) then (None, bs @ [b]) else (Some (k, b), bs))"
| "scan_event (Wrote k b None) (None, bs) = (Some (k, b), bs)"
| "scan_event e (p, bs) = (None, bs)"

abbreviation scan_net :: "net_event list \<Rightarrow> (sock \<times> bytes) option \<times> bytes list" where
  "scan_net es \<equiv> fold scan_event es (None, [])"

definition wire_frames :: "net_event list \<Rightarrow> bytes list" where
  "wire_frames es = snd (scan_net es)"

lemma scan_simps [simp]:
  "scan_event (Dialed a q) x = (None, snd x)" "scan_event (Closed k) x = (None, snd x)"
  "scan_event (Wrote k b (Some e)) x = (None, snd x)"
  by (cases x; simp)+

lemma scan_log [simp]: "scan_net (up_net (log_net e u)) = scan_event e (scan_net (up_net u))"
  by (simp add: log_net_def)

lemma scan_drop [simp]: "up_net (drop_address a u) = up_net u"
  by (simp add: drop_address_def)

lemma write_conn_scan:
  "write_conn net a k b u = (u', e) \<Longrightarrow>
   scan_net (up_net u') = (case e of None \<Rightarrow> scan_event (Wrote k b None) (scan_net (up_net u)) | Some _ \<Rightarrow> (None, snd (scan_net (up_net u))))"
  by (auto simp: write_conn_def Let_def split: option.splits)

lemma send_to_scan:
  assumes "scan_net (up_net u) = (None, bs)" and "send_to net a b u = (u', e)"
  shows "scan_net (up_net u') = (None, bs @ (if e = None then [b] else []))"
proof -
  obtain v q where g: "get_conn net a u = (v, q)" by fastforce
  with assms(1) have v: "scan_net (up_net v) = (None, bs)"
    by (auto simp: get_conn_def Let_def split: option.splits sum.splits)
  show ?thesis
  proof (cases q)
    case (Inl err)
    with assms(2) g v show ?thesis by (auto simp: send_to_def)
  next
    case (Inr k)
    obtain x d where h: "write_conn net a k (lengthBytes (int (length b))) v = (x, d)" by fastforce
    show ?thesis
      using assms(2) g Inr h v write_conn_scan [OF h] write_conn_scan [of net a k b x u' e]
      by (cases d; cases e) (simp_all add: send_to_def)
  qed
qed

lemma rpc_send_scan:
  "scan_net (up_net u) = (None, bs) \<Longrightarrow> rpc_send net rpc b u = (u', r) \<Longrightarrow>
   scan_net (up_net u') = (None, bs @ (if r = Inr None then [b] else []))"
  by (auto simp: rpc_send_def Let_def split: if_splits prod.splits dest: send_to_scan)

lemma rpc_trySend_scan:
  "scan_net (up_net u) = (None, bs) \<Longrightarrow> rpc_trySend net rpc b n u = (u', r) \<Longrightarrow>
   scan_net (up_net u') = (None, bs @ (if r = Inr True then [b] else []))"
proof (induction n arbitrary: u)
  case (Suc n)
  obtain v q where v: "rpc_send net rpc b u = (v, q)" by fastforce
  with Suc rpc_send_scan [OF Suc.prems(1) v] show ?case
    by (cases q) (auto split: option.splits)
qed auto

lemma rpc_deliver_scan:
  assumes "scan_net (up_net u) = (None, bs)" and "rpc_deliver net pm zl rpc batch u = (u', r)"
  shows "scan_net (up_net u') = (None, bs @ (if batch \<noteq> [] \<and> r = Inr True then [zl (fst (pm batch))] else []))"
  using assms rpc_trySend_scan [OF assms(1)]
  by (cases "batch = []") (auto simp: rpc_deliver_def Let_def split: prod.splits)

lemma close_vanished_scan:
  "scan_net (up_net u) = (None, bs) \<Longrightarrow> scan_net (up_net (close_vanished result order u)) = (None, bs)"
proof -
  have "scan_net (up_net u) = (None, bs) \<Longrightarrow>
      scan_net (up_net (range_loop (\<lambda>a c v. if map_of result a = None then log_net (Closed c) v else v) m order u)) = (None, bs)" for m u
    by (induction order arbitrary: u) (auto split: option.split)
  then show "scan_net (up_net u) = (None, bs) \<Longrightarrow> scan_net (up_net (close_vanished result order u)) = (None, bs)"
    by (simp add: close_vanished_def)
qed

section \<open>Runs with what was said and what was collected\<close>

text \<open>
  \<open>chat_run l said outs y\<close>: the system is in state \<open>y\<close>; \<open>said\<close> lists the chat messages that
  were accepted so far, the sender, the room the message names or, when it names none, the room the sender
  was in, and the content; \<open>outs\<close> lists what the consumer has collected from the queues to be
  delivered to the compute servers, both in the order in which it happened.
\<close>

inductive chat_run :: "libs \<Rightarrow> (string \<times> string \<times> string) list \<Rightarrow> FromConnectorMessage list \<Rightarrow> system \<Rightarrow> bool" for l where
  cr_start: "chat_run l [] [] init_system"
| cr_chat: "chat_run l said outs y \<Longrightarrow> userData (sys_world y) s = UD_Client c \<Longrightarrow>
    Chat_Unmarshal m zero_Chat = (chat, None) \<Longrightarrow>
    dispatch (l_env l) nanos handshaked MsgTypeChat s m (sys_world y) = Some (w', r) \<Longrightarrow>
    chat_run l (said @ [(c_ID (deref (sys_world y) c),
      if ch_RoomId chat = '''' then c_roomId (deref (sys_world y) c) else ch_RoomId chat, ch_Content chat)]) outs (y\<lparr>sys_world := w'\<rparr>)"
| cr_other: "chat_run l said outs y \<Longrightarrow> world_step l (sys_world y) w' \<Longrightarrow>
    w_chatMessageCounter w' = w_chatMessageCounter (sys_world y) \<Longrightarrow> chat_run l said outs (y\<lparr>sys_world := w'\<rparr>)"
| cr_consume: "chat_run l said outs y \<Longrightarrow>
    \<forall>grp. w_group (sys_world y) = Some grp \<longrightarrow> range_order grp order \<Longrightarrow>
    MessageQueueGroup_DrainTo order [] 10000 (w_group (sys_world y)) = (out, rest, g) \<Longrightarrow>
    chat_run l said (outs @ out) (consume (l_net l) (l_pmarshal l) (l_zlib l) order y)"
| cr_discovery: "chat_run l said outs y \<Longrightarrow>
    chat_run l said outs (y\<lparr>sys_rpc := rpc_discovery nanos reply order connOrder (sys_rpc y)\<rparr>)"

text \<open>The runs are those of the system: they stay within its reachable states, and every step of
  the service goes on with a run.\<close>

lemma chat_run_reachable: "chat_run l said outs y \<Longrightarrow> reachable_system l y"
proof (induction rule: chat_run.induct)
  case cr_start
  show ?case by (rule reach_init) simp
next
  case (cr_chat said outs y s c m chat nanos handshaked w' r)
  show ?case by (rule reach_step [OF cr_chat.IH service_step.in_world [OF world_step.message [OF cr_chat.hyps(4)]]])
next
  case (cr_other said outs y w')
  show ?case by (rule reach_step [OF cr_other.IH service_step.in_world [OF cr_other.hyps(2)]])
next
  case (cr_consume said outs y order out rest g)
  show ?case by (rule reach_step [OF cr_consume.IH service_step.consumed])
next
  case (cr_discovery said outs y nanos reply order connOrder)
  show ?case by (rule reach_step [OF cr_discovery.IH service_step.discovery])
qed

lemma chat_run_world_step:
  assumes "chat_run l said outs y" and "world_step l (sys_world y) w'"
  shows "\<exists>said'. chat_run l (said @ said') outs (y\<lparr>sys_world := w'\<rparr>)"
proof -
  consider "w_chatMessageCounter w' = w_chatMessageCounter (sys_world y)"
    | nanos s c m chat r where "userData (sys_world y) s = UD_Client c" "Chat_Unmarshal m zero_Chat = (chat, None)"
      "handleMsg (l_env l) nanos MsgTypeChat s m (sys_world y) = Some (w', r)"
    using world_step_chat [OF assms(2)] by blast
  then show ?thesis
  proof cases
    case 1
    from cr_other [OF assms this] show ?thesis by (intro exI [of _ "[]"]) simp
  next
    case 2
    have "dispatch (l_env l) nanos False MsgTypeChat s m (sys_world y) = Some (w', r)"
      using 2(3) by (simp add: dispatch_def)
    from cr_chat [OF assms(1) 2(1,2) this] show ?thesis by blast
  qed
qed

definition origin :: "FromConnectorMessage \<Rightarrow> string \<times> string \<times> (string, string) gomap" where
  "origin x = (fm_UserId x, fm_RoomId x, fm_Params x)"

text \<open>The numbered log of all accepted messages.\<close>

definition log_of :: "(string \<times> string \<times> string) list \<Rightarrow> FromConnectorMessage list \<Rightarrow> bool" where
  "log_of said lg \<longleftrightarrow>
     map origin lg = map (\<lambda>(u, room, t). (u, room, [(''content'', t)])) said \<and>
     map fm_MessageId lg = map (\<lambda>i. decimal (Suc i mod 2 ^ 64)) [0..<length said]"

lemma log_of_snoc:
  assumes "log_of said lg"
  shows "log_of (said @ [(u, room, ch_Content chat)]) (lg @ [chat_message nanos room u chat (of_nat (length said) + 1)])"
  using assms unat_next [of "length said"]
  by (simp add: log_of_def origin_def chat_message_def)

lemma chat_run_log:
  assumes "chat_run l said outs y"
  shows "\<exists>lg. group_run lg outs (w_group (sys_world y)) \<and> log_of said lg \<and>
    w_chatMessageCounter (sys_world y) = of_nat (length said)"
  using assms
proof (induction rule: chat_run.induct)
  case cr_start
  show ?case by (intro exI [of _ "[]"]) (simp add: init_system_def init_world_def gr_start log_of_def)
next
  case (cr_chat said outs y s c m chat nanos handshaked w' r)
  let ?w = "sys_world y"
  from cr_chat.IH obtain lg where lg: "group_run lg outs (w_group ?w)" "log_of said lg"
    "w_chatMessageCounter ?w = of_nat (length said)" by blast
  have "accepted nanos c chat ?w w'"
    using handleMsg_accepted [OF cr_chat.hyps(2,3)] cr_chat.hyps(4) by (simp add: dispatch_def)
  then have add: "MessageQueueGroup_Add
      (chat_message nanos (if ch_RoomId chat = '''' then c_roomId (deref ?w c) else ch_RoomId chat) (c_ID (deref ?w c)) chat
        (of_nat (length said) + 1)) (w_group ?w) = Some (w_group w')"
    and "w_chatMessageCounter w' = of_nat (length said) + 1"
    unfolding accepted_def Let_def lg(3) by blast+
  with gr_add [OF lg(1) add] log_of_snoc [OF lg(2)] show ?case by (auto simp: add.commute)
next
  case (cr_other said outs y w')
  have "w_group w' = w_group (sys_world y)"
    using world_step_chat [OF cr_other.hyps(2)] cr_other.hyps(3) handleMsg_accepted
    by (auto simp: accepted_def Let_def)
  with cr_other show ?case by simp
next
  case (cr_consume said outs y order out rest g)
  from cr_consume.IH obtain lg where lg: "group_run lg outs (w_group (sys_world y))" "log_of said lg"
    "w_chatMessageCounter (sys_world y) = of_nat (length said)" by blast
  from gr_drain [OF lg(1) cr_consume.hyps(2,3)] lg(2,3) cr_consume.hyps(3) show ?case
    by (auto simp: consume_def consumeEvent_def Let_def split: prod.split)
next
  case (cr_discovery said outs y nanos reply order connOrder)
  then show ?case by simp
qed

lemma chat_run_sent:
  assumes "chat_run l said outs y"
  shows "\<exists>sent. subseq (concat sent) outs \<and>
    scan_net (up_net (rs_upstream (sys_rpc y))) = (None, map (\<lambda>batch. l_zlib l (fst (l_pmarshal l batch))) sent)"
  using assms
proof (induction rule: chat_run.induct)
  case cr_start
  show ?case by (intro exI [of _ "[]"]) (simp add: init_system_def rpcClient_def)
next
  case (cr_consume said outs y order out rest g)
  from cr_consume.IH obtain sent where sent: "subseq (concat sent) outs"
    "scan_net (up_net (rs_upstream (sys_rpc y))) = (None, map (\<lambda>batch. l_zlib l (fst (l_pmarshal l batch))) sent)" by blast
  obtain u r where u: "rpc_deliver (l_net l) (l_pmarshal l) (l_zlib l) (rs_rpc (sys_rpc y)) out (rs_upstream (sys_rpc y)) = (u, r)"
    by fastforce
  then have "rs_upstream (sys_rpc (consume (l_net l) (l_pmarshal l) (l_zlib l) order y)) = u"
    using cr_consume.hyps(3) by (simp add: consume_def consumeEvent_def Let_def)
  with rpc_deliver_scan [OF sent(2) u] sent(1) show ?case
    by (intro exI [of _ "sent @ (if out \<noteq> [] \<and> r = Inr True then [out] else [])"])
      (auto intro: list_emb_append_mono)
next
  case (cr_discovery said outs y nanos reply order connOrder)
  then show ?case
    by (auto simp: rpc_discovery_def Let_def close_vanished_scan split: sum.split)
qed simp_all

text \<open>
  C15: Chat messages keep their order across the whole system. In every run the accepted messages
  have a log, in the order in which the clients' messages were accepted, in which message number
  \<open>i\<close> carries the sender, the room and the content of the \<open>i\<close>-th message said (numbers wrap at
  \<^verbatim>\<open>2^64\<close>). For every room what the consumer has collected so far, followed by what
  waits, is a subsequence of the room's part of the log in which the newest 100 messages are all there. And the frames that were
  written in full to compute servers are, in this order, compressed encodings of batches which one after the other are a
  subsequence of what was collected. So no
  message is sent twice, or out of the order of its room, or to another room, under another sender or with another content. What is
  lost are old messages of rooms in which more than 100 were waiting, and collected batches that could not be sent.
\<close>

theorem chat_in_order:
  assumes "chat_run l said outs y"
  shows "\<exists>lg sent. map origin lg = map (\<lambda>(u, room, t). (u, room, [(''content'', t)])) said \<and>
    map fm_MessageId lg = map (\<lambda>i. decimal (Suc i mod 2 ^ 64)) [0..<length said] \<and>
    (\<forall>room. subseq (of_room room outs @ waiting (w_group (sys_world y)) room) (of_room room lg) \<and>
       last_n 100 (of_room room outs @ waiting (w_group (sys_world y)) room) = last_n 100 (of_room room lg)) \<and>
    subseq (concat sent) outs \<and>
    wire_frames (up_net (rs_upstream (sys_rpc y))) = map (\<lambda>batch. l_zlib l (fst (l_pmarshal l batch))) sent"
proof -
  from chat_run_log [OF assms] obtain lg where lg: "group_run lg outs (w_group (sys_world y))" "log_of said lg" by blast
  from chat_run_sent [OF assms] obtain sent where "subseq (concat sent) outs"
    "wire_frames (up_net (rs_upstream (sys_rpc y))) = map (\<lambda>batch. l_zlib l (fst (l_pmarshal l batch))) sent"
    by (auto simp: wire_frames_def)
  with lg(2) group_run_subseq [OF lg(1)] group_run_newest [OF lg(1)] show ?thesis unfolding log_of_def by blast
qed

section \<open>What is forwarded is well-formed\<close>

text \<open>
  The fields of the protocol-buffer message are typed: a \<^verbatim>\<open>string\<close> field holds UTF-8, an
  \<^verbatim>\<open>int32\<close> field 32 bits. Go checks neither when the struct is filled.
\<close>

definition message_typed :: "FromConnectorMessage \<Rightarrow> bool" where
  "message_typed x \<longleftrightarrow>
     valid_utf8 (fm_MessageId x) \<and> valid_utf8 (fm_RoomId x) \<and> valid_utf8 (fm_UserId x) \<and> valid_utf8 (fm_Nickname x) \<and>
     in_int32 (fm_Level x) \<and> in_int32 (fm_Type x) \<and>
     list_all (\<lambda>(k, v). valid_utf8 k \<and> valid_utf8 v) (fm_Params x)"

definition names_typed :: "world \<Rightarrow> bool" where
  "names_typed w \<longleftrightarrow>
     (\<forall>a < length (w_heap w). valid_utf8 (c_ID (deref w a)) \<and> valid_utf8 (c_roomId (deref w a)))"

definition queues_typed :: "MessageQueueGroup \<Rightarrow> bool" where
  "queues_typed g \<longleftrightarrow> (\<forall>r. \<forall>x \<in> set (waiting g r). message_typed x)"

lemma valid_decimal [simp]: "valid_utf8 (decimal n)"
proof (rule valid_utf8_ascii)
  have "byte_in 0 0x7F c" if "c \<in> set (decimal n)" for c
    using decimal_digits [OF that] by (auto simp: is_digit_def byte_in_def)
  then show "ascii (decimal n)" by (simp add: ascii_def list_all_iff)
qed

text \<open>What a client can make a decoder store.\<close>

lemma Chat_texts:
  assumes "Chat_Unmarshal m zero_Chat = (chat, e)"
  shows "valid_utf8 (ch_RoomId chat) \<and> valid_utf8 (ch_Content chat) \<and> valid_utf8 (ch_Nickname chat)"
proof -
  let ?P = "\<lambda>c. valid_utf8 (ch_RoomId c) \<and> valid_utf8 (ch_Content c) \<and> valid_utf8 (ch_Nickname c)"
  have "?P (fst (json_Unmarshal Chat_schema m zero_Chat))"
    by (rule json_Unmarshal_texts)
      (auto simp: Chat_schema_def zero_Chat_def dec_string_def dec_int_def split: json.split option.split)
  with assms show ?thesis by (simp add: Chat_Unmarshal_def)
qed

lemma Register_texts:
  assumes "Register_Unmarshal m zero_Register = (register, e)"
  shows "valid_utf8 (reg_UserId register)"
proof -
  have "valid_utf8 (reg_UserId (fst (json_Unmarshal Register_schema m zero_Register)))"
    by (rule json_Unmarshal_texts)
      (auto simp: Register_schema_def zero_Register_def dec_string_def dec_int_def split: json.split option.split)
  with assms show ?thesis by (simp add: Register_Unmarshal_def)
qed

lemma EnterRoom_texts:
  assumes "EnterRoom_Unmarshal m zero_EnterRoom = (enterRoom, e)"
  shows "valid_utf8 (er_RoomId enterRoom)"
proof -
  have "valid_utf8 (er_RoomId (fst (json_Unmarshal EnterRoom_schema m zero_EnterRoom)))"
    by (rule json_Unmarshal_texts)
      (auto simp: EnterRoom_schema_def zero_EnterRoom_def dec_string_def dec_int_def split: json.split option.split)
  with assms show ?thesis by (simp add: EnterRoom_Unmarshal_def)
qed

lemma names_typed_same: "same_chat w w' \<Longrightarrow> names_typed w \<Longrightarrow> names_typed w'"
  by (simp add: same_chat_def names_typed_def)

lemma names_typed_clientIn:
  assumes "ClientManager_clientIn env nanos r s w = (w', res)" and "valid_utf8 (reg_UserId r)" and "names_typed w"
  shows "names_typed w'"
proof (cases "\<exists>claims. refreshToken0 env (reg_Token r) = Inr (claims, None)")
  case True
  then obtain claims where tok: "refreshToken0 env (reg_Token r) = Inr (claims, None)" by blast
  note h = clientIn_accepted(2) [OF tok assms(1)]
  show ?thesis
    using assms(2,3) by (auto simp: names_typed_def deref_def h nth_append new_client_def less_Suc_eq)
next
  case False
  with assms show ?thesis
    by (auto simp: ClientManager_clientIn_def split: sum.splits prod.splits option.splits)
qed

lemma names_typed_emit [simp]: "names_typed (emit k w) = names_typed w"
  by (simp add: names_typed_def)

lemma names_typed_handleRegister:
  "handleRegister env nanos h s m w = (w', r) \<Longrightarrow> names_typed w \<Longrightarrow> names_typed w'"
  by (auto simp: handleRegister_def split: userdata.splits if_splits prod.splits option.splits sum.splits
      dest!: names_typed_clientIn [OF _ Register_texts])

lemma names_typed_handleEnterRoom:
  "handleEnterRoom env s m w = (w', r) \<Longrightarrow> names_typed w \<Longrightarrow> names_typed w'"
  by (auto simp: handleEnterRoom_def Let_def names_typed_def dest: EnterRoom_texts
      split: userdata.splits prod.splits option.splits)

lemma names_typed_accepted:
  "accepted nanos c chat w w' \<Longrightarrow> valid_utf8 (ch_RoomId chat) \<Longrightarrow> names_typed w \<Longrightarrow> names_typed w'"
  unfolding accepted_def names_typed_def Let_def by (metis insertE singletonD)

lemma names_typed_dispatch:
  assumes "dispatch env nanos h t s m w = Some (w', r)" and "names_typed w"
  shows "names_typed w'"
proof -
  have "names_typed w'" if "handleMsg env nanos MsgTypeChat s m w = Some (w', r)"
  proof (cases "\<exists>c chat. userData w s = UD_Client c \<and> Chat_Unmarshal m zero_Chat = (chat, None)")
    case True
    then obtain c chat where u: "userData w s = UD_Client c" "Chat_Unmarshal m zero_Chat = (chat, None)" by blast
    show ?thesis
      using names_typed_accepted [OF handleMsg_accepted [OF u that]] Chat_texts [OF u(2)] assms(2) by blast
  next
    case False
    then show ?thesis using handleMsg_rejected [OF that] assms(2) names_typed_same by blast
  qed
  with assms show ?thesis
    by (auto simp: dispatch_def dest: names_typed_handleRegister names_typed_handleEnterRoom
        names_typed_same [OF same_chat_handleRefreshToken] names_typed_same [OF handleHeartBeat_chat] split: if_splits)
qed

lemma names_typed_step: "world_step l w w' \<Longrightarrow> names_typed w \<Longrightarrow> names_typed w'"
  by (induction rule: world_step.induct)
    (blast intro: names_typed_dispatch names_typed_same same_chat_monitor_done same_chat_expire same_chat_timer
      same_chat_tick same_chat_router same_chat_pump same_chat_CloseAll)+

lemma queues_typed_accepted:
  assumes "accepted nanos c chat w w'" and "world_ok w" and "names_typed w" and "c < length (w_heap w)"
    and "Chat_Unmarshal m zero_Chat = (chat, e)" and "queues_typed (w_group w)"
  shows "queues_typed (w_group w')"
proof -
  let ?room = "if ch_RoomId chat = '''' then c_roomId (deref w c) else ch_RoomId chat"
  let ?x = "chat_message nanos ?room (c_ID (deref w c)) chat (w_chatMessageCounter w + 1)"
  have "group_ok (w_group w)" using assms(2) by (simp add: world_ok_def)
  from MessageQueueGroup_Add_ok [OF this, of ?x] assms(1)
  have g: "waiting (w_group w') = (waiting (w_group w))(?room := last_n 100 (waiting (w_group w) ?room @ [?x]))"
    by (auto simp: accepted_def Let_def chat_message_def)
  have "valid_utf8 (c_ID (deref w c))" "valid_utf8 (c_roomId (deref w c))"
    using assms(3,4) by (simp_all add: names_typed_def)
  moreover have "valid_utf8 ''content''" by (rule valid_utf8_ascii) (simp add: ascii_def byte_in_def)
  ultimately have "message_typed ?x"
    using Chat_texts [OF assms(5)] by (simp add: message_typed_def chat_message_def)
  moreover have "set (last_n 100 (waiting (w_group w) ?room @ [?x])) \<subseteq> insert ?x (set (waiting (w_group w) ?room))"
    using set_drop_subset by (fastforce simp: last_n_def)
  ultimately show ?thesis using assms(6) unfolding queues_typed_def g by auto
qed

lemma queues_typed_step:
  assumes "world_step l w w'" and "world_ok w" and "names_typed w" and "queues_typed (w_group w)"
  shows "queues_typed (w_group w')"
  using world_step_chat [OF assms(1)]
proof (elim disjE exE conjE)
  fix nanos s c m chat r
  assume u: "userData w s = UD_Client c" "Chat_Unmarshal m zero_Chat = (chat, None)"
    "handleMsg (l_env l) nanos MsgTypeChat s m w = Some (w', r)"
  then show ?thesis
    using queues_typed_accepted [OF handleMsg_accepted [OF u]] userData_client [OF assms(2) u(1)] assms(2-4) by blast
qed (use assms(4) in simp)

text \<open>A drain, in whatever order, only moves messages.\<close>

lemma drain_rooms_moves:
  assumes "drain_rooms n ks (msgs, t, grp) = (msgs', t', grp')"
    and "\<forall>x \<in> set msgs. P x" and "\<forall>r. \<forall>x \<in> set (queue_of grp r). P x"
  shows "(\<forall>x \<in> set msgs'. P x) \<and> (\<forall>r. \<forall>x \<in> set (queue_of grp' r). P x)"
  using assms
proof (induction ks arbitrary: msgs t grp)
  case (Cons k ks)
  show ?case
  proof (cases "map_of grp k")
    case None
    with Cons.prems(1) have "drain_rooms n ks (msgs, t, grp) = (msgs', t', grp')" by simp
    from Cons.IH [OF this Cons.prems(2,3)] show ?thesis .
  next
    case (Some v)
    obtain msgs1 t1 v1 where d: "MessageQueue_DrainTo msgs n v = (msgs1, t1, v1)" by (metis prod_cases3)
    have q: "\<forall>x \<in> set (mq_queue v). P x" using Cons.prems(3) Some by (auto simp: queue_of_def dest: spec [of _ k])
    have m1: "\<forall>x \<in> set msgs1. P x"
      using d q Cons.prems(2) by (auto simp: MessageQueue_DrainTo_eq Let_def dest!: in_set_takeD)
    have "set (mq_queue v1) \<subseteq> set (mq_queue v)"
      using d by (auto simp: MessageQueue_DrainTo_eq Let_def dest: in_set_dropD)
    then have "\<forall>x \<in> set (mq_queue v1). P x" using q by blast
    moreover have "queue_of (AList.update k v1 grp) r = (if r = k then mq_queue v1 else queue_of grp r)" for r
      by (simp add: queue_of_def update_conv')
    ultimately have q1: "\<forall>r. \<forall>x \<in> set (queue_of (AList.update k v1 grp) r). P x" using Cons.prems(3) by simp
    have "drain_rooms n ks (msgs1, t + t1, AList.update k v1 grp) = (msgs', t', grp')"
      using Cons.prems(1) Some d by simp
    from Cons.IH [OF this m1 q1] show ?thesis .
  qed
qed simp

lemma drain_typed:
  assumes "MessageQueueGroup_DrainTo order [] n g = (batch, rest, g')" and "queues_typed g"
  shows "(\<forall>x \<in> set batch. message_typed x) \<and> queues_typed g'"
proof (cases g)
  case None
  with assms show ?thesis by (simp add: MessageQueueGroup_DrainTo_def)
next
  case (Some grp)
  with assms(1) obtain grp' where d: "drain_rooms n order ([], 0, grp) = (batch, rest, grp')" "g' = Some grp'"
    by (auto simp: MessageQueueGroup_DrainTo_def split: prod.splits)
  have "\<forall>r. \<forall>x \<in> set (queue_of grp r). message_typed x"
    using assms(2) Some by (simp add: queues_typed_def waiting_def)
  from drain_rooms_moves [OF d(1) _ this] d(2) show ?thesis by (simp add: queues_typed_def waiting_def)
qed

definition typed_ok :: "system \<Rightarrow> bool" where
  "typed_ok y \<longleftrightarrow> service_ok y \<and> names_typed (sys_world y) \<and> queues_typed (w_group (sys_world y))"

lemma typed_step:
  assumes "service_step l y y'" and "typed_ok y"
  shows "typed_ok y'"
proof -
  have "names_typed (sys_world y') \<and> queues_typed (w_group (sys_world y'))"
    using assms
  proof (induction rule: service_step.induct)
    case (in_world y w)
    then show ?case
      by (simp add: typed_ok_def service_ok_def) (meson names_typed_step queues_typed_step)
  next
    case (consumed y order)
    obtain batch rest g where d: "MessageQueueGroup_DrainTo order [] 10000 (w_group (sys_world y)) = (batch, rest, g)"
      by (metis prod_cases3)
    with drain_typed [OF d] consumed show ?case
      by (auto simp: typed_ok_def consume_def consumeEvent_def Let_def names_typed_def deref_def split: prod.split)
  next
    case (discovery y nanos reply order connOrder)
    then show ?case by (simp add: typed_ok_def)
  qed
  with service_step_ok [OF assms(1)] assms(2) show ?thesis by (simp add: typed_ok_def)
qed

interpretation typed: inductive_invariant "\<lambda>y. y = init_system" "service_step l" typed_ok for l
proof unfold_locales
  show "y = init_system \<Longrightarrow> typed_ok y" for y
    using svc.inv_init [of y] by (simp add: typed_ok_def init_system_def names_typed_def queues_typed_def init_world_def waiting_def)
qed (rule typed_step)

text \<open>
  C16: What the consumer hands to the protocol-buffer encoder is well-typed, whatever bytes the
  clients sent: in every reachable state, in every message of a batch, the texts are valid UTF-8 and
  the level and the type fit 32 bits.
\<close>

theorem forwarded_messages_typed:
  assumes "reachable_system l y"
    and "MessageQueueGroup_DrainTo order [] 10000 (w_group (sys_world y)) = (batch, rest, g)" and "x \<in> set batch"
  shows "message_typed x"
  using typed.reachable_inv [OF assms(1)] drain_typed [OF assms(2)] assms(3) by (simp add: typed_ok_def)

section \<open>Witnesses\<close>

lemma logins_run: "chat_run sample_libs [] [] (init_system\<lparr>sys_world := second_login\<rparr>)"
proof -
  have env: "l_env sample_libs = sample_svc" by (simp add: sample_libs_def)
  have "dispatch sample_svc 0 False MsgTypeRegister 7 register_text init_world = Some (first_login, Inr ())"
    "dispatch sample_svc 0 False MsgTypeRegister 8 register_text first_login = Some (second_login, Inr ())"
    by (simp_all add: dispatch_def first_login_step second_login_step)
  then have "world_step sample_libs init_world first_login" "world_step sample_libs first_login second_login"
    unfolding env [symmetric] by (blast intro: world_step.message)+
  moreover have "sys_world init_system = init_world" by (simp add: init_system_def)
  moreover have "w_chatMessageCounter first_login = w_chatMessageCounter init_world"
    "w_chatMessageCounter second_login = w_chatMessageCounter first_login"
    by (simp_all add: first_login_def second_login_def init_world_def)
  ultimately show ?thesis
    using cr_other [OF cr_other [OF cr_start, where w' = first_login], where w' = second_login] by simp
qed

theorem chat_in_order_witness:
  "\<exists>w' x. handleMsg sample_svc 5000000 MsgTypeChat 8 chat_text second_login = Some (w', Inr ()) \<and>
     waiting (w_group w') ''r'' = [x] \<and> fm_MessageId x = decimal 1 \<and> origin x = (''u'', ''r'', [(''content'', ''hi'')])"
proof -
  obtain w' where h: "handleMsg sample_svc 5000000 MsgTypeChat 8 chat_text second_login = Some (w', Inr ())"
    and g: "length (waiting (w_group w') ''r'') = 1"
  proof -
    have "world_ok second_login" using reachable_world_ok [OF second_login_reachable] by simp
    moreover have "waiting (w_group second_login) ''r'' = []"
      by (simp add: second_login_def first_login_def waiting_def)
    ultimately show thesis
      using handleMsg_chat [OF _ second_login_facts(8) sample_Chat_msg, of sample_svc 5000000] that
      by (auto simp: Let_def)
  qed
  have "dispatch (l_env sample_libs) 5000000 True MsgTypeChat 8 chat_text
      (sys_world (init_system\<lparr>sys_world := second_login\<rparr>)) = Some (w', Inr ())"
    using h by (simp add: dispatch_def sample_libs_def)
  from chat_in_order [OF cr_chat [OF logins_run _ sample_Chat_msg this, of 1]] second_login_facts(5,8)
  obtain x where x: "origin x = (''u'', ''r'', [(''content'', ''hi'')])" "fm_MessageId x = decimal 1"
    and "\<forall>room. subseq (waiting (w_group w') room) (of_room room [x])"
    by (auto simp del: filter.simps)
  then have "subseq (waiting (w_group w') ''r'') (of_room ''r'' [x])" by blast
  with g have "waiting (w_group w') ''r'' = [x]"
    by (cases "waiting (w_group w') ''r''") (auto split: if_splits)
  with x h show ?thesis by auto
qed

theorem forwarded_messages_typed_witness:
  "\<exists>w' batch rest g. handleMsg sample_svc 5000000 MsgTypeChat 8 chat_text second_login = Some (w', Inr ()) \<and>
     MessageQueueGroup_DrainTo [''r''] [] 10000 (w_group w') = (batch, rest, g) \<and> list_all message_typed batch"
proof -
  obtain w' where h: "handleMsg sample_svc 5000000 MsgTypeChat 8 chat_text second_login = Some (w', Inr ())"
    using handleMsg_chat [OF _ second_login_facts(8) sample_Chat_msg, of sample_svc 5000000]
      reachable_world_ok [OF second_login_reachable] by auto
  have "reachable_system sample_libs ((init_system\<lparr>sys_world := second_login\<rparr>)\<lparr>sys_world := w'\<rparr>)"
  proof (rule reach_step [OF second_login_reachable], rule service_step.in_world, rule world_step.message)
    show "dispatch (l_env sample_libs) 5000000 True MsgTypeChat 8 chat_text
        (sys_world (init_system\<lparr>sys_world := second_login\<rparr>)) = Some (w', Inr ())"
      using h by (simp add: dispatch_def sample_libs_def)
  qed
  moreover obtain batch rest g where "MessageQueueGroup_DrainTo [''r''] [] 10000 (w_group w') = (batch, rest, g)"
    by (metis prod_cases3)
  ultimately show ?thesis using h forwarded_messages_typed [of sample_libs] by (fastforce simp: list_all_iff)
qed

end
