(* ===== verification/Timed_Service.thy ===== *)
theory Timed_Service
  imports Chat_Stream Timers
begin

text \<open>
  The service with a clock. A run lists its steps with the times at which they happen; the turns of the message consumer
  and of the discovery of the compute servers are marked, because \<open>Timers\<close> says when these loops run. It gives how
  long a chat message waits for the consumer and how long a dead compute server stays in use.
\<close>

section \<open>Runs\<close>

text \<open>
  \<open>ConsumerTurn n\<close>: the consumer finds \<open>n\<close> messages waiting; \<open>DiscoveryTurn nanos reply\<close>: redis answers \<open>reply\<close>, and
  after that the clock is read as \<open>nanos\<close>.
\<close>

datatype timed_event =
    OtherStep
  | ConsumerTurn nat
  | DiscoveryTurn int "(string, string) gomap result"

definition backlog :: "world \<Rightarrow> nat" where
  "backlog w = (case w_group w of None \<Rightarrow> 0 | Some grp \<Rightarrow> (\<Sum>r \<in> keys_of grp. length (queue_of grp r)))"

inductive timed_step :: "libs \<Rightarrow> int \<Rightarrow> timed_event \<Rightarrow> system \<Rightarrow> system \<Rightarrow> bool" for l where
  t_message: "dispatch (l_env l) t handshaked ty s m (sys_world y) = Some (w', r) \<Longrightarrow>
    timed_step l t OtherStep y (y\<lparr>sys_world := w'\<rparr>)"
| t_world: "world_step l (sys_world y) w' \<Longrightarrow> w_group w' = w_group (sys_world y) \<Longrightarrow>
    timed_step l t OtherStep y (y\<lparr>sys_world := w'\<rparr>)"
| t_consume: "\<forall>grp. w_group (sys_world y) = Some grp \<longrightarrow> range_order grp order \<Longrightarrow>
    timed_step l t (ConsumerTurn (backlog (sys_world y))) y (consume (l_net l) (l_pmarshal l) (l_zlib l) order y)"
| t_discovery: "t \<le> nanos \<Longrightarrow> \<forall>result. reply = Inr result \<longrightarrow> range_order result order \<Longrightarrow>
    timed_step l t (DiscoveryTurn nanos reply) y (y\<lparr>sys_rpc := rpc_discovery nanos reply order connOrder (sys_rpc y)\<rparr>)"

inductive timed_run :: "libs \<Rightarrow> (int \<times> timed_event) list \<Rightarrow> system \<Rightarrow> bool" for l where
  tr_start: "timed_run l [] init_system"
| tr_step: "timed_run l es y \<Longrightarrow> 0 \<le> t \<Longrightarrow> \<forall>e \<in> set es. fst e \<le> t \<Longrightarrow> timed_step l t k y y' \<Longrightarrow> timed_run l (es @ [(t, k)]) y'"

text \<open>Timed steps are steps of the service, and every step of the service is one, when a discovery is given
  the visiting order of the answer and the consumer that of the group.\<close>

lemma timed_step_service: "timed_step l t k y y' \<Longrightarrow> service_step l y y'"
  by (induction rule: timed_step.induct)
    (auto intro: service_step.in_world service_step.consumed service_step.discovery world_step.message)

lemma timed_run_reachable: "timed_run l es y \<Longrightarrow> reachable_system l y"
  by (induction rule: timed_run.induct) (auto intro: reach_init reach_step dest: timed_step_service)

lemma world_step_timed: "world_step l (sys_world y) w' \<Longrightarrow> \<exists>t. timed_step l t OtherStep y (y\<lparr>sys_world := w'\<rparr>)"
proof -
  assume step: "world_step l (sys_world y) w'"
  from world_step_chat [OF step] consider "w_group w' = w_group (sys_world y)"
    | nanos s m r where "handleMsg (l_env l) nanos MsgTypeChat s m (sys_world y) = Some (w', r)" by blast
  then show ?thesis
  proof cases
    case 1
    from t_world [OF step this] show ?thesis by blast
  next
    case 2
    then have "dispatch (l_env l) nanos False MsgTypeChat s m (sys_world y) = Some (w', r)" by (simp add: dispatch_def)
    from t_message [OF this] show ?thesis by blast
  qed
qed

section \<open>How long a chat message waits\<close>

definition waits_in :: "system \<Rightarrow> FromConnectorMessage \<Rightarrow> bool" where
  "waits_in y x \<longleftrightarrow> (\<exists>r. x \<in> set (waiting (w_group (sys_world y)) r))"

lemma accepted_waits:
  assumes "accepted nanos c chat w w'" and "group_ok (w_group w)" and "x \<in> set (waiting (w_group w') r)"
  shows "x \<in> set (waiting (w_group w) r) \<or> fm_Time x = nanos sdiv 1000000"
proof -
  obtain room where add: "MessageQueueGroup_Add (chat_message nanos room (c_ID (deref w c)) chat (w_chatMessageCounter w + 1))
      (w_group w) = Some (w_group w')"
    using assms(1) by (auto simp: accepted_def Let_def)
  from add_of_room [OF assms(2) add, of r] assms(3) show ?thesis
    by (auto simp: chat_message_def last_n_def split: if_splits dest: in_set_dropD)
qed

lemma message_waits:
  assumes "dispatch (l_env l) t handshaked ty s m (sys_world y) = Some (w', r)" and "group_ok (w_group (sys_world y))"
    and "waits_in (y\<lparr>sys_world := w'\<rparr>) x"
  shows "waits_in y x \<or> fm_Time x = t sdiv 1000000"
proof (cases "ty = MsgTypeChat \<and> (\<exists>c chat. userData (sys_world y) s = UD_Client c \<and> Chat_Unmarshal m zero_Chat = (chat, None))")
  case True
  then obtain c chat where "userData (sys_world y) s = UD_Client c" "Chat_Unmarshal m zero_Chat = (chat, None)"
    "handleMsg (l_env l) t MsgTypeChat s m (sys_world y) = Some (w', r)"
    using assms(1) by (auto simp: dispatch_def)
  from accepted_waits [OF handleMsg_accepted [OF this] assms(2)] assms(3) show ?thesis by (auto simp: waits_in_def)
next
  case False
  then have "w_group w' = w_group (sys_world y)"
    using assms(1) handleRegister_chat handleEnterRoom_chat handleMsg_rejected same_chat_handleRefreshToken handleHeartBeat_chat
    unfolding dispatch_def same_chat_def by (fastforce split: if_splits)
  with assms(3) show ?thesis by (simp add: waits_in_def)
qed

lemma consume_empties:
  assumes "group_ok (w_group (sys_world y))" and "\<forall>grp. w_group (sys_world y) = Some grp \<longrightarrow> range_order grp order"
    and "backlog (sys_world y) \<le> 10000"
  shows "\<not> waits_in (consume net pm zl order y) x"
proof (cases "w_group (sys_world y)")
  case None
  then show ?thesis
    by (auto simp: waits_in_def consume_def consumeEvent_def Let_def MessageQueueGroup_DrainTo_def waiting_def split: prod.split)
next
  case (Some grp)
  obtain ms rest g where d: "MessageQueueGroup_DrainTo order [] (int 10000) (Some grp) = (ms, rest, g)" by (metis prod_cases3)
  have "waiting g r = []" for r
    using drain_all(1) [OF _ _ _ d] assms Some by (simp add: backlog_def)
  then show ?thesis using d Some
    by (auto simp: waits_in_def consume_def consumeEvent_def Let_def split: prod.split)
qed

lemma sdiv_mono: "0 \<le> a \<Longrightarrow> a \<le> b \<Longrightarrow> a sdiv 1000000 \<le> b sdiv (1000000 :: int)"
  by (simp add: sdiv_nonneg zdiv_mono1)

text \<open>Whatever waits was accepted after the last turn that could take everything.\<close>

lemma waiting_is_young:
  assumes "timed_run l es y" and "waits_in y msg"
  shows "\<forall>t n. (t, ConsumerTurn n) \<in> set es \<longrightarrow> n \<le> 10000 \<Longrightarrow> (x, ConsumerTurn n) \<in> set es \<Longrightarrow> x sdiv 1000000 \<le> fm_Time msg"
  using assms
proof (induction arbitrary: x n msg rule: timed_run.induct)
  case (tr_step es y t k y')
  have g: "group_ok (w_group (sys_world y))"
    using reachable_world_ok [OF timed_run_reachable [OF tr_step.hyps(1)]] by (simp add: world_ok_def)
  have nonneg: "\<forall>e \<in> set es. 0 \<le> fst e" using tr_step.hyps(1) by (induction rule: timed_run.induct) auto
  have old: ?case if "waits_in y msg" "(x, ConsumerTurn n) \<in> set es"
    using tr_step.IH [OF _ that(2,1)] tr_step.prems(1) by auto
  from tr_step.hyps(4) show ?case
  proof cases
    case (t_message handshaked ty s m w' r)
    then have "(x, ConsumerTurn n) \<in> set es" using tr_step.prems(2) by auto
    then have "x sdiv 1000000 \<le> t sdiv 1000000" using tr_step.hyps(3) nonneg by (intro sdiv_mono) auto
    moreover have "waits_in y msg \<or> fm_Time msg = t sdiv 1000000"
      using message_waits [OF t_message(3) g] tr_step.prems(3) t_message(2) by blast
    ultimately show ?thesis using old \<open>(x, ConsumerTurn n) \<in> set es\<close> by auto
  next
    case (t_world w')
    with tr_step.prems old show ?thesis by (auto simp: waits_in_def)
  next
    case (t_consume order)
    then show ?thesis using consume_empties [OF g t_consume(3)] tr_step.prems(1,3) by auto
  next
    case (t_discovery nanos reply order connOrder)
    with tr_step.prems old show ?thesis by (auto simp: waits_in_def)
  qed
qed simp

text \<open>
  C13: A chat message does not wait long. In every run in which the consumer never found more than 10000 messages waiting,
  at any moment \<open>now\<close> before the next turn of the consumer each waiting message was accepted at most
  \<^verbatim>\<open>max(50ms, D)\<close> ago, up to the millisecond in which messages are stamped, when the turns take no longer than \<open>D\<close>.
\<close>

theorem chat_waits_bounded:
  assumes "timed_run l es y" and "\<forall>t n. (t, ConsumerTurn n) \<in> set es \<longrightarrow> n \<le> 10000"
    and "(x, ConsumerTurn n) \<in> set es" and "now \<le> initMessageConsumer_next start x d" and "d \<le> D"
    and "waits_in y msg"
  shows "now < (fm_Time msg + 1) * millisecond + max (50 * millisecond) D"
proof -
  have "0 \<le> x" using assms(1,3) by (induction rule: timed_run.induct) auto
  moreover have "x sdiv 1000000 \<le> fm_Time msg" by (rule waiting_is_young [OF assms(1,6,2,3)])
  ultimately have "x < (fm_Time msg + 1) * millisecond" by (simp add: sdiv_nonneg)
  then show ?thesis using consumer.next_gap [OF assms(5), of start x] assms(4) by linarith
qed

section \<open>How long a dead compute server is used\<close>

lemma fresh_server_older: "fresh_server from text \<Longrightarrow> from' \<le> from \<Longrightarrow> fresh_server from' text"
  by (auto simp: fresh_server_def split: prod.splits option.splits)

abbreviation addresses :: "system \<Rightarrow> string list" where
  "addresses y \<equiv> rpc_availableAddresses (rs_rpc (sys_rpc y))"

lemma consume_addresses [simp]: "addresses (consume net pm zl order y) = addresses y"
  by (simp add: consume_def consumeEvent_def Let_def split: prod.split)

lemma discovery_drops:
  assumes "0 \<le> nanos" and "in_int64 nanos" and "(r + 2001) * millisecond \<le> nanos" and "range_order result order"
    and "\<forall>text. map_of result a = Some text \<longrightarrow> \<not> fresh_server (r + 1) text"
  shows "a \<notin> set (rpc_availableAddresses (rs_rpc (rpc_discovery nanos (Inr result) order connOrder s)))"
proof -
  let ?from = "wrap64 (nanos sdiv 1000000 - 1 * 2000)"
  have "in_int64 (nanos div 1000000 - 2000)"
    using assms(1,2) zdiv_mono2 [of nanos 1 1000000] pos_imp_zdiv_nonneg_iff [of 1000000 nanos] by (auto simp: in_int64_def)
  then have "r + 1 \<le> ?from" using assms(1,3) by (simp add: sdiv_nonneg)
  then have "a \<notin> live_servers ?from result" using assms(5) fresh_server_older by (fastforce simp: live_servers_def)
  moreover have "finite (live_servers ?from result)"
    by (rule finite_subset [of _ "keys_of result"]) (auto simp: live_servers_def keys_of_conv)
  ultimately show ?thesis by (simp add: rpc_discovery_def Let_def availableAddresses_eq [OF assms(4)])
qed

text \<open>The compute server \<open>a\<close> last registered in the millisecond \<open>r\<close>: later answers of redis show no newer registration of it.\<close>

definition silent_since :: "string \<Rightarrow> int \<Rightarrow> (int \<times> timed_event) list \<Rightarrow> bool" where
  "silent_since a r es \<longleftrightarrow> (\<forall>t nanos reply. (t, DiscoveryTurn nanos reply) \<in> set es \<and> (r + 2001) * millisecond \<le> t \<longrightarrow>
     in_int64 nanos \<and> (\<exists>result. reply = Inr result \<and> (\<forall>text. map_of result a = Some text \<longrightarrow> \<not> fresh_server (r + 1) text)))"

lemma dead_server_dropped:
  assumes "timed_run l es y"
  shows "silent_since a r es \<Longrightarrow> (x, DiscoveryTurn nanos reply) \<in> set es \<Longrightarrow> (r + 2001) * millisecond \<le> x \<Longrightarrow> a \<notin> set (addresses y)"
  using assms
proof (induction arbitrary: x nanos reply rule: timed_run.induct)
  case (tr_step es y t k y')
  have old: "a \<notin> set (addresses y)" if "(x, DiscoveryTurn nanos reply) \<in> set es"
    using tr_step.IH [OF _ that tr_step.prems(3)] tr_step.prems(1) by (auto simp: silent_since_def)
  from tr_step.hyps(4) show ?case
  proof cases
    case (t_discovery nanos' reply' order connOrder)
    have "x \<le> t" using tr_step.prems(2) tr_step.hyps(3) by auto
    then have late: "(r + 2001) * millisecond \<le> t" using tr_step.prems(3) by simp
    then obtain result where result: "in_int64 nanos'" "reply' = Inr result"
      "\<forall>text. map_of result a = Some text \<longrightarrow> \<not> fresh_server (r + 1) text"
      using tr_step.prems(1) [unfolded silent_since_def, rule_format, of t nanos' reply'] t_discovery(1) by auto
    have "0 \<le> nanos'" "(r + 2001) * millisecond \<le> nanos'" using late tr_step.hyps(2) t_discovery(3) by auto
    from discovery_drops [OF this(1) result(1) this(2) _ result(3)] t_discovery result(2) show ?thesis by simp
  qed (use tr_step.prems(2) old in auto)
qed simp

text \<open>
  C38: A compute server that dies is soon out of use, as long as redis answers. If it last registered in the millisecond \<open>r\<close>,
  every turn of the discovery from \<open>2.001\<close> seconds after \<open>r\<close> on gets an answer from redis (a turn without one keeps the old list),
  and a turn takes at most \<open>D\<close>, then at every moment later than \<open>2.001\<close> seconds and
  \<^verbatim>\<open>max(1s, D)\<close> after \<open>r\<close> its address is not among those that a delivery is sent to.
\<close>

theorem dead_server_dropped_in_time:
  assumes "timed_run l es y" and "silent_since a r es" and "(x, DiscoveryTurn nanos reply) \<in> set es"
    and "now \<le> initRpcServerDiscovery_next start x d" and "d \<le> D"
    and "(r + 2001) * millisecond + max second D \<le> now"
  shows "a \<notin> set (rpc_availableAddresses (rs_rpc (sys_rpc y)))"
proof (rule dead_server_dropped [OF assms(1-3)])
  show "(r + 2001) * millisecond \<le> x" using discovery.next_gap [OF assms(5), of start x] assms(4,6) by linarith
qed

section \<open>Witnesses\<close>

lemma timed_logins: "timed_run sample_libs [(0, OtherStep), (0, OtherStep)] (init_system\<lparr>sys_world := second_login\<rparr>)"
proof -
  have init: "sys_world init_system = init_world" by (simp add: init_system_def)
  have "dispatch (l_env sample_libs) 0 False MsgTypeRegister 7 register_text init_world = Some (first_login, Inr ())"
    "dispatch (l_env sample_libs) 0 False MsgTypeRegister 8 register_text first_login = Some (second_login, Inr ())"
    by (simp_all add: dispatch_def first_login_step second_login_step sample_libs_def)
  from t_message [where y = init_system, unfolded init, OF this(1)]
    t_message [where y = "init_system\<lparr>sys_world := first_login\<rparr>" and w' = second_login, simplified, OF this(2)]
  have "timed_step sample_libs 0 OtherStep init_system (init_system\<lparr>sys_world := first_login\<rparr>)"
    "timed_step sample_libs 0 OtherStep (init_system\<lparr>sys_world := first_login\<rparr>) (init_system\<lparr>sys_world := second_login\<rparr>)" .
  from tr_step [OF tr_step [OF tr_start _ _ this(1)] _ _ this(2)] show ?thesis by simp
qed

text \<open>The consumer has run 4 ms after the logins; a message said at 5 ms waits.\<close>

theorem chat_waits_bounded_witness:
  "\<exists>es y msg. timed_run sample_libs es y \<and> waits_in y msg \<and> (54 * millisecond < (fm_Time msg + 1) * millisecond + 50 * millisecond)"
proof -
  let ?y = "init_system\<lparr>sys_world := second_login\<rparr>"
  let ?z = "consume (l_net sample_libs) (l_pmarshal sample_libs) (l_zlib sample_libs) [] ?y"
  let ?es = "[(0, OtherStep), (0, OtherStep), (4 * millisecond, ConsumerTurn 0)]"
  have empty: "w_group second_login = None" by (simp add: second_login_def first_login_def)
  then have b: "backlog second_login = 0" by (simp add: backlog_def)
  have "timed_step sample_libs (4 * millisecond) (ConsumerTurn (backlog (sys_world ?y))) ?y ?z"
    by (rule t_consume) (simp add: empty)
  from tr_step [OF timed_logins _ _ this] have z: "timed_run sample_libs ?es ?z" by (simp add: b)
  have ud: "userData (sys_world ?z) 8 = UD_Client 1"
    using second_login_facts(8) by (simp add: consume_def consumeEvent_def Let_def userData_def split: prod.split)
  obtain w' where w': "handleMsg (l_env sample_libs) (5 * millisecond) MsgTypeChat 8 chat_text (sys_world ?z) = Some (w', Inr ())"
    "waiting (w_group w') ''r'' \<noteq> []"
    using handleMsg_chat [OF reachable_world_ok [OF timed_run_reachable [OF z]] ud sample_Chat_msg, of "l_env sample_libs" "5 * millisecond"]
    by (auto simp: Let_def last_n_def)
  let ?fs = "?es @ [(5 * millisecond, OtherStep)]"
  have "timed_step sample_libs (5 * millisecond) OtherStep ?z (?z\<lparr>sys_world := w'\<rparr>)"
    by (rule t_message [where ty = MsgTypeChat]) (use w'(1) in \<open>simp add: dispatch_def\<close>)
  from tr_step [OF z _ _ this] have run: "timed_run sample_libs ?fs (?z\<lparr>sys_world := w'\<rparr>)" by simp
  obtain msg where "waits_in (?z\<lparr>sys_world := w'\<rparr>) msg" using w'(2) by (auto simp: waits_in_def neq_Nil_conv) (metis list.set_intros(1))
  moreover from chat_waits_bounded [OF run _ _ _ _ this, of "4 * millisecond" 0 "54 * millisecond" "- 46 * millisecond" 0 0]
  have "54 * millisecond < (fm_Time msg + 1) * millisecond + 50 * millisecond"
    by (simp add: initMessageConsumer_next_def ticker_next_def)
  ultimately show ?thesis using run by blast
qed

lemma stale_server: "\<not> fresh_server 9001 server_text"
  by (simp add: fresh_server_def json_Unmarshal_def server_text_json computeServerInfo_schema_def
      find_field_def dec_int_def parse_int64_def is_digit_def decimal_val_def digit_val_def in_int64_def
      first_err_def)

theorem dead_server_dropped_in_time_witness:
  "\<exists>es y. timed_run sample_libs es y \<and> ''s:1'' \<notin> set (rpc_availableAddresses (rs_rpc (sys_rpc y)))"
proof -
  let ?reply = "Inr [(''s:1'', server_text)]"
  let ?step = "\<lambda>t y. y\<lparr>sys_rpc := rpc_discovery t ?reply [''s:1''] [] (sys_rpc y)\<rparr>"
  have step: "timed_step sample_libs t (DiscoveryTurn t ?reply) y (?step t y)" for t y
    by (rule t_discovery) (simp_all add: range_order_def keys_of_def)
  let ?es = "[(10 * second, DiscoveryTurn (10 * second) ?reply), (12 * second, DiscoveryTurn (12 * second) ?reply)]"
  have run: "timed_run sample_libs ?es (?step (12 * second) (?step (10 * second) init_system))"
    using tr_step [OF tr_step [OF tr_start _ _ step, of "10 * second"] _ _ step, of "12 * second"] by simp
  have "silent_since ''s:1'' 9000 ?es" by (auto simp: silent_since_def stale_server in_int64_def)
  from dead_server_dropped_in_time [OF run this, of "12 * second" "12 * second" ?reply "13 * second" 0 0 0]
  have "''s:1'' \<notin> set (addresses (?step (12 * second) (?step (10 * second) init_system)))"
    by (simp add: initRpcServerDiscovery_next_def ticker_next_def)
  with run show ?thesis by (intro exI conjI)
qed

end
