(* ===== verification/Purge.thy ===== *)
theory Purge
  imports Subscriber
begin

text \<open>
  \<^verbatim>\<open>purge\<close> of \<^verbatim>\<open>subscribe.go\<close>: when more than 10000 messages wait for the clients of the
  connector, messages are discarded until 10000 are left, one at a time from the front of a queue
  that a heap of clients chooses.

  The heap is the package gods' \<^verbatim>\<open>binaryheap\<close>, which is not part of the repository: its
  operations are an argument (\<open>heap_ops\<close>) and what its documentation promises is the
  predicate \<open>heap_laws\<close>. The comparison function is the connector's and may panic.
\<close>

section \<open>Operations\<close>

type_synonym comparator = "addr \<Rightarrow> addr \<Rightarrow> int may_panic"

record 'h heap_ops =
  hp_New :: 'h
  hp_Push :: "comparator \<Rightarrow> addr \<Rightarrow> 'h \<Rightarrow> 'h may_panic"
  hp_Pop :: "comparator \<Rightarrow> 'h \<Rightarrow> (addr option \<times> 'h) may_panic"

definition topComparator :: "world \<Rightarrow> comparator" where
  "topComparator w c1 c2 =
     (case queue_at w c1 of
        [] \<Rightarrow> Inl NilDereference
      | m1 # _ \<Rightarrow>
          (case queue_at w c2 of
             [] \<Rightarrow> Inl NilDereference
           | m2 # _ \<Rightarrow>
               (let importanceDiff = wrap64 (- wrap64 (tc_Importance (w_msgs w ! m1) - tc_Importance (w_msgs w ! m2)))
                in if importanceDiff \<noteq> 0 then Inr importanceDiff
                   else Inr (wrap64 (c_level (deref w c1) - c_level (deref w c2))))))"

definition purge_push :: "'h heap_ops \<Rightarrow> world \<Rightarrow> string \<Rightarrow> addr \<Rightarrow> 'h may_panic \<Rightarrow> 'h may_panic" where
  "purge_push ops w i client h =
     bind_panic h (\<lambda>h. if length (queue_at w client) > 0 then hp_Push ops (topComparator w) client h else Inr h)"

text \<open>The loop \<^verbatim>\<open>for ; outQueue > 10000; outQueue--\<close>, by the number of turns left. A panic ends
  it where it is.\<close>

fun purge_loop :: "'h heap_ops \<Rightarrow> nat \<Rightarrow> 'h \<Rightarrow> world \<Rightarrow> world \<times> unit may_panic" where
  "purge_loop ops 0 purgeHeap w = (w, Inr ())"
| "purge_loop ops (Suc n) purgeHeap w =
     (case hp_Pop ops (topComparator w) purgeHeap of
        Inl p \<Rightarrow> (w, Inl p)
      | Inr (None, _) \<Rightarrow> (w, Inr ())
      | Inr (Some client, purgeHeap) \<Rightarrow>
          (let w = (case queue_at w client of
                      [] \<Rightarrow> w
                    | _ # q \<Rightarrow> upd_client client (\<lambda>x. x\<lparr>c_queue := q\<rparr>) w)
           in if length (queue_at w client) > 0
              then (case hp_Push ops (topComparator w) client purgeHeap of
                      Inl p \<Rightarrow> (w, Inl p)
                    | Inr purgeHeap \<Rightarrow> purge_loop ops n purgeHeap w)
              else purge_loop ops n purgeHeap w))"

declare purge_loop.simps(2) [simp del]

text \<open>The part under the locks; \<open>outQueue\<close> was counted before they were taken.\<close>

definition purge_locked :: "'h heap_ops \<Rightarrow> string list \<Rightarrow> int \<Rightarrow> world \<Rightarrow> world \<times> unit may_panic" where
  "purge_locked ops order outQueue w =
     (if outQueue > 10000
      then case range_loop (purge_push ops w) (w_clients w) order (Inr (hp_New ops)) of
          Inl p \<Rightarrow> (w, Inl p)
        | Inr purgeHeap \<Rightarrow> purge_loop ops (nat (outQueue - 10000)) purgeHeap w
      else (w, Inr ()))"

text \<open>
  \<^verbatim>\<open>purge\<close> itself. A panic under the locks is caught by the deferred function, so the caller always
  goes on; the second component says whether there was one, in which case the locks of the
  clients, which are released at the end of the body, have stayed taken.
\<close>

definition purge :: "'h heap_ops \<Rightarrow> string list \<Rightarrow> string list \<Rightarrow> world \<Rightarrow> world \<times> unit may_panic" where
  "purge ops statOrder order w = purge_locked ops order (subscriber_stat statOrder w) w"

section \<open>What the heap promises\<close>

definition compares :: "comparator \<Rightarrow> addr multiset \<Rightarrow> bool" where
  "compares cmp M \<longleftrightarrow> (\<forall>a \<in># M. \<forall>b \<in># M. \<exists>n. cmp a b = Inr n)"

definition le_by :: "comparator \<Rightarrow> addr \<Rightarrow> addr \<Rightarrow> bool" where
  "le_by cmp a b \<longleftrightarrow> (\<exists>n. cmp a b = Inr n \<and> n \<le> 0)"

definition orders :: "comparator \<Rightarrow> addr multiset \<Rightarrow> bool" where
  "orders cmp M \<longleftrightarrow> compares cmp M \<and>
     (\<forall>a \<in># M. \<forall>b \<in># M. le_by cmp a b \<or> le_by cmp b a) \<and>
     (\<forall>a \<in># M. \<forall>b \<in># M. \<forall>c \<in># M. le_by cmp a b \<longrightarrow> le_by cmp b c \<longrightarrow> le_by cmp a c)"

text \<open>
  \<open>elems h\<close> are the elements of a heap. As long as the comparison of elements does not panic,
  \<^verbatim>\<open>Push\<close> adds its argument, \<^verbatim>\<open>Pop\<close> on an empty heap says so, and on another one it takes an
  element out. When moreover the comparison orders the elements and has not changed on them
  since they were pushed (\<open>heaped\<close>), no element is smaller than the one \<^verbatim>\<open>Pop\<close> returns.
\<close>

definition heap_laws :: "'h heap_ops \<Rightarrow> ('h \<Rightarrow> addr multiset) \<Rightarrow> (comparator \<Rightarrow> 'h \<Rightarrow> bool) \<Rightarrow> bool" where
  "heap_laws ops elems heaped \<longleftrightarrow>
     elems (hp_New ops) = {#} \<and> (\<forall>cmp. heaped cmp (hp_New ops)) \<and>
     (\<forall>cmp x h. compares cmp (add_mset x (elems h)) \<longrightarrow>
        (\<exists>h'. hp_Push ops cmp x h = Inr h' \<and> elems h' = add_mset x (elems h) \<and>
           (orders cmp (add_mset x (elems h)) \<longrightarrow> heaped cmp h \<longrightarrow> heaped cmp h'))) \<and>
     (\<forall>cmp h. elems h = {#} \<longrightarrow> (\<exists>h'. hp_Pop ops cmp h = Inr (None, h'))) \<and>
     (\<forall>cmp h. elems h \<noteq> {#} \<longrightarrow> compares cmp (elems h) \<longrightarrow>
        (\<exists>x h'. hp_Pop ops cmp h = Inr (Some x, h') \<and> elems h = add_mset x (elems h') \<and>
           (orders cmp (elems h) \<longrightarrow> heaped cmp h \<longrightarrow>
              heaped cmp h' \<and> (\<forall>y \<in># elems h. le_by cmp x y)))) \<and>
     (\<forall>cmp cmp' h. heaped cmp h \<longrightarrow> (\<forall>a \<in># elems h. \<forall>b \<in># elems h. cmp a b = cmp' a b) \<longrightarrow> heaped cmp' h)"

section \<open>The heap as the code uses it\<close>

lemma heap_New: "heap_laws ops elems heaped \<Longrightarrow> elems (hp_New ops) = {#} \<and> heaped cmp (hp_New ops)"
  by (simp add: heap_laws_def)

lemma heap_Push:
  assumes "heap_laws ops elems heaped" and "compares cmp (add_mset x (elems h))"
  obtains h' where "hp_Push ops cmp x h = Inr h'" and "elems h' = add_mset x (elems h)"
    and "orders cmp (add_mset x (elems h)) \<Longrightarrow> heaped cmp h \<Longrightarrow> heaped cmp h'"
proof -
  from assms have "\<exists>h'. hp_Push ops cmp x h = Inr h' \<and> elems h' = add_mset x (elems h) \<and>
      (orders cmp (add_mset x (elems h)) \<longrightarrow> heaped cmp h \<longrightarrow> heaped cmp h')"
    unfolding heap_laws_def by blast
  then show thesis using that by blast
qed

lemma heap_Pop_empty:
  assumes "heap_laws ops elems heaped" and "elems h = {#}"
  obtains h' where "hp_Pop ops cmp h = Inr (None, h')"
  using assms unfolding heap_laws_def by blast

lemma heap_Pop:
  assumes "heap_laws ops elems heaped" and "elems h \<noteq> {#}" and "compares cmp (elems h)"
  obtains x h' where "hp_Pop ops cmp h = Inr (Some x, h')" and "elems h = add_mset x (elems h')"
    and "orders cmp (elems h) \<Longrightarrow> heaped cmp h \<Longrightarrow> heaped cmp h' \<and> (\<forall>y \<in># elems h. le_by cmp x y)"
proof -
  from assms have "\<exists>x h'. hp_Pop ops cmp h = Inr (Some x, h') \<and> elems h = add_mset x (elems h') \<and>
      (orders cmp (elems h) \<longrightarrow> heaped cmp h \<longrightarrow> heaped cmp h' \<and> (\<forall>y \<in># elems h. le_by cmp x y))"
    unfolding heap_laws_def by blast
  then show thesis using that by blast
qed

lemma heaped_cong:
  assumes "heap_laws ops elems heaped" and "heaped cmp h"
    and "\<And>a b. a \<in># elems h \<Longrightarrow> b \<in># elems h \<Longrightarrow> cmp a b = cmp' a b"
  shows "heaped cmp' h"
  using assms unfolding heap_laws_def by blast

lemma compares_top: "(\<And>a. a \<in># M \<Longrightarrow> queue_at w a \<noteq> []) \<Longrightarrow> compares (topComparator w) M"
  by (fastforce simp: compares_def topComparator_def Let_def split: list.splits)

text \<open>The clients of the registry, and those of a set that have something to discard.\<close>

definition clients_set :: "world \<Rightarrow> addr set" where
  "clients_set w = ran (map_of (w_clients w))"

definition busy :: "world \<Rightarrow> addr set \<Rightarrow> addr set" where
  "busy w C = {c \<in> C. queue_at w c \<noteq> []}"

definition backlog :: "world \<Rightarrow> addr set \<Rightarrow> nat" where
  "backlog w C = (\<Sum>c \<in> C. length (queue_at w c))"

lemma finite_clients_set [simp]: "finite (clients_set w)"
  by (simp add: clients_set_def finite_ran finite_dom_map_of)

lemma finite_busy [simp]: "finite C \<Longrightarrow> finite (busy w C)"
  by (simp add: busy_def)

lemma clients_set_heap: "clients_ok w \<Longrightarrow> c \<in> clients_set w \<Longrightarrow> c < length (w_heap w)"
  by (auto simp: clients_set_def ran_def clients_ok_def)

lemma compares_busy: "finite C \<Longrightarrow> compares (topComparator w) (mset_set (busy w C))"
  by (rule compares_top) (simp add: busy_def)

text \<open>The clients that the first loop has visited.\<close>

definition visited :: "world \<Rightarrow> string list \<Rightarrow> addr set" where
  "visited w ks = {c. \<exists>k \<in> set ks. map_of (w_clients w) k = Some c}"

lemma visited_snoc:
  "visited w (ks @ [k]) = (case map_of (w_clients w) k of None \<Rightarrow> visited w ks | Some c \<Rightarrow> insert c (visited w ks))"
  by (auto simp: visited_def split: option.split)

lemma finite_visited [simp]: "finite (visited w ks)"
proof -
  have "visited w ks \<subseteq> (\<lambda>k. the (map_of (w_clients w) k)) ` set ks" by (force simp: visited_def)
  then show ?thesis by (rule finite_subset) simp
qed

lemma visited_all: "range_order (w_clients w) ks \<Longrightarrow> visited w ks = clients_set w"
  by (auto simp: visited_def clients_set_def ran_def range_orderD(2))

lemma orders_mono: "orders cmp M \<Longrightarrow> set_mset N \<subseteq> set_mset M \<Longrightarrow> orders cmp N"
  unfolding orders_def compares_def by blast

lemma visited_fresh:
  assumes "clients_ok w" and "k \<notin> set ks" and "map_of (w_clients w) k = Some c"
  shows "c \<notin> visited w ks"
  using assms by (auto simp: visited_def clients_ok_def)

lemma purge_push_Inr:
  "purge_push ops w i c (Inr h) = (if queue_at w c \<noteq> [] then hp_Push ops (topComparator w) c h else Inr h)"
  by (simp add: purge_push_def)

lemma purge_fill:
  assumes laws: "heap_laws ops elems heaped" and ok: "clients_ok w" and "distinct ks"
  shows "\<exists>h. range_loop (purge_push ops w) (w_clients w) ks (Inr (hp_New ops)) = Inr h \<and>
    elems h = mset_set (busy w (visited w ks)) \<and>
    (orders (topComparator w) (mset_set (busy w (visited w ks))) \<longrightarrow> heaped (topComparator w) h)"
  using assms(3)
proof (induction ks rule: rev_induct)
  case Nil
  show ?case using heap_New [OF laws] by (simp add: visited_def busy_def)
next
  case (snoc k ks)
  then obtain h where h: "range_loop (purge_push ops w) (w_clients w) ks (Inr (hp_New ops)) = Inr h"
    "elems h = mset_set (busy w (visited w ks))"
    "orders (topComparator w) (mset_set (busy w (visited w ks))) \<Longrightarrow> heaped (topComparator w) h"
    by auto
  show ?case
  proof (cases "map_of (w_clients w) k")
    case None
    with h show ?thesis by (simp add: visited_snoc)
  next
    case (Some c)
    have fresh: "c \<notin> visited w ks" using visited_fresh [OF ok _ Some] snoc.prems by simp
    show ?thesis
    proof (cases "queue_at w c = []")
      case True
      then have "busy w (visited w (ks @ [k])) = busy w (visited w ks)"
        using Some by (auto simp: busy_def visited_snoc)
      with h True Some show ?thesis by (simp add: purge_push_Inr)
    next
      case False
      then have b: "busy w (visited w (ks @ [k])) = insert c (busy w (visited w ks))"
        using Some by (auto simp: busy_def visited_snoc)
      then have e: "mset_set (busy w (visited w (ks @ [k]))) = add_mset c (elems h)"
        using h(2) fresh by (simp add: busy_def)
      have "compares (topComparator w) (add_mset c (elems h))"
        unfolding e [symmetric] by (simp add: compares_busy)
      from heap_Push [OF laws this] obtain h' where h': "hp_Push ops (topComparator w) c h = Inr h'"
        "elems h' = add_mset c (elems h)"
        "orders (topComparator w) (add_mset c (elems h)) \<Longrightarrow> heaped (topComparator w) h \<Longrightarrow> heaped (topComparator w) h'"
        by blast
      moreover have "orders (topComparator w) (add_mset c (elems h)) \<Longrightarrow> orders (topComparator w) (elems h)"
        by (erule orders_mono) auto
      ultimately show ?thesis using h False Some e by (simp add: purge_push_Inr)
    qed
  qed
qed

section \<open>The loop\<close>

text \<open>One turn: the front message of a busy client is gone.\<close>

definition drop_front :: "addr \<Rightarrow> world \<Rightarrow> world" where
  "drop_front c w = upd_client c (\<lambda>x. x\<lparr>c_queue := tl (c_queue x)\<rparr>) w"

lemma queue_drop_front:
  "c < length (w_heap w) \<Longrightarrow> queue_at (drop_front c w) a = (if a = c then tl (queue_at w c) else queue_at w a)"
  by (simp add: drop_front_def)

lemma drop_front_same [simp]:
  "w_msgs (drop_front c w) = w_msgs w" "length (w_heap (drop_front c w)) = length (w_heap w)"
  "c_level (deref (drop_front c w) a) = c_level (deref w a)"
  by (simp_all add: drop_front_def)

lemma drop_front_same_but_queues: "same_but_queues w (drop_front c w)"
proof -
  have "\<exists>q. deref w b = (deref w b)\<lparr>c_queue := q\<rparr>" for b
    by (rule exI [of _ "c_queue (deref w b)"]) simp
  then show ?thesis by (auto simp: same_but_queues_def drop_front_def)
qed

lemma busy_drop_front:
  assumes "c < length (w_heap w)" and "c \<in> C"
  shows "busy (drop_front c w) C = (if tl (queue_at w c) = [] then busy w C - {c} else busy w C - {c} \<union> {c})"
  using assms by (auto simp: busy_def queue_drop_front split: if_splits)

lemma backlog_drop_front:
  assumes "finite C" and "c \<in> C" and "c < length (w_heap w)" and "queue_at w c \<noteq> []"
  shows "Suc (backlog (drop_front c w) C) = backlog w C"
proof -
  have "backlog (drop_front c w) C = length (tl (queue_at w c)) + (\<Sum>a \<in> C - {c}. length (queue_at w a))"
    using assms unfolding backlog_def
    by (subst sum.remove [of C c]) (auto simp: queue_drop_front intro!: sum.cong)
  moreover have "backlog w C = length (queue_at w c) + (\<Sum>a \<in> C - {c}. length (queue_at w a))"
    using assms unfolding backlog_def by (simp add: sum.remove)
  ultimately show ?thesis using assms(4) by simp
qed

lemma purge_loop_turn:
  assumes "hp_Pop ops (topComparator w) h = Inr (Some c, h')" and "queue_at w c \<noteq> []" and "c < length (w_heap w)"
  shows "purge_loop ops (Suc n) h w =
    (if tl (queue_at w c) \<noteq> []
     then case hp_Push ops (topComparator (drop_front c w)) c h' of
         Inl p \<Rightarrow> (drop_front c w, Inl p)
       | Inr h'' \<Rightarrow> purge_loop ops n h'' (drop_front c w)
     else purge_loop ops n h' (drop_front c w))"
proof -
  obtain m q where q: "queue_at w c = m # q" using assms(2) by (cases "queue_at w c") auto
  have "upd_client c (\<lambda>x. x\<lparr>c_queue := q\<rparr>) w = drop_front c w"
    using q by (simp add: drop_front_def upd_client_def deref_def)
  with assms q show ?thesis by (simp add: purge_loop.simps(2) Let_def queue_drop_front)
qed

text \<open>
  A turn keeps the heap in step with the queues: it holds exactly the clients that have messages
  waiting.
\<close>

definition heap_of :: "('h \<Rightarrow> addr multiset) \<Rightarrow> addr set \<Rightarrow> 'h \<Rightarrow> world \<Rightarrow> bool" where
  "heap_of elems C h w \<longleftrightarrow> finite C \<and> (\<forall>c \<in> C. c < length (w_heap w)) \<and> elems h = mset_set (busy w C)"

lemma purge_turn_Some:
  assumes laws: "heap_laws ops elems heaped" and inv: "heap_of elems C h w" and "busy w C \<noteq> {}"
  shows "\<exists>c h'. c \<in> busy w C \<and> heap_of elems C h' (drop_front c w) \<and>
    purge_loop ops (Suc n) h w = purge_loop ops n h' (drop_front c w) \<and>
    (orders (topComparator w) (elems h) \<longrightarrow> heaped (topComparator w) h \<longrightarrow>
       (\<forall>y \<in> busy w C. le_by (topComparator w) c y) \<and>
       (orders (topComparator (drop_front c w)) (elems h') \<longrightarrow> heaped (topComparator (drop_front c w)) h'))"
proof -
  have fin: "finite C" and heap: "\<And>c. c \<in> C \<Longrightarrow> c < length (w_heap w)" and e: "elems h = mset_set (busy w C)"
    using inv by (auto simp: heap_of_def)
  have "elems h \<noteq> {#}" using e fin assms(3) by (simp add: mset_set_empty_iff)
  moreover have "compares (topComparator w) (elems h)" unfolding e by (rule compares_busy [OF fin])
  ultimately obtain c h' where pop: "hp_Pop ops (topComparator w) h = Inr (Some c, h')"
    and eh: "elems h = add_mset c (elems h')"
    and min: "orders (topComparator w) (elems h) \<Longrightarrow> heaped (topComparator w) h \<Longrightarrow>
      heaped (topComparator w) h' \<and> (\<forall>y \<in># elems h. le_by (topComparator w) c y)"
    by (rule heap_Pop [OF laws]) blast
  have cb: "c \<in> busy w C" using eh e fin by (metis finite_busy finite_set_mset_mset_set union_single_eq_member)
  then have c: "c \<in> C" "queue_at w c \<noteq> []" "c < length (w_heap w)" using heap by (auto simp: busy_def)
  have eh': "elems h' = mset_set (busy w C - {c})"
    using eh e fin cb by (metis add_mset_add_mset_same_iff finite_Diff finite_busy insert_Diff mset_set.insert_remove Diff_idemp)
  let ?w = "drop_front c w"
  have agree: "topComparator w a b = topComparator ?w a b" if "a \<in># elems h'" "b \<in># elems h'" for a b
    using that fin c eh' unfolding topComparator_def by (simp add: queue_drop_front Let_def split: list.split)
  have heap': "\<forall>c \<in> C. c < length (w_heap ?w)" using heap by simp
  show ?thesis
  proof (cases "tl (queue_at w c) = []")
    case True
    then have "heap_of elems C h' ?w" using fin heap' eh' busy_drop_front [OF c(3,1)] by (simp add: heap_of_def)
    moreover have "purge_loop ops (Suc n) h w = purge_loop ops n h' ?w"
      using purge_loop_turn [OF pop c(2,3)] True by simp
    moreover have "heaped (topComparator w) h' \<Longrightarrow> heaped (topComparator ?w) h'"
      by (rule heaped_cong [OF laws _ agree])
    ultimately show ?thesis using cb min e fin by (intro exI [of _ c] exI [of _ h']) auto
  next
    case False
    then have b: "busy ?w C = busy w C" using busy_drop_front [OF c(3,1)] cb by auto
    then have all: "add_mset c (elems h') = mset_set (busy ?w C)" using e eh by simp
    then have "compares (topComparator ?w) (add_mset c (elems h'))" using compares_busy [OF fin] by simp
    then obtain h'' where push: "hp_Push ops (topComparator ?w) c h' = Inr h''" "elems h'' = add_mset c (elems h')"
      "orders (topComparator ?w) (add_mset c (elems h')) \<Longrightarrow> heaped (topComparator ?w) h' \<Longrightarrow> heaped (topComparator ?w) h''"
      by (rule heap_Push [OF laws]) blast
    have "heap_of elems C h'' ?w" using fin heap' push(2) all by (simp add: heap_of_def)
    moreover have "purge_loop ops (Suc n) h w = purge_loop ops n h'' ?w"
      using purge_loop_turn [OF pop c(2,3)] False push(1) by simp
    moreover have "heaped (topComparator w) h' \<Longrightarrow> heaped (topComparator ?w) h'"
      by (rule heaped_cong [OF laws _ agree])
    ultimately show ?thesis
      using cb min e eh fin push(2,3) by (intro exI [of _ c] exI [of _ h'']) auto
  qed
qed

lemma purge_turn_None:
  assumes "heap_laws ops elems heaped" and "heap_of elems C h w" and "busy w C = {}"
  shows "purge_loop ops n h w = (w, Inr ())"
proof (cases n)
  case (Suc k)
  have "elems h = {#}" using assms(2,3) by (simp add: heap_of_def)
  then obtain h' where "hp_Pop ops (topComparator w) h = Inr (None, h')" by (rule heap_Pop_empty [OF assms(1)])
  with Suc show ?thesis by (simp add: purge_loop.simps(2))
qed simp

text \<open>
  What a purge does to the queues of \<open>C\<close>: messages are dropped from the front, nothing else
  changes.
\<close>

definition trimmed :: "addr set \<Rightarrow> world \<Rightarrow> world \<Rightarrow> bool" where
  "trimmed C w w' \<longleftrightarrow> same_but_queues w w' \<and> w_msgs w' = w_msgs w \<and>
     (\<forall>a. \<exists>k. queue_at w' a = drop k (queue_at w a) \<and> (a \<notin> C \<longrightarrow> k = 0))"

lemma trimmed_refl [simp]: "trimmed C w w"
proof -
  have "\<exists>k. queue_at w a = drop k (queue_at w a) \<and> (a \<notin> C \<longrightarrow> k = 0)" for a
    by (rule exI [of _ 0]) simp
  then show ?thesis by (simp add: trimmed_def)
qed

lemma trimmed_drop_front: "c < length (w_heap w) \<Longrightarrow> c \<in> C \<Longrightarrow> trimmed C w (drop_front c w)"
proof -
  assume c: "c < length (w_heap w)" "c \<in> C"
  have "\<exists>k. queue_at (drop_front c w) a = drop k (queue_at w a) \<and> (a \<notin> C \<longrightarrow> k = 0)" for a
    using c by (intro exI [of _ "if a = c then 1 else 0"]) (simp add: queue_drop_front drop_Suc)
  then show ?thesis by (simp add: trimmed_def drop_front_same_but_queues)
qed

lemma trimmed_trans: "trimmed C u v \<Longrightarrow> trimmed C v w \<Longrightarrow> trimmed C u w"
  unfolding trimmed_def by (metis add_0 drop_drop same_but_queues_trans)

lemma trimmed_queue: "trimmed C w w' \<Longrightarrow> queue_at w' a \<noteq> [] \<Longrightarrow> queue_at w a \<noteq> []"
  unfolding trimmed_def by (metis drop_Nil)

lemma purge_loop_spec:
  assumes laws: "heap_laws ops elems heaped" and "heap_of elems C h w"
  shows "\<exists>w'. purge_loop ops n h w = (w', Inr ()) \<and> trimmed C w w' \<and> backlog w' C = backlog w C - n"
  using assms(2)
proof (induction n arbitrary: h w)
  case (Suc n)
  show ?case
  proof (cases "busy w C = {}")
    case True
    then have "backlog w C = 0" by (simp add: backlog_def busy_def)
    with purge_turn_None [OF laws Suc.prems True, of "Suc n"] show ?thesis by simp
  next
    case False
    then obtain c h' where c: "c \<in> busy w C" "heap_of elems C h' (drop_front c w)"
      "purge_loop ops (Suc n) h w = purge_loop ops n h' (drop_front c w)"
      using purge_turn_Some [OF laws Suc.prems False] by blast
    from Suc.IH [OF c(2)] obtain w' where w': "purge_loop ops n h' (drop_front c w) = (w', Inr ())"
      "trimmed C (drop_front c w) w'" "backlog w' C = backlog (drop_front c w) C - n" by blast
    have m: "finite C" "c \<in> C" "c < length (w_heap w)" "queue_at w c \<noteq> []"
      using c(1) Suc.prems by (auto simp: busy_def heap_of_def)
    have "trimmed C w w'" using trimmed_trans [OF trimmed_drop_front [OF m(3,2)] w'(2)] .
    with w' c(3) backlog_drop_front [OF m] show ?thesis by auto
  qed
qed simp

section \<open>Whose messages go first\<close>

text \<open>
  Messages of one importance (the connector never sets another than 0) and levels whose
  differences do not overflow: then the comparison is that of the levels.
\<close>

definition plain :: "addr set \<Rightarrow> world \<Rightarrow> bool" where
  "plain C w \<longleftrightarrow> (\<forall>c \<in> C. (\<forall>m \<in> set (queue_at w c). tc_Importance (w_msgs w ! m) = 0) \<and>
     - (2 ^ 62) \<le> c_level (deref w c) \<and> c_level (deref w c) < 2 ^ 62)"

lemma plain_drop_front:
  assumes "plain C w"
  shows "plain C (drop_front c w)"
proof (cases "c < length (w_heap w)")
  case True
  then have "set (queue_at (drop_front c w) a) \<subseteq> set (queue_at w a)" for a
    by (auto simp: queue_drop_front) (metis list.sel(2) list.set_sel(2))
  with assms show ?thesis unfolding plain_def by fastforce
next
  case False
  then have "drop_front c w = w" by (simp add: drop_front_def upd_client_def list_update_beyond)
  with assms show ?thesis by simp
qed

lemma top_plain:
  assumes "plain C w" and "a \<in> busy w C" and "b \<in> busy w C"
  shows "topComparator w a b = Inr (c_level (deref w a) - c_level (deref w b))"
proof -
  obtain m p n q where "queue_at w a = m # p" "queue_at w b = n # q"
    using assms(2,3) by (auto simp: busy_def neq_Nil_conv)
  moreover from this have "tc_Importance (w_msgs w ! m) = 0" "tc_Importance (w_msgs w ! n) = 0"
    using assms by (auto simp: plain_def busy_def)
  moreover have "- (2 ^ 62) \<le> c_level (deref w c) \<and> c_level (deref w c) < 2 ^ 62" if "c \<in> busy w C" for c
    using assms(1) that by (auto simp: plain_def busy_def)
  from this [OF assms(2)] this [OF assms(3)] have "in_int64 (c_level (deref w a) - c_level (deref w b))"
    by (auto simp: in_int64_def)
  moreover have "wrap64 0 = 0" by (simp add: wrap64_def)
  ultimately show ?thesis by (simp add: topComparator_def Let_def)
qed

lemma le_by_plain:
  "plain C w \<Longrightarrow> a \<in> busy w C \<Longrightarrow> b \<in> busy w C \<Longrightarrow>
   le_by (topComparator w) a b \<longleftrightarrow> c_level (deref w a) \<le> c_level (deref w b)"
  by (auto simp: le_by_def top_plain)

lemma orders_plain: "finite C \<Longrightarrow> plain C w \<Longrightarrow> orders (topComparator w) (mset_set (busy w C))"
  by (auto simp: orders_def compares_busy le_by_plain)

lemma purge_loop_levels:
  assumes laws: "heap_laws ops elems heaped" and "heap_of elems C h w" and "plain C w"
    and "heaped (topComparator w) h" and "purge_loop ops n h w = (w', r)"
    and "a \<in> C" and "b \<in> C" and "c_level (deref w a) < c_level (deref w b)" and "queue_at w' a \<noteq> []"
  shows "queue_at w' b = queue_at w b"
  using assms(2-5,8)
proof (induction n arbitrary: h w)
  case (Suc n)
  note inv = Suc.prems(1) and fin = Suc.prems(1) [unfolded heap_of_def, THEN conjunct1]
  show ?case
  proof (cases "busy w C = {}")
    case True
    then show ?thesis using purge_turn_None [OF laws inv True, of "Suc n"] Suc.prems(4) by simp
  next
    case False
    have ord: "orders (topComparator w) (elems h)"
      using inv orders_plain [OF fin Suc.prems(2)] by (simp add: heap_of_def)
    obtain c h' where c: "c \<in> busy w C" "heap_of elems C h' (drop_front c w)"
      "purge_loop ops (Suc n) h w = purge_loop ops n h' (drop_front c w)"
      "\<forall>y \<in> busy w C. le_by (topComparator w) c y"
      "orders (topComparator (drop_front c w)) (elems h') \<longrightarrow> heaped (topComparator (drop_front c w)) h'"
      using purge_turn_Some [OF laws inv False, of n] ord Suc.prems(3) by blast
    have m: "c \<in> C" "c < length (w_heap w)" using c(1) inv by (auto simp: busy_def heap_of_def)
    have loop: "purge_loop ops n h' (drop_front c w) = (w', r)" using c(3) Suc.prems(4) by simp
    have "trimmed C (drop_front c w) w'" using purge_loop_spec [OF laws c(2), of n] loop by auto
    from trimmed_queue [OF trimmed_trans [OF trimmed_drop_front [OF m(2,1)] this] assms(9)]
    have "a \<in> busy w C" using assms(6) by (simp add: busy_def)
    with c(1,4) le_by_plain [OF Suc.prems(2), of c a] Suc.prems(5) have "b \<noteq> c" by auto
    then have "queue_at (drop_front c w) b = queue_at w b" using m(2) by (simp add: queue_drop_front)
    moreover have "queue_at w' b = queue_at (drop_front c w) b"
    proof (rule Suc.IH [OF c(2) plain_drop_front [OF Suc.prems(2)] _ loop])
      show "heaped (topComparator (drop_front c w)) h'"
        using c(2,5) orders_plain [OF fin plain_drop_front [OF Suc.prems(2)], of c] by (simp add: heap_of_def)
      show "c_level (deref (drop_front c w) a) < c_level (deref (drop_front c w) b)" using Suc.prems(5) by simp
    qed
    ultimately show ?thesis by simp
  qed
qed simp

section \<open>Correctness\<close>

lemma clients_sum:
  assumes "clients_ok w"
  shows "(\<Sum>(i, c) \<leftarrow> w_clients w. f c) = (\<Sum>c \<in> clients_set w. f c)"
proof -
  have keys: "distinct (map fst (w_clients w))" using assms by (simp add: clients_ok_def gomap_ok_def)
  have id: "c_ID (deref w c) = i" if "(i, c) \<in> set (w_clients w)" for i c
    using assms that keys by (simp add: clients_ok_def)
  have "distinct (map snd (w_clients w))"
    using keys id unfolding distinct_map by (auto simp: inj_on_def) (metis id)+
  moreover have "clients_set w = set (map snd (w_clients w))"
    using keys by (force simp: clients_set_def ran_def)
  ultimately show ?thesis
    using sum.distinct_set_conv_list [of "map snd (w_clients w)" f] by (simp add: case_prod_unfold o_def)
qed

lemma stat_backlog:
  assumes "clients_ok w" and "range_order (w_clients w) statOrder" and "backlog w (clients_set w) < 2 ^ 31"
  shows "subscriber_stat statOrder w = int (backlog w (clients_set w))"
proof -
  have "(\<Sum>(i, c) \<leftarrow> w_clients w. int (length (queue_at w c))) = int (backlog w (clients_set w))"
    using clients_sum [OF assms(1), of "\<lambda>c. int (length (queue_at w c))"] by (simp add: backlog_def)
  moreover have "in_int32 (int (backlog w (clients_set w)))" using assms(3) by (simp add: in_int32_def)
  moreover have "gomap_ok (w_clients w)" using assms(1) by (simp add: clients_ok_def)
  ultimately show ?thesis using stat_is_total_backlog [OF _ assms(2)] by simp
qed

lemma purge_locked_loop:
  assumes "heap_laws ops elems heaped" and "clients_ok w" and "range_order (w_clients w) order" and "10000 < outQueue"
  shows "\<exists>h. purge_locked ops order outQueue w = purge_loop ops (nat (outQueue - 10000)) h w \<and>
    heap_of elems (clients_set w) h w \<and>
    (orders (topComparator w) (elems h) \<longrightarrow> heaped (topComparator w) h)"
proof -
  obtain h where "range_loop (purge_push ops w) (w_clients w) order (Inr (hp_New ops)) = Inr h"
    "elems h = mset_set (busy w (clients_set w))"
    "orders (topComparator w) (mset_set (busy w (clients_set w))) \<longrightarrow> heaped (topComparator w) h"
    using purge_fill [OF assms(1,2) range_orderD(1) [OF assms(3)]] visited_all [OF assms(3)] by auto
  with assms show ?thesis by (auto simp: purge_locked_def heap_of_def clients_set_heap)
qed

lemma purge_backlog:
  assumes "heap_laws ops elems heaped" and "clients_ok w"
    and "range_order (w_clients w) statOrder" and "range_order (w_clients w) order"
    and "backlog w (clients_set w) < 2 ^ 31"
  shows "\<exists>w'. purge ops statOrder order w = (w', Inr ()) \<and> trimmed (clients_set w) w w' \<and>
    backlog w' (clients_set w) = min 10000 (backlog w (clients_set w))"
proof (cases "10000 < backlog w (clients_set w)")
  case True
  let ?n = "int (backlog w (clients_set w))"
  have p: "purge ops statOrder order w = purge_locked ops order ?n w"
    using stat_backlog [OF assms(2,3,5)] by (simp add: purge_def)
  obtain h where "purge_locked ops order ?n w = purge_loop ops (nat (?n - 10000)) h w"
    "heap_of elems (clients_set w) h w"
    using purge_locked_loop [OF assms(1,2,4), of ?n] True by auto
  with purge_loop_spec [OF assms(1), of "clients_set w" h w "nat (?n - 10000)"] p True show ?thesis by auto
next
  case False
  then show ?thesis
    using stat_backlog [OF assms(2,3,5)] by (simp add: purge_def purge_locked_def)
qed

text \<open>
  C30: A purge brings the outbound backlog down to its bound: it never panics, it drops messages only
  from the front of the queues of registered clients and changes nothing else, and afterwards
  10000 messages wait, or as many as before when there were fewer. The heap is any that keeps
  its documented contract, the backlog one that an \<^verbatim>\<open>int32\<close> can count.
\<close>

theorem purge_bounds_backlog:
  assumes "heap_laws ops elems heaped" and "clients_ok w"
    and "range_order (w_clients w) statOrder" and "range_order (w_clients w) order"
    and "backlog w (clients_set w) < 2 ^ 31"
  shows "\<exists>w'. purge ops statOrder order w = (w', Inr ()) \<and> trimmed (clients_set w) w w' \<and>
    backlog w' (clients_set w) = min 10000 (backlog w (clients_set w))"
  using assms by (rule purge_backlog)

text \<open>
  C31: Messages of users of low level go first: when all waiting messages have importance 0, which is
  what \<^verbatim>\<open>convert\<close> gives them, and all levels lie between \<open>- (2 ^ 62)\<close> and \<open>2 ^ 62\<close>, so that their differences do not wrap,
  a client whose queue is not empty after a purge shows that no
  client of a higher level lost a message.
\<close>

theorem purge_spares_higher_levels:
  assumes "heap_laws ops elems heaped" and "clients_ok w" and "range_order (w_clients w) order"
    and "plain (clients_set w) w" and "purge ops statOrder order w = (w', r)"
    and "a \<in> clients_set w" and "b \<in> clients_set w" and "c_level (deref w a) < c_level (deref w b)"
    and "queue_at w' a \<noteq> []"
  shows "queue_at w' b = queue_at w b"
proof (cases "10000 < subscriber_stat statOrder w")
  case True
  let ?n = "subscriber_stat statOrder w"
  obtain h where h: "purge_locked ops order ?n w = purge_loop ops (nat (?n - 10000)) h w"
    "heap_of elems (clients_set w) h w" "orders (topComparator w) (elems h) \<longrightarrow> heaped (topComparator w) h"
    using purge_locked_loop [OF assms(1-3) True] by blast
  have "heaped (topComparator w) h"
    using h(2,3) orders_plain [OF _ assms(4)] by (simp add: heap_of_def)
  moreover have "purge_loop ops (nat (?n - 10000)) h w = (w', r)" using h(1) assms(5) by (simp add: purge_def)
  ultimately show ?thesis using purge_loop_levels [OF assms(1) h(2) assms(4) _ _ assms(6-9)] by blast
next
  case False
  then show ?thesis using assms(5) by (simp add: purge_def purge_locked_def)
qed

text \<open>
  Among messages of different importance the comparison puts the more important one first, so it is
  the more important message that a purge would discard.
\<close>

lemma importance_discards_first:
  assumes "queue_at w a = m # p" and "queue_at w b = n # q"
    and "tc_Importance (w_msgs w ! m) = i" and "tc_Importance (w_msgs w ! n) = j"
    and "0 \<le> j" and "j < i" and "i < 2 ^ 63"
  shows "\<exists>d. topComparator w a b = Inr d \<and> d < 0"
proof -
  have "wrap64 (- wrap64 (i - j)) = - (i - j)" using assms(5-7) by (simp add: in_int64_def)
  with assms show ?thesis by (simp add: topComparator_def Let_def)
qed

section \<open>Witnesses\<close>

text \<open>A heap that keeps the contract: a list that is searched for a least element.\<close>

fun list_min :: "comparator \<Rightarrow> addr \<Rightarrow> addr list \<Rightarrow> addr" where
  "list_min cmp x [] = x"
| "list_min cmp x (y # ys) =
     list_min cmp (case cmp x y of Inl _ \<Rightarrow> x | Inr n \<Rightarrow> if n \<le> 0 then x else y) ys"

definition list_heap :: "addr list heap_ops" where
  "list_heap = \<lparr>hp_New = [], hp_Push = (\<lambda>cmp x h. Inr (x # h)),
     hp_Pop = (\<lambda>cmp h. case h of [] \<Rightarrow> Inr (None, []) | x # xs \<Rightarrow>
       Inr (Some (list_min cmp x xs), remove1 (list_min cmp x xs) h))\<rparr>"

lemma list_min_in: "list_min cmp x xs \<in> set (x # xs)"
  by (induction cmp x xs rule: list_min.induct) (auto split: sum.splits if_splits)

lemma list_min_least:
  assumes "orders cmp (mset (x # xs))"
  shows "\<forall>y \<in> set (x # xs). le_by cmp (list_min cmp x xs) y"
  using assms
proof (induction cmp x xs rule: list_min.induct)
  case (1 cmp x)
  then show ?case by (auto simp: orders_def)
next
  case (2 cmp x y ys)
  let ?z = "case cmp x y of Inl _ \<Rightarrow> x | Inr n \<Rightarrow> if n \<le> 0 then x else y"
  have "orders cmp (mset (?z # ys))"
    using "2.prems" by (rule orders_mono) (auto split: sum.split)
  with "2.IH" have least: "\<forall>v \<in> set (?z # ys). le_by cmp (list_min cmp ?z ys) v" by blast
  have in_set: "list_min cmp ?z ys \<in> set (?z # ys)" by (rule list_min_in)
  have zxy: "le_by cmp ?z x" "le_by cmp ?z y"
  proof -
    obtain n where "cmp x y = Inr n" using "2.prems" by (auto simp: orders_def compares_def)
    moreover have "le_by cmp x x" "le_by cmp y y" "le_by cmp x y \<or> le_by cmp y x"
      using "2.prems" by (auto simp: orders_def)
    ultimately show "le_by cmp ?z x" "le_by cmp ?z y" by (auto simp: le_by_def)
  qed
  have trans: "le_by cmp u v" if "u \<in> set (x # y # ys)" "z \<in> set (x # y # ys)" "v \<in> set (x # y # ys)"
    "le_by cmp u z" "le_by cmp z v" for u z v
    using "2.prems" that unfolding orders_def set_mset_mset by blast
  have z: "?z \<in> set (x # y # ys)" by (auto split: sum.split)
  have m: "list_min cmp ?z ys \<in> set (x # y # ys)" using in_set z by auto
  have lz: "le_by cmp (list_min cmp ?z ys) ?z" using least by simp
  have "le_by cmp (list_min cmp ?z ys) x" "le_by cmp (list_min cmp ?z ys) y"
    by (rule trans [OF m z _ lz zxy(1)], simp) (rule trans [OF m z _ lz zxy(2)], simp)
  with least show ?case by simp
qed

lemma list_heap_laws: "heap_laws list_heap mset (\<lambda>_ _. True)"
  unfolding heap_laws_def
proof (intro conjI allI impI)
  fix cmp and h :: "addr list"
  assume h: "mset h \<noteq> {#}"
  then obtain x xs where xs: "h = x # xs" by (cases h) auto
  let ?m = "list_min cmp x xs"
  have "hp_Pop list_heap cmp h = Inr (Some ?m, remove1 ?m h)" by (simp add: list_heap_def xs)
  moreover have "mset h = add_mset ?m (mset (remove1 ?m h))"
    using list_min_in [of cmp x xs] xs by (simp only: mset_remove1 insert_DiffM set_mset_mset [symmetric] flip: set_mset_mset)
  moreover have "orders cmp (mset h) \<Longrightarrow> \<forall>y \<in># mset h. le_by cmp ?m y"
    using list_min_least [of cmp x xs] xs by simp
  ultimately show "\<exists>x h'. hp_Pop list_heap cmp h = Inr (Some x, h') \<and> mset h = add_mset x (mset h') \<and>
      (orders cmp (mset h) \<longrightarrow> True \<longrightarrow> True \<and> (\<forall>y \<in># mset h. le_by cmp x y))" by blast
qed (simp_all add: list_heap_def)

definition flood :: nat where
  "flood = 10001"

definition flooded_world :: world where
  "flooded_world = init_world\<lparr>w_heap := [(sample_client ''u'' 7)\<lparr>c_queue := replicate flood 0\<rparr>,
       (sample_client ''v'' 8)\<lparr>c_queue := [0], c_level := 3\<rparr>],
     w_msgs := [sample_ToClientMessage], w_clients := [(''u'', 0), (''v'', 1)]\<rparr>"

lemma flooded_ok: "clients_ok flooded_world" "range_order (w_clients flooded_world) [''v'', ''u'']"
  "clients_set flooded_world = {0, 1}" "backlog flooded_world {0, 1} = 10002" "plain {0, 1} flooded_world"
proof -
  show "clients_ok flooded_world" "range_order (w_clients flooded_world) [''v'', ''u'']"
    by (auto simp: clients_ok_def flooded_world_def init_world_def gomap_ok_def deref_def sample_client_def
        range_order_def keys_of_def split: if_splits)
  show "clients_set flooded_world = {0, 1}"
    by (auto simp: clients_set_def flooded_world_def)
  show "backlog flooded_world {0, 1} = 10002"
    by (simp add: backlog_def flooded_world_def deref_def sample_client_def) (simp add: flood_def)
  show "plain {0, 1} flooded_world"
    by (auto simp: plain_def flooded_world_def deref_def sample_client_def sample_ToClientMessage_def)
qed

theorem purge_bounds_backlog_witness:
  "backlog (fst (purge list_heap [''v'', ''u''] [''v'', ''u''] flooded_world)) {0, 1} = 10000"
proof -
  have "backlog flooded_world (clients_set flooded_world) < 2 ^ 31" by (simp only: flooded_ok) simp
  from purge_bounds_backlog [OF list_heap_laws flooded_ok(1,2,2) this] show ?thesis
    unfolding flooded_ok(3) flooded_ok(4) by (elim exE conjE) simp
qed

theorem purge_spares_higher_levels_witness:
  "queue_at (fst (purge list_heap [''v'', ''u''] [''v'', ''u''] flooded_world)) 1 = [0]"
proof -
  let ?p = "purge list_heap [''v'', ''u''] [''v'', ''u''] flooded_world"
  obtain w' where p: "?p = (w', Inr ())" and t: "trimmed {0, 1} flooded_world w'"
    and b: "backlog w' {0, 1} = 10000"
    using purge_backlog [OF list_heap_laws flooded_ok(1,2,2)] unfolding flooded_ok(3) flooded_ok(4) by auto
  have one: "queue_at flooded_world 1 = [0]" by (simp add: flooded_world_def deref_def sample_client_def)
  obtain k where "queue_at w' 1 = drop k [0]" using t one unfolding trimmed_def by metis
  then have "length (queue_at w' 1) \<le> 1" by simp
  with b have "queue_at w' 0 \<noteq> []" by (auto simp: backlog_def)
  moreover have "c_level (deref flooded_world 0) < c_level (deref flooded_world 1)"
    by (simp add: flooded_world_def deref_def sample_client_def)
  ultimately show ?thesis
    using purge_spares_higher_levels [OF list_heap_laws flooded_ok(1,2) _ p, of 0 1] flooded_ok(3,5) p one by simp
qed

end
