(* ===== verification/Http_Client.thy ===== *)
theory Http_Client
  imports Protocol
begin

text \<open>
  \<^verbatim>\<open>httpcli.go\<close>: calls to web services. The HTTP client is a parameter: what a request
  returns, a response (status and body as \<^verbatim>\<open>ReadAll\<close> reads it) or an error.
\<close>

section \<open>Operations\<close>

record callOptions =
  co_url :: string
  co_addr :: string
  co_https :: bool

definition zero_callOptions :: callOptions where
  "zero_callOptions = \<lparr>co_url = '''', co_addr = '''', co_https = False\<rparr>"

definition WithURL :: "string \<Rightarrow> callOptions \<Rightarrow> callOptions" where
  "WithURL url q = q\<lparr>co_url := url\<rparr>"

definition WithAddr :: "string \<Rightarrow> callOptions \<Rightarrow> callOptions" where
  "WithAddr addr q = q\<lparr>co_addr := addr\<rparr>"

definition WithHttps :: "callOptions \<Rightarrow> callOptions" where
  "WithHttps q = q\<lparr>co_https := True\<rparr>"

definition call_url :: "string \<Rightarrow> string \<Rightarrow> callOptions \<Rightarrow> string" where
  "call_url defAddr api q =
     (if length (co_url q) > 0 then co_url q
      else
        (let addr = (if length (co_addr q) > 0 then co_addr q else defAddr)
         in if co_https q then ''https://'' @ addr @ api else ''http://'' @ addr @ api))"

datatype request = Post string string bytes | Get string

record response =
  rs_StatusCode :: int
  rs_Body :: "bytes result"

definition DefaultRequestContentType :: string where
  "DefaultRequestContentType = ''application/json; charset=utf-8''"

text \<open>\<^verbatim>\<open>Call\<close>: an encoder error is ignored and an empty body posted; the result is decoded into
  \<open>res\<close> when the caller wants one.\<close>

definition BaseProxy_Call ::
  "(request \<Rightarrow> response result) \<Rightarrow> string \<Rightarrow> string \<Rightarrow> bytes result option \<Rightarrow>
   ('o unmarshaler \<times> 'o) option \<Rightarrow> (callOptions \<Rightarrow> callOptions) list \<Rightarrow> request \<times> 'o option \<times> err option" where
  "BaseProxy_Call http defAddr api param res options =
     (let q = fold (\<lambda>f q. f q) options zero_callOptions;
          url = call_url defAddr api q;
          req = (case param of
                   Some marshalled \<Rightarrow>
                     (let (b, _) = MarshalWrite (\<lambda>data buf. (buf @ data, None)) marshalled []
                      in Post url DefaultRequestContentType b)
                 | None \<Rightarrow> Get url)
      in case http req of
           Inl err \<Rightarrow> (req, map_option snd res, Some err)
         | Inr resp \<Rightarrow>
             if rs_StatusCode resp \<noteq> 200 then (req, map_option snd res, Some ErrRemoteServer)
             else
               (case res of
                  None \<Rightarrow> (req, None, None)
                | Some (unmarshal, obj) \<Rightarrow>
                    (let (obj', err) = ReadUnmarshal (rs_Body resp) unmarshal obj in (req, Some obj', err))))"

section \<open>Correctness\<close>

text \<open>The last option of a kind wins; an explicit URL overrides host and scheme.\<close>

lemma call_url_options:
  "call_url d api (WithURL u q) = (if u = '''' then call_url d api (q\<lparr>co_url := ''''\<rparr>) else u)"
  "co_url q = '''' \<Longrightarrow> a \<noteq> '''' \<Longrightarrow> call_url d api (WithAddr a q) = (if co_https q then ''https://'' else ''http://'') @ a @ api"
  "co_url q = '''' \<Longrightarrow> call_url d api (WithHttps q) = ''https://'' @ (if co_addr q = '''' then d else co_addr q) @ api"
  by (simp_all add: call_url_def WithURL_def WithAddr_def WithHttps_def Let_def)

text \<open>
  A call succeeds exactly when the request goes through, the status is 200 and, where a result
  is wanted, the body is read and decodes; a status other than 200 is reported as
  \<^verbatim>\<open>ErrRemoteServer\<close> and leaves the result as it was.
\<close>

theorem Call_ok_iff:
  assumes "BaseProxy_Call http defAddr api param res options = (req, obj', e)"
  shows "(e = None \<longleftrightarrow>
      (\<exists>resp. http req = Inr resp \<and> rs_StatusCode resp = 200 \<and>
         (case res of None \<Rightarrow> True
          | Some (unmarshal, obj) \<Rightarrow>
              (\<exists>b obj2. rs_Body resp = Inr b \<and> unmarshal b obj = (obj2, None) \<and> obj' = Some obj2)))) \<and>
    ((\<exists>resp. http req = Inr resp \<and> rs_StatusCode resp \<noteq> 200) \<longrightarrow>
      e = Some ErrRemoteServer \<and> obj' = map_option snd res)"
  using assms
  by (auto simp: BaseProxy_Call_def Let_def ReadUnmarshal_def
      split: sum.splits option.splits if_splits prod.splits)

theorem Call_ok_iff_witness:
  "snd (snd (BaseProxy_Call (\<lambda>_. Inr \<lparr>rs_StatusCode = 500, rs_Body = Inr []\<rparr>) ''h'' ''/api'' None
     (Some (\<lambda>b n. (n, None), (3::nat))) [])) = Some ErrRemoteServer"
proof -
  let ?c = "BaseProxy_Call (\<lambda>_. Inr \<lparr>rs_StatusCode = 500, rs_Body = Inr []\<rparr>) ''h'' ''/api'' None
     (Some (\<lambda>b n. (n, None), (3::nat))) []"
  obtain req obj' e where c: "?c = (req, obj', e)" by (metis prod_cases3)
  from Call_ok_iff [OF c] c show ?thesis by simp
qed

end
