(* ===== verification/Queue_Threads.thy ===== *)
theory Queue_Threads
  imports Message_Queue
begin

text \<open>
  \<^verbatim>\<open>tocompute.go\<close> under concurrency. Chat handlers run in parallel, one goroutine per connection,
  with each other and with the consumer; here their operations are cut at the locks.

  \<^item> A handler takes a number from the atomic counter, looks the room's queue up under the
    read lock of the group, makes it under the write lock when there was none (checking again),
    and adds the message under the lock of the queue.
  \<^item> The consumer holds the read lock of the group during a whole drain and takes the lock of
    one queue at a time. So no queue is made during a drain, but messages may be added between
    the visits.

  The queues are objects: the group maps rooms to addresses, and a handler keeps the address it
  has found.
\<close>

section \<open>State\<close>

record shared =
  sh_queues :: "MessageQueue list"
  sh_group :: "(string, nat) gomap option"
  sh_counter :: "64 word"

text \<open>What a handler does next.\<close>

datatype producer =
    Idle
  | Lookup FromConnectorMessage
  | Create FromConnectorMessage
  | Append FromConnectorMessage nat

text \<open>The consumer rests or has rooms left to visit, with the slice and the count so far.\<close>

datatype consumer = Resting | Visiting "string list" "FromConnectorMessage list" nat

record threads =
  th_shared :: shared
  th_pc :: "nat \<Rightarrow> producer"
  th_consumer :: consumer

definition init_threads :: threads where
  "init_threads = \<lparr>th_shared = \<lparr>sh_queues = [], sh_group = None, sh_counter = 0\<rparr>, th_pc = (\<lambda>_. Idle),
     th_consumer = Resting\<rparr>"

section \<open>Critical sections\<close>

text \<open>\<^verbatim>\<open>atomic.AddUint64(&chatMessageCounter, 1)\<close> and the message that carries the number.\<close>

definition take_number :: "FromConnectorMessage \<Rightarrow> shared \<Rightarrow> shared \<times> FromConnectorMessage" where
  "take_number x sh =
     (let counter = sh_counter sh + 1
      in (sh\<lparr>sh_counter := counter\<rparr>, x\<lparr>fm_MessageId := decimal (unat counter)\<rparr>))"

definition group_lookup :: "string \<Rightarrow> shared \<Rightarrow> nat option" where
  "group_lookup room sh = (case sh_group sh of None \<Rightarrow> None | Some grp \<Rightarrow> map_of grp room)"

definition group_create :: "string \<Rightarrow> shared \<Rightarrow> shared \<times> nat" where
  "group_create room sh =
     (let grp = (case sh_group sh of None \<Rightarrow> [] | Some grp \<Rightarrow> grp)
      in case map_of grp room of
           Some a \<Rightarrow> (sh\<lparr>sh_group := Some grp\<rparr>, a)
         | None \<Rightarrow>
             (sh\<lparr>sh_queues := sh_queues sh @ [NewMessageQueue],
                 sh_group := Some (AList.update room (length (sh_queues sh)) grp)\<rparr>, length (sh_queues sh)))"

definition queue_add :: "FromConnectorMessage \<Rightarrow> nat \<Rightarrow> shared \<Rightarrow> shared option" where
  "queue_add x a sh =
     map_option (\<lambda>m. sh\<lparr>sh_queues := (sh_queues sh)[a := m]\<rparr>) (MessageQueue_Add x (sh_queues sh ! a))"

definition queue_drain ::
  "FromConnectorMessage list \<Rightarrow> int \<Rightarrow> nat \<Rightarrow> shared \<Rightarrow> FromConnectorMessage list \<times> nat \<times> shared" where
  "queue_drain msgs maxLength a sh =
     (let (msgs, restSize, v) = MessageQueue_DrainTo msgs maxLength (sh_queues sh ! a)
      in (msgs, restSize, sh\<lparr>sh_queues := (sh_queues sh)[a := v]\<rparr>))"

section \<open>Interleavings\<close>

definition goto :: "nat \<Rightarrow> producer \<Rightarrow> threads \<Rightarrow> threads" where
  "goto t p s = s\<lparr>th_pc := (th_pc s)(t := p)\<rparr>"

text \<open>
  \<open>par_run said ins outs s\<close>: the steps so far have led to \<open>s\<close>; \<open>said\<close> are the messages in
  the order of their numbers, \<open>ins\<close> in the order in which they were added to their queues, each
  with the thread that handled it, and \<open>outs\<close> are the messages the consumer has collected.
\<close>

inductive par_run ::
  "(nat \<times> FromConnectorMessage) list \<Rightarrow> (nat \<times> FromConnectorMessage) list \<Rightarrow> FromConnectorMessage list \<Rightarrow>
   threads \<Rightarrow> bool" where
  pr_start: "par_run [] [] [] init_threads"
| pr_number: "par_run said ins outs s \<Longrightarrow> th_pc s t = Idle \<Longrightarrow> take_number x (th_shared s) = (sh, x') \<Longrightarrow>
    par_run (said @ [(t, x')]) ins outs (goto t (Lookup x') (s\<lparr>th_shared := sh\<rparr>))"
| pr_lookup: "par_run said ins outs s \<Longrightarrow> th_pc s t = Lookup x \<Longrightarrow>
    par_run said ins outs
      (goto t (case group_lookup (fm_RoomId x) (th_shared s) of None \<Rightarrow> Create x | Some a \<Rightarrow> Append x a) s)"
| pr_create: "par_run said ins outs s \<Longrightarrow> th_pc s t = Create x \<Longrightarrow> th_consumer s = Resting \<Longrightarrow>
    group_create (fm_RoomId x) (th_shared s) = (sh, a) \<Longrightarrow>
    par_run said ins outs (goto t (Append x a) (s\<lparr>th_shared := sh\<rparr>))"
| pr_append: "par_run said ins outs s \<Longrightarrow> th_pc s t = Append x a \<Longrightarrow> queue_add x a (th_shared s) = Some sh \<Longrightarrow>
    par_run said (ins @ [(t, x)]) outs (goto t Idle (s\<lparr>th_shared := sh\<rparr>))"
| pr_drain: "par_run said ins outs s \<Longrightarrow> th_consumer s = Resting \<Longrightarrow>
    range_order (case sh_group (th_shared s) of None \<Rightarrow> [] | Some grp \<Rightarrow> grp) order \<Longrightarrow>
    par_run said ins outs (s\<lparr>th_consumer := Visiting order [] 0\<rparr>)"
| pr_visit: "par_run said ins outs s \<Longrightarrow> th_consumer s = Visiting (room # rooms) msgs totalRestSize \<Longrightarrow>
    group_lookup room (th_shared s) = Some a \<Longrightarrow> queue_drain msgs 10000 a (th_shared s) = (msgs', restSize, sh) \<Longrightarrow>
    par_run said ins (outs @ drop (length msgs) msgs')
      (s\<lparr>th_shared := sh, th_consumer := Visiting rooms msgs' (totalRestSize + restSize)\<rparr>)"
| pr_done: "par_run said ins outs s \<Longrightarrow> th_consumer s = Visiting [] msgs totalRestSize \<Longrightarrow>
    par_run said ins outs (s\<lparr>th_consumer := Resting\<rparr>)"

section \<open>Pointers stay valid\<close>

text \<open>
  A queue, once made, stays the queue of its room: entries of the group are neither replaced nor
  removed, two rooms never share a queue, and the address a handler has found is still that of the
  room when it adds its message.
\<close>

definition shared_ok :: "shared \<Rightarrow> bool" where
  "shared_ok sh \<longleftrightarrow>
     (\<forall>r a. group_lookup r sh = Some a \<longrightarrow> a < length (sh_queues sh)) \<and>
     (\<forall>r r' a. group_lookup r sh = Some a \<longrightarrow> group_lookup r' sh = Some a \<longrightarrow> r = r') \<and>
     (\<forall>grp. sh_group sh = Some grp \<longrightarrow> gomap_ok grp)"

definition pointers_ok :: "threads \<Rightarrow> bool" where
  "pointers_ok s \<longleftrightarrow> shared_ok (th_shared s) \<and>
     (\<forall>t x a. th_pc s t = Append x a \<longrightarrow> group_lookup (fm_RoomId x) (th_shared s) = Some a) \<and>
     (\<forall>rooms msgs n. th_consumer s = Visiting rooms msgs n \<longrightarrow>
        distinct rooms \<and> (\<forall>r \<in> set rooms. \<exists>a. group_lookup r (th_shared s) = Some a))"

lemma pointers_okD:
  assumes "pointers_ok s"
  shows "group_lookup r (th_shared s) = Some a \<Longrightarrow> a < length (sh_queues (th_shared s))"
    and "group_lookup r (th_shared s) = Some a \<Longrightarrow> group_lookup r' (th_shared s) = Some a \<Longrightarrow> r = r'"
    and "th_pc s t = Append x a \<Longrightarrow> group_lookup (fm_RoomId x) (th_shared s) = Some a"
    and "th_consumer s = Visiting rooms msgs n \<Longrightarrow> distinct rooms"
    and "th_consumer s = Visiting rooms msgs n \<Longrightarrow> q \<in> set rooms \<Longrightarrow> \<exists>a. group_lookup q (th_shared s) = Some a"
  using assms unfolding pointers_ok_def shared_ok_def by blast+

lemma goto_simps [simp]:
  "th_shared (goto t p s) = th_shared s" "th_consumer (goto t p s) = th_consumer s"
  "th_pc (goto t p s) u = (if u = t then p else th_pc s u)"
  by (simp_all add: goto_def)

lemma group_lookup_update [simp]:
  "group_lookup r (sh\<lparr>sh_queues := qs\<rparr>) = group_lookup r sh" "group_lookup r (sh\<lparr>sh_counter := n\<rparr>) = group_lookup r sh"
  by (simp_all add: group_lookup_def)

lemma take_number_shared:
  "take_number x sh = (sh', x') \<Longrightarrow>
   sh_queues sh' = sh_queues sh \<and> sh_group sh' = sh_group sh \<and> group_lookup r sh' = group_lookup r sh \<and> sh_counter sh' = sh_counter sh + 1 \<and>
   x' = x\<lparr>fm_MessageId := decimal (unat (sh_counter sh + 1))\<rparr>"
  by (auto simp: take_number_def Let_def)

text \<open>Making a queue that another handler has made in the meantime finds that one.\<close>

lemma group_create_found:
  assumes "group_create room sh = (sh', a)" and "group_lookup room sh = Some b"
  shows "a = b" "sh_queues sh' = sh_queues sh" "group_lookup r sh' = group_lookup r sh" "sh_counter sh' = sh_counter sh"
  using assms by (auto simp: group_create_def group_lookup_def Let_def split: option.splits)

lemma group_create_new:
  assumes "group_create room sh = (sh', a)" and "group_lookup room sh = None"
  shows "a = length (sh_queues sh)" "sh_queues sh' = sh_queues sh @ [NewMessageQueue]"
    "group_lookup r sh' = (if r = room then Some a else group_lookup r sh)" "sh_counter sh' = sh_counter sh"
  using assms by (auto simp: group_create_def group_lookup_def Let_def update_conv' split: option.splits)

lemma queue_add_shared:
  assumes "queue_add x a sh = Some sh'"
  obtains m where "MessageQueue_Add x (sh_queues sh ! a) = Some m" "sh_queues sh' = (sh_queues sh)[a := m]"
    "\<And>r. group_lookup r sh' = group_lookup r sh" "sh_counter sh' = sh_counter sh" "sh_group sh' = sh_group sh"
  using assms that by (auto simp: queue_add_def)

lemma queue_drain_shared:
  assumes "queue_drain msgs n a sh = (msgs', rest, sh')"
  obtains m where "MessageQueue_DrainTo msgs n (sh_queues sh ! a) = (msgs', rest, m)" "sh_queues sh' = (sh_queues sh)[a := m]"
    "\<And>r. group_lookup r sh' = group_lookup r sh" "sh_counter sh' = sh_counter sh" "sh_group sh' = sh_group sh"
  using assms that by (auto simp: queue_drain_def split: prod.splits)

lemma shared_ok_create:
  assumes "shared_ok sh" and "group_create room sh = (sh', a)"
  shows "shared_ok sh' \<and> group_lookup room sh' = Some a \<and> (\<forall>r b. group_lookup r sh = Some b \<longrightarrow> group_lookup r sh' = Some b)"
proof -
  have map: "\<forall>grp. sh_group sh' = Some grp \<longrightarrow> gomap_ok grp"
    using assms by (auto simp: group_create_def shared_ok_def Let_def gomap_simps split: option.splits)
  show ?thesis
  proof (cases "group_lookup room sh")
    case None
    note new = group_create_new [OF assms(2) None]
    have "group_lookup r sh \<noteq> Some (length (sh_queues sh))" for r
      using assms(1) by (auto simp: shared_ok_def)
    with assms(1) None map show ?thesis
      unfolding shared_ok_def by (auto simp: new less_SucI split: if_splits)
  next
    case (Some b)
    note found = group_create_found [OF assms(2) Some]
    show ?thesis using assms(1) Some map unfolding shared_ok_def by (auto simp: found)
  qed
qed

lemma shared_ok_queues:
  "shared_ok sh \<Longrightarrow> length (sh_queues sh') = length (sh_queues sh) \<Longrightarrow> sh_group sh' = sh_group sh \<Longrightarrow> shared_ok sh'"
  by (simp add: shared_ok_def group_lookup_def)

lemma pointers_ok_create:
  assumes "pointers_ok s" and "th_pc s t = Create x" and "th_consumer s = Resting"
    and "group_create (fm_RoomId x) (th_shared s) = (sh, a)"
  shows "pointers_ok (goto t (Append x a) (s\<lparr>th_shared := sh\<rparr>))"
  using assms(1,3) shared_ok_create [OF _ assms(4)] by (auto simp: pointers_ok_def)

lemma pointers_ok_run: "par_run said ins outs s \<Longrightarrow> pointers_ok s"
proof (induction rule: par_run.induct)
  case pr_start
  show ?case by (simp add: pointers_ok_def shared_ok_def init_threads_def group_lookup_def)
next
  case (pr_number said ins outs s t x sh x')
  with take_number_shared [OF pr_number.hyps(3)] show ?case
    by (auto simp: pointers_ok_def intro: shared_ok_queues)
next
  case (pr_lookup said ins outs s t x)
  then show ?case unfolding pointers_ok_def by (auto split: option.splits)
next
  case (pr_create said ins outs s t x sh a)
  then show ?case by (intro pointers_ok_create)
next
  case (pr_append said ins outs s t x a sh)
  obtain m where "sh_queues sh = (sh_queues (th_shared s))[a := m]"
    "\<And>r. group_lookup r sh = group_lookup r (th_shared s)" "sh_group sh = sh_group (th_shared s)"
    by (rule queue_add_shared [OF pr_append.hyps(3)]) blast
  with pr_append.IH show ?case by (auto simp: pointers_ok_def intro: shared_ok_queues)
next
  case (pr_drain said ins outs s order)
  have "\<exists>a. group_lookup r (th_shared s) = Some a" if "r \<in> set order" for r
    using pr_drain.hyps(3) that
    by (auto simp: range_order_def keys_of_conv group_lookup_def split: option.splits)
  with pr_drain show ?case unfolding pointers_ok_def by (auto simp: range_order_def)
next
  case (pr_visit said ins outs s room rooms msgs n a msgs' rest sh)
  obtain m where "sh_queues sh = (sh_queues (th_shared s))[a := m]"
    "\<And>r. group_lookup r sh = group_lookup r (th_shared s)" "sh_group sh = sh_group (th_shared s)"
    by (rule queue_drain_shared [OF pr_visit.hyps(4)]) blast
  with pr_visit.IH pr_visit.hyps(2) show ?case by (auto simp: pointers_ok_def intro: shared_ok_queues)
next
  case (pr_done said ins outs s msgs n)
  then show ?case unfolding pointers_ok_def by simp
qed

section \<open>Every queue has a history of its own\<close>

text \<open>The messages of one room, in the interleaved run, are a history of one queue as the contract
  \<open>bounded_fifo\<close> has it.\<close>

definition room_history ::
  "(nat \<times> FromConnectorMessage) list \<Rightarrow> FromConnectorMessage list \<Rightarrow> threads \<Rightarrow> string \<Rightarrow> bool" where
  "room_history ins outs s r \<longleftrightarrow>
     (case group_lookup r (th_shared s) of
        None \<Rightarrow> of_room r (map snd ins) = [] \<and> of_room r outs = []
      | Some a \<Rightarrow> mq.history NewMessageQueue (of_room r (map snd ins)) (of_room r outs) (sh_queues (th_shared s) ! a))"

lemma drain_slice:
  "MessageQueue_DrainTo msgs n m = (msgs', rest, m') \<Longrightarrow>
   mq_drain (nat (n - int (length msgs))) m = (drop (length msgs) msgs', m') \<and> set (drop (length msgs) msgs') \<subseteq> set (mq_queue m)"
  by (auto simp: MessageQueue_DrainTo_eq mq_drain_def Let_def drain_count_def dest: in_set_takeD)

lemma new_queue: "mq_queue NewMessageQueue = []" "mq_maxSize NewMessageQueue = 100"
  by (simp_all add: NewMessageQueue_def)

lemma queue_rooms:
  assumes "mq.history NewMessageQueue (of_room r xs) ys m" and "x \<in> set (mq_queue m)"
  shows "fm_RoomId x = r"
proof -
  have "subseq (ys @ mq_queue m) (of_room r xs)"
    by (rule mq.history_subseq [OF assms(1) mq_ok_New new_queue(1)])
  with assms(2) have "x \<in> set (of_room r xs)" by (auto elim: list_emb_set [where x = x])
  then show ?thesis by simp
qed

lemma of_room_same: "(\<And>x. x \<in> set xs \<Longrightarrow> fm_RoomId x = k) \<Longrightarrow> of_room r xs = (if r = k then xs else [])"
  by (auto simp: filter_empty_conv filter_id_conv)

lemma room_history_append:
  assumes "pointers_ok s" and "th_pc s t = Append x a" and "queue_add x a (th_shared s) = Some sh"
    and "\<And>r. room_history ins outs s r"
  shows "room_history (ins @ [(t, x)]) outs (goto t Idle (s\<lparr>th_shared := sh\<rparr>)) r"
proof -
  note at = pointers_okD(3) [OF assms(1,2)]
  obtain m where m: "MessageQueue_Add x (sh_queues (th_shared s) ! a) = Some m"
    "sh_queues sh = (sh_queues (th_shared s))[a := m]" "\<And>r. group_lookup r sh = group_lookup r (th_shared s)"
    by (rule queue_add_shared [OF assms(3)]) blast
  show ?thesis
  proof (cases "r = fm_RoomId x")
    case True
    have "mq.history NewMessageQueue (of_room r (map snd ins) @ [x]) (of_room r outs) m"
      using assms(4) [of r] at True by (intro mq.history.added [OF _ m(1)]) (simp add: room_history_def)
    with True at pointers_okD(1) [OF assms(1) at] show ?thesis by (simp add: room_history_def m(2,3))
  next
    case False
    then have "group_lookup r (th_shared s) \<noteq> Some a" using pointers_okD(2) [OF assms(1) at] by blast
    with False assms(4) [of r] show ?thesis
      by (auto simp: room_history_def m(2,3) split: option.splits)
  qed
qed

lemma room_history_visit:
  assumes "pointers_ok s" and "group_lookup room (th_shared s) = Some a"
    and "queue_drain msgs n a (th_shared s) = (msgs', rest, sh)" and "\<And>r. room_history ins outs s r"
  shows "room_history ins (outs @ drop (length msgs) msgs') (s\<lparr>th_shared := sh, th_consumer := c\<rparr>) r"
proof -
  let ?out = "drop (length msgs) msgs'"
  obtain m where m: "MessageQueue_DrainTo msgs n (sh_queues (th_shared s) ! a) = (msgs', rest, m)"
    "sh_queues sh = (sh_queues (th_shared s))[a := m]" "\<And>r. group_lookup r sh = group_lookup r (th_shared s)"
    by (rule queue_drain_shared [OF assms(3)]) blast
  note d = drain_slice [OF m(1)]
  have h: "mq.history NewMessageQueue (of_room room (map snd ins)) (of_room room outs) (sh_queues (th_shared s) ! a)"
    using assms(4) [of room] assms(2) by (simp add: room_history_def)
  have out: "of_room r ?out = (if r = room then ?out else [])" for r
    by (rule of_room_same) (use queue_rooms [OF h] d in blast)
  show ?thesis
  proof (cases "r = room")
    case True
    from mq.history.drained [OF h conjunct1 [OF d]] True assms(2) pointers_okD(1) [OF assms(1,2)]
    show ?thesis by (simp add: room_history_def m(2,3) out)
  next
    case False
    then have "group_lookup r (th_shared s) \<noteq> Some a" using pointers_okD(2) [OF assms(1,2)] by blast
    with False assms(4) [of r] show ?thesis
      by (auto simp: room_history_def m(2,3) out split: option.splits)
  qed
qed

lemma room_history_create:
  assumes "pointers_ok s" and "group_create room (th_shared s) = (sh, a)" and "room_history ins outs s r"
  shows "room_history ins outs (goto t p (s\<lparr>th_shared := sh\<rparr>)) r"
proof (cases "group_lookup room (th_shared s)")
  case None
  note new = group_create_new [OF assms(2) None]
  show ?thesis
    using assms(3) None pointers_okD(1) [OF assms(1)]
    by (auto simp: room_history_def new nth_append mq.history.start split: option.splits)
next
  case (Some b)
  from assms(3) show ?thesis
    by (simp add: room_history_def group_create_found [OF assms(2) Some] cong: option.case_cong)
qed

lemma room_history_run: "par_run said ins outs s \<Longrightarrow> \<forall>r. room_history ins outs s r"
proof (induction rule: par_run.induct)
  case pr_start
  show ?case by (simp add: room_history_def init_threads_def group_lookup_def)
next
  case (pr_number said ins outs s t x sh x')
  then show ?case
    by (simp add: room_history_def take_number_shared [OF pr_number.hyps(3)] cong: option.case_cong)
next
  case (pr_lookup said ins outs s t x)
  then show ?case by (simp add: room_history_def cong: option.case_cong)
next
  case (pr_create said ins outs s t x sh a)
  then show ?case by (blast intro: room_history_create pointers_ok_run)
next
  case (pr_append said ins outs s t x a sh)
  then show ?case by (blast intro: room_history_append pointers_ok_run)
next
  case (pr_drain said ins outs s order)
  then show ?case by (simp add: room_history_def cong: option.case_cong)
next
  case (pr_visit said ins outs s room rooms msgs n a msgs' rest sh)
  from room_history_visit [OF pointers_ok_run [OF pr_visit.hyps(1)] pr_visit.hyps(3,4)] pr_visit.IH show ?case by blast
next
  case (pr_done said ins outs s msgs n)
  then show ?case by (simp add: room_history_def cong: option.case_cong)
qed

section \<open>Numbers and threads\<close>

text \<open>The message a handler is carrying.\<close>

fun carried :: "producer \<Rightarrow> FromConnectorMessage list" where
  "carried Idle = []"
| "carried (Lookup x) = [x]"
| "carried (Create x) = [x]"
| "carried (Append x a) = [x]"

abbreviation of_thread :: "nat \<Rightarrow> (nat \<times> FromConnectorMessage) list \<Rightarrow> FromConnectorMessage list" where
  "of_thread t xs \<equiv> map snd (filter (\<lambda>p. fst p = t) xs)"

lemma par_run_threads:
  "par_run said ins outs s \<Longrightarrow> of_thread t said = of_thread t ins @ carried (th_pc s t)"
  by (induction rule: par_run.induct) (auto simp: init_threads_def split: option.split)

lemma par_run_numbers:
  "par_run said ins outs s \<Longrightarrow>
   map (fm_MessageId \<circ> snd) said = map (\<lambda>i. decimal (Suc i mod 2 ^ 64)) [0..<length said] \<and>
   sh_counter (th_shared s) = of_nat (length said)"
proof (induction rule: par_run.induct)
  case pr_start
  show ?case by (simp add: init_threads_def)
next
  case (pr_number said ins outs s t x sh x')
  from take_number_shared [OF pr_number.hyps(3), of undefined] pr_number.IH show ?case
    by (simp add: unat_next)
next
  case (pr_create said ins outs s t x sh a)
  then show ?case
    by (cases "group_lookup (fm_RoomId x) (th_shared s)")
      (simp_all add: group_create_new [OF pr_create.hyps(4)] group_create_found [OF pr_create.hyps(4)])
next
  case (pr_append said ins outs s t x a sh)
  then show ?case by (auto elim: queue_add_shared)
next
  case (pr_visit said ins outs s room rooms msgs n a msgs' rest sh)
  then show ?case by (auto elim: queue_drain_shared)
qed simp_all

section \<open>Correctness\<close>

definition par_waiting :: "threads \<Rightarrow> string \<Rightarrow> FromConnectorMessage list" where
  "par_waiting s r =
     (case group_lookup r (th_shared s) of None \<Rightarrow> [] | Some a \<Rightarrow> mq_queue (sh_queues (th_shared s) ! a))"

text \<open>
  C2: The locks of the chat queues suffice. However the handlers and the consumer are interleaved,
  no message is lost between lookup and addition, duplicated, or put into a queue that the consumer
  does not see: the messages with numbers of a thread are those it has added, in this order, and the
  one it carries; room by room, what was collected followed by what waits is a subsequence of
  what was added, in which the newest 100 messages are all there; and at most 100 messages of a room wait.
\<close>

theorem interleaved_queues_fifo:
  assumes "par_run said ins outs s"
  shows "of_thread t said = of_thread t ins @ carried (th_pc s t) \<and>
    map (fm_MessageId \<circ> snd) said = map (\<lambda>i. decimal (Suc i mod 2 ^ 64)) [0..<length said] \<and>
    subseq (of_room r outs @ par_waiting s r) (of_room r (map snd ins)) \<and>
    last_n 100 (of_room r outs @ par_waiting s r) = last_n 100 (of_room r (map snd ins)) \<and>
    length (par_waiting s r) \<le> 100"
proof (intro conjI)
  have h: "room_history ins outs s r" using room_history_run [OF assms] by blast
  show "subseq (of_room r outs @ par_waiting s r) (of_room r (map snd ins))"
    using h mq.history_subseq [OF _ mq_ok_New new_queue(1)]
    by (auto simp: room_history_def par_waiting_def split: option.splits)
  show "last_n 100 (of_room r outs @ par_waiting s r) = last_n 100 (of_room r (map snd ins))"
    using h mq.history_newest [OF _ mq_ok_New new_queue(1)] new_queue(2)
    by (auto simp: room_history_def par_waiting_def split: option.splits)
  show "length (par_waiting s r) \<le> 100"
    using h mq.history_inv [OF _ mq_ok_New] new_queue(2)
    by (fastforce simp: room_history_def par_waiting_def mq_ok_def split: option.splits)
qed (use par_run_threads [OF assms] par_run_numbers [OF assms] in auto)

section \<open>Without interruption\<close>

text \<open>
  The operations of \<open>Message_Queue\<close> treat the queues of a group as values and run in one step.
  They are what the critical sections do when nothing comes between them.
\<close>

definition abs_group :: "shared \<Rightarrow> MessageQueueGroup" where
  "abs_group sh = map_option (deref_map (sh_queues sh)) (sh_group sh)"

definition add_alone :: "FromConnectorMessage \<Rightarrow> shared \<Rightarrow> shared option" where
  "add_alone x sh =
     (case group_lookup (fm_RoomId x) sh of
        Some a \<Rightarrow> queue_add x a sh
      | None \<Rightarrow> (let (sh, a) = group_create (fm_RoomId x) sh in queue_add x a sh))"

fun visit_alone ::
  "int \<Rightarrow> string list \<Rightarrow> FromConnectorMessage list \<times> nat \<times> shared \<Rightarrow> FromConnectorMessage list \<times> nat \<times> shared" where
  "visit_alone n [] s = s"
| "visit_alone n (r # rs) (msgs, done_size, sh) =
     (case group_lookup r sh of
        None \<Rightarrow> visit_alone n rs (msgs, done_size, sh)
      | Some a \<Rightarrow> (let (msgs, rest, sh) = queue_drain msgs n a sh in visit_alone n rs (msgs, done_size + rest, sh)))"

lemma shared_ok_pointers: "shared_ok sh \<Longrightarrow> sh_group sh = Some grp \<Longrightarrow> pointers_distinct (sh_queues sh) grp"
  by (auto simp: shared_ok_def pointers_distinct_def group_lookup_def)

lemma abs_group_update:
  assumes "shared_ok sh" and "group_lookup r sh = Some a"
  shows "\<exists>grp. abs_group sh = Some grp \<and> map_of grp r = Some (sh_queues sh ! a) \<and>
    abs_group (sh\<lparr>sh_queues := (sh_queues sh)[a := q]\<rparr>) = Some (AList.update r q grp)"
proof -
  obtain grp where g: "sh_group sh = Some grp" "map_of grp r = Some a"
    using assms(2) by (auto simp: group_lookup_def split: option.splits)
  from deref_map_update [OF shared_ok_pointers [OF assms(1) g(1)] g(2)] g show ?thesis by (simp add: abs_group_def)
qed

lemma queue_add_abs:
  assumes "shared_ok sh" and "group_lookup (fm_RoomId x) sh = Some a"
  shows "map_option abs_group (queue_add x a sh) = MessageQueueGroup_Add x (abs_group sh)"
proof -
  from abs_group_update [OF assms] obtain grp where "abs_group sh = Some grp"
    "map_of grp (fm_RoomId x) = Some (sh_queues sh ! a)"
    "\<And>q. abs_group (sh\<lparr>sh_queues := (sh_queues sh)[a := q]\<rparr>) = Some (AList.update (fm_RoomId x) q grp)"
    by (metis option.inject)
  then show ?thesis
    by (simp add: queue_add_def MessageQueueGroup_Add_def room_queue_def option.map_comp o_def)
qed

lemma abs_group_create:
  assumes "shared_ok sh" and "group_lookup room sh = None" and "group_create room sh = (sh', a)"
  shows "abs_group sh' = Some (AList.update room NewMessageQueue (case abs_group sh of None \<Rightarrow> [] | Some grp \<Rightarrow> grp))"
    and "\<And>grp. abs_group sh = Some grp \<Longrightarrow> map_of grp room = None"
proof -
  let ?grp = "case sh_group sh of None \<Rightarrow> [] | Some grp \<Rightarrow> grp"
  have none: "map_of ?grp room = None" using assms(2) by (simp add: group_lookup_def split: option.splits)
  have "pointers_distinct (sh_queues sh) ?grp"
    using shared_ok_pointers [OF assms(1)] by (auto simp: pointers_distinct_def split: option.split)
  from deref_map_new [OF this none, of NewMessageQueue]
  show "abs_group sh' = Some (AList.update room NewMessageQueue (case abs_group sh of None \<Rightarrow> [] | Some grp \<Rightarrow> grp))"
    using assms(3) none
    by (cases "sh_group sh") (auto simp: abs_group_def group_create_def Let_def deref_map_def)
  show "\<And>grp. abs_group sh = Some grp \<Longrightarrow> map_of grp room = None"
    using none by (auto simp: abs_group_def)
qed

lemma add_alone_abs:
  assumes "shared_ok sh"
  shows "map_option abs_group (add_alone x sh) = MessageQueueGroup_Add x (abs_group sh)"
proof (cases "group_lookup (fm_RoomId x) sh")
  case (Some a)
  then show ?thesis by (simp add: add_alone_def queue_add_abs [OF assms])
next
  case None
  obtain sh' a where c: "group_create (fm_RoomId x) sh = (sh', a)" by fastforce
  note ok = shared_ok_create [OF assms c] and g = abs_group_create [OF assms None c]
  have "room_queue (fm_RoomId x) (abs_group sh') = room_queue (fm_RoomId x) (abs_group sh)"
    using g by (cases "abs_group sh") (simp_all add: room_queue_def Let_def gomap_simps)
  then have "MessageQueueGroup_Add x (abs_group sh') = MessageQueueGroup_Add x (abs_group sh)"
    by (simp add: MessageQueueGroup_Add_def)
  with None c queue_add_abs [of sh' x a] ok show ?thesis by (simp add: add_alone_def)
qed

lemma visit_alone_abs:
  assumes "shared_ok sh" and "abs_group sh = Some grp"
  shows "\<exists>sh' grp'. visit_alone n rs (msgs, done_size, sh) = (fst (drain_rooms n rs (msgs, done_size, grp)),
      fst (snd (drain_rooms n rs (msgs, done_size, grp))), sh') \<and>
    snd (snd (drain_rooms n rs (msgs, done_size, grp))) = grp' \<and> abs_group sh' = Some grp' \<and> shared_ok sh'"
  using assms
proof (induction rs arbitrary: msgs done_size sh grp)
  case (Cons r rs)
  have look: "map_of grp r = map_option (\<lambda>a. sh_queues sh ! a) (group_lookup r sh)"
    using Cons.prems(2) by (auto simp: abs_group_def group_lookup_def)
  show ?case
  proof (cases "group_lookup r sh")
    case None
    with look Cons show ?thesis by simp
  next
    case (Some a)
    obtain msgs' rest v where d: "MessageQueue_DrainTo msgs n (sh_queues sh ! a) = (msgs', rest, v)" by (metis prod_cases3)
    let ?sh = "sh\<lparr>sh_queues := (sh_queues sh)[a := v]\<rparr>"
    have "shared_ok ?sh" using Cons.prems(1) by (rule shared_ok_queues) simp_all
    moreover have "abs_group ?sh = Some (AList.update r v grp)"
      using abs_group_update [OF Cons.prems(1) Some, of v] Cons.prems(2) by auto
    ultimately show ?thesis
      using Cons.IH [of ?sh "AList.update r v grp" msgs' "done_size + rest"] Some look d
      by (simp add: queue_drain_def)
  qed
qed auto

text \<open>
  C21: The atomic operations of the model are the uninterrupted executions of the critical sections:
  looking a queue up, making it if need be and adding to it is \<^verbatim>\<open>MessageQueueGroup.Add\<close> on the
  values the pointers stand for, and visiting the rooms one after the other is
  \<^verbatim>\<open>MessageQueueGroup.DrainTo\<close>, in every state that an interleaved run can reach.
\<close>

theorem atomic_operations_refined:
  assumes "par_run said ins outs s" and "sh = th_shared s"
    and "visit_alone 10000 order ([], 0, sh) = (msgs, rest, sh')"
  shows "map_option abs_group (add_alone x sh) = MessageQueueGroup_Add x (abs_group sh) \<and>
    MessageQueueGroup_DrainTo order [] 10000 (abs_group sh) = (msgs, rest, abs_group sh')"
proof
  have ok: "shared_ok sh" using pointers_ok_run [OF assms(1)] assms(2) by (simp add: pointers_ok_def)
  then show "map_option abs_group (add_alone x sh) = MessageQueueGroup_Add x (abs_group sh)" by (rule add_alone_abs)
  show "MessageQueueGroup_DrainTo order [] 10000 (abs_group sh) = (msgs, rest, abs_group sh')"
  proof (cases "abs_group sh")
    case None
    then have "group_lookup r sh = None" for r by (simp add: abs_group_def group_lookup_def)
    then have "visit_alone n rs (m, k, sh) = (m, k, sh)" for n rs m k by (induction rs) simp_all
    with None assms(3) show ?thesis by (simp add: MessageQueueGroup_DrainTo_def)
  next
    case (Some grp)
    from visit_alone_abs [OF ok Some, of 10000 order "[]" 0] assms(3) Some show ?thesis
      by (auto simp: MessageQueueGroup_DrainTo_def split: prod.split)
  qed
qed

section \<open>Every handler finishes\<close>

text \<open>
  The steps after a number was taken and after a drain has begun. With \<open>polite\<close> a lookup waits
  for the handlers that are about to make a queue: a Go \<^verbatim>\<open>RWMutex\<close> admits no reader while a writer
  is waiting for it.
\<close>

type_synonym progress = "(nat \<times> FromConnectorMessage) list \<times> FromConnectorMessage list \<times> threads"

inductive inner_step :: "bool \<Rightarrow> progress \<Rightarrow> progress \<Rightarrow> bool" for polite where
  in_lookup: "th_pc s t = Lookup x \<Longrightarrow> \<not> (polite \<and> (\<exists>u y. th_pc s u = Create y)) \<Longrightarrow>
    inner_step polite (ins, outs, s)
      (ins, outs, goto t (case group_lookup (fm_RoomId x) (th_shared s) of None \<Rightarrow> Create x | Some a \<Rightarrow> Append x a) s)"
| in_create: "th_pc s t = Create x \<Longrightarrow> th_consumer s = Resting \<Longrightarrow>
    group_create (fm_RoomId x) (th_shared s) = (sh, a) \<Longrightarrow>
    inner_step polite (ins, outs, s) (ins, outs, goto t (Append x a) (s\<lparr>th_shared := sh\<rparr>))"
| in_append: "th_pc s t = Append x a \<Longrightarrow> queue_add x a (th_shared s) = Some sh \<Longrightarrow>
    inner_step polite (ins, outs, s) (ins @ [(t, x)], outs, goto t Idle (s\<lparr>th_shared := sh\<rparr>))"
| in_visit: "th_consumer s = Visiting (room # rooms) msgs totalRestSize \<Longrightarrow>
    group_lookup room (th_shared s) = Some a \<Longrightarrow> queue_drain msgs 10000 a (th_shared s) = (msgs', restSize, sh) \<Longrightarrow>
    inner_step polite (ins, outs, s) (ins, outs @ drop (length msgs) msgs',
      s\<lparr>th_shared := sh, th_consumer := Visiting rooms msgs' (totalRestSize + restSize)\<rparr>)"
| in_done: "th_consumer s = Visiting [] msgs totalRestSize \<Longrightarrow>
    inner_step polite (ins, outs, s) (ins, outs, s\<lparr>th_consumer := Resting\<rparr>)"

lemma inner_step_run:
  assumes "inner_step polite c d" and "par_run said (fst c) (fst (snd c)) (snd (snd c))"
  shows "par_run said (fst d) (fst (snd d)) (snd (snd d))"
  using assms by (cases rule: inner_step.cases) (auto intro: par_run.intros)

fun todo :: "producer \<Rightarrow> nat" where
  "todo Idle = 0"
| "todo (Append x a) = 1"
| "todo (Create x) = 2"
| "todo (Lookup x) = 3"

fun rooms_left :: "consumer \<Rightarrow> nat" where
  "rooms_left Resting = 0"
| "rooms_left (Visiting rooms msgs n) = Suc (length rooms)"

text \<open>The steps that are left at most, of the handlers \<open>ts\<close> and of the consumer.\<close>

definition work :: "nat list \<Rightarrow> threads \<Rightarrow> nat" where
  "work ts s = sum_list (map (\<lambda>t. todo (th_pc s t)) ts) + rooms_left (th_consumer s)"

lemma sum_list_less:
  assumes "t \<in> set ts" and "f t < (g t :: nat)" and "\<And>u. f u \<le> g u"
  shows "sum_list (map f ts) < sum_list (map g ts)"
  using assms(1)
proof (induction ts)
  case (Cons u us)
  have "sum_list (map f us) \<le> sum_list (map g us)" by (simp add: assms(3) sum_list_mono)
  with Cons assms(2) assms(3) [of u] show ?case by (auto simp: add_less_le_mono add_le_less_mono)
qed simp

lemma work_goto:
  assumes "t \<in> set ts" and "todo p < todo (th_pc s t)" and "th_pc s' = th_pc s" and "th_consumer s' = th_consumer s"
  shows "work ts (goto t p s') < work ts s"
  unfolding work_def using assms by (auto intro!: sum_list_less)

lemma par_run_idle: "par_run said ins outs s \<Longrightarrow> t \<notin> fst ` set said \<Longrightarrow> th_pc s t = Idle"
proof -
  assume "par_run said ins outs s" and "t \<notin> fst ` set said"
  then have "filter (\<lambda>p. fst p = t) said = []" by (auto simp: filter_empty_conv)
  with par_run_threads [OF \<open>par_run said ins outs s\<close>, of t] have "carried (th_pc s t) = []" by simp
  then show "th_pc s t = Idle" by (cases "th_pc s t") simp_all
qed

lemma inner_step_work:
  assumes "inner_step polite c d" and "par_run said (fst c) (fst (snd c)) (snd (snd c))"
  shows "work (map fst said) (snd (snd d)) < work (map fst said) (snd (snd c))"
proof -
  have busy: "t \<in> set (map fst said)" if "th_pc (snd (snd c)) t \<noteq> Idle" for t
    unfolding set_map using par_run_idle [OF assms(2), of t] that by blast
  from assms(1) show ?thesis
  proof (cases rule: inner_step.cases)
    case (in_lookup s t x ins outs)
    with busy [of t] show ?thesis by (simp add: work_goto split: option.split)
  next
    case (in_create s t x sh a ins outs)
    with busy [of t] show ?thesis by (simp add: work_goto)
  next
    case (in_append s t x a sh ins outs)
    with busy [of t] show ?thesis by (simp add: work_goto)
  qed (simp_all add: work_def)
qed



lemma inner_steps_run:
  "(inner_step polite ^^ n) c d \<Longrightarrow> par_run said (fst c) (fst (snd c)) (snd (snd c)) \<Longrightarrow>
   par_run said (fst d) (fst (snd d)) (snd (snd d)) \<and>
   n + work (map fst said) (snd (snd d)) \<le> work (map fst said) (snd (snd c))"
proof (induction n arbitrary: d)
  case (Suc n)
  then obtain e where e: "(inner_step polite ^^ n) c e" "inner_step polite e d" by auto
  from Suc.IH [OF e(1) Suc.prems(2)] inner_step_run [OF e(2)] inner_step_work [OF e(2)] show ?case by fastforce
qed simp










section \<open>Numbers may be overtaken\<close>

text \<open>
  A handler takes its number before it takes the lock of the queue, so another may come in between.
  Two handlers of one new room: both find no queue, the second makes it and adds number 2, the first
  finds it there and adds number 1; the consumer collects 2 before 1.
\<close>

definition two_handlers :: "producer \<Rightarrow> producer \<Rightarrow> consumer \<Rightarrow> MessageQueue list \<Rightarrow> threads" where
  "two_handlers p0 p1 c qs = \<lparr>th_shared = \<lparr>sh_queues = qs, sh_group = (if qs = [] then None else Some [(''r'', 0)]),
     sh_counter = 2\<rparr>, th_pc = (\<lambda>t. if t = 0 then p0 else if t = 1 then p1 else Idle), th_consumer = c\<rparr>"

lemma two_handlers_simps [simp]:
  "sh_queues (th_shared (two_handlers p0 p1 c qs)) = qs" "th_consumer (two_handlers p0 p1 c qs) = c"
  "th_pc (two_handlers p0 p1 c qs) 0 = p0" "th_pc (two_handlers p0 p1 c qs) (Suc 0) = p1"
  "group_lookup ''r'' (th_shared (two_handlers p0 p1 c qs)) = (if qs = [] then None else Some 0)"
  "goto 0 p (two_handlers p0 p1 c qs) = two_handlers p p1 c qs"
  "goto (Suc 0) p (two_handlers p0 p1 c qs) = two_handlers p0 p c qs"
  "two_handlers p0 p1 c qs\<lparr>th_consumer := c'\<rparr> = two_handlers p0 p1 c' qs"
  by (auto simp: two_handlers_def goto_def group_lookup_def)

lemma two_handlers_shared:
  "qs' \<noteq> [] \<Longrightarrow> two_handlers p0 p1 c qs\<lparr>th_shared := \<lparr>sh_queues = qs', sh_group = Some [(''r'', 0)], sh_counter = 2\<rparr>\<rparr> =
   two_handlers p0 p1 c qs'"
  by (simp add: two_handlers_def)

lemma first_decimals: "decimal (Suc 0) = ''1''" "decimal 2 = ''2''"
  by code_simp+

text \<open>Both have looked in vain; the second has made the queue and added its message.\<close>

lemma overtaken_start:
  defines "x \<equiv> sample_msg ''1'' ''r''" and "y \<equiv> sample_msg ''2'' ''r''"
  shows "par_run [(0, x), (1, y)] [(1, y)] [] (two_handlers (Create x) Idle Resting [NewMessageQueue\<lparr>mq_queue := [y]\<rparr>])"
proof -
  let ?s1 = "goto 0 (Lookup x) (init_threads\<lparr>th_shared := \<lparr>sh_queues = [], sh_group = None, sh_counter = 1\<rparr>\<rparr>)"
  have "par_run ([] @ [(0, x)]) [] [] ?s1"
    by (rule pr_number [OF pr_start, of 0 "sample_msg '''' ''r''"])
      (simp_all add: init_threads_def take_number_def sample_msg_def x_def first_decimals)
  then have "par_run ([(0, x)] @ [(1, y)]) [] [] (goto 1 (Lookup y) (?s1\<lparr>th_shared := \<lparr>sh_queues = [], sh_group = None, sh_counter = 2\<rparr>\<rparr>))"
    by (intro pr_number [where x = "sample_msg '''' ''r''"])
      (simp_all add: init_threads_def take_number_def sample_msg_def y_def first_decimals)
  moreover have "goto 1 (Lookup y) (?s1\<lparr>th_shared := \<lparr>sh_queues = [], sh_group = None, sh_counter = 2\<rparr>\<rparr>) =
      two_handlers (Lookup x) (Lookup y) Resting []"
    by (auto simp: two_handlers_def goto_def init_threads_def)
  ultimately have "par_run [(0, x), (1, y)] [] [] (two_handlers (Lookup x) (Lookup y) Resting [])" by simp
  from pr_lookup [OF this, of 0 x] have "par_run [(0, x), (1, y)] [] [] (two_handlers (Create x) (Lookup y) Resting [])"
    by (simp add: x_def)
  from pr_lookup [OF this, of 1 y] have "par_run [(0, x), (1, y)] [] [] (two_handlers (Create x) (Create y) Resting [])"
    by (simp add: y_def)
  from pr_create [OF this, of 1 y "\<lparr>sh_queues = [NewMessageQueue], sh_group = Some [(''r'', 0)], sh_counter = 2\<rparr>" 0]
  have "par_run [(0, x), (1, y)] [] [] (two_handlers (Create x) (Append y 0) Resting [NewMessageQueue])"
    by (simp add: two_handlers_shared) (simp add: two_handlers_def group_create_def y_def)
  from pr_append [OF this, of 1 y 0 "\<lparr>sh_queues = [NewMessageQueue\<lparr>mq_queue := [y]\<rparr>], sh_group = Some [(''r'', 0)], sh_counter = 2\<rparr>"]
  show ?thesis
    by (simp add: two_handlers_shared)
      (simp add: two_handlers_def queue_add_def MessageQueue_Add_ok NewMessageQueue_def mq_ok_def)
qed

lemma overtaken_steps:
  defines "x \<equiv> sample_msg ''1'' ''r''" and "y \<equiv> sample_msg ''2'' ''r''"
  shows "(inner_step polite ^^ 2) ([(1, y)], [], two_handlers (Create x) Idle Resting [NewMessageQueue\<lparr>mq_queue := [y]\<rparr>])
    ([(1, y), (0, x)], [], two_handlers Idle Idle Resting [NewMessageQueue\<lparr>mq_queue := [y, x]\<rparr>])"
proof -
  let ?s = "\<lambda>p es. two_handlers p Idle Resting [NewMessageQueue\<lparr>mq_queue := es\<rparr>]"
  let ?sh = "\<lambda>es. \<lparr>sh_queues = [NewMessageQueue\<lparr>mq_queue := es\<rparr>], sh_group = Some [(''r'', 0)], sh_counter = 2\<rparr>"
  have "inner_step polite ([(1, y)], [], ?s (Create x) [y]) ([(1, y)], [], ?s (Append x 0) [y])"
    using in_create [of "?s (Create x) [y]" 0 x "?sh [y]" 0]
    by (simp add: two_handlers_shared) (simp add: two_handlers_def group_create_def x_def)
  moreover have "inner_step polite ([(1, y)], [], ?s (Append x 0) [y]) ([(1, y), (0, x)], [], ?s Idle [y, x])"
    using in_append [of "?s (Append x 0) [y]" 0 x 0 "?sh [y, x]" polite "[(1, y)]"]
    by (simp add: two_handlers_shared)
      (simp add: two_handlers_def queue_add_def MessageQueue_Add_ok NewMessageQueue_def mq_ok_def)
  ultimately show ?thesis unfolding numeral_2_eq_2 by auto
qed

lemmas overtaken_added = inner_steps_run [OF overtaken_steps, unfolded fst_conv snd_conv, OF overtaken_start, THEN conjunct1]

theorem numbers_overtaken:
  "\<exists>said ins outs s. par_run said ins outs s \<and> map (fm_MessageId \<circ> snd) said = [''1'', ''2''] \<and>
     map fm_RoomId outs = [''r'', ''r''] \<and> map fm_MessageId outs = [''2'', ''1'']"
proof -
  let ?x = "sample_msg ''1'' ''r''" and ?y = "sample_msg ''2'' ''r''"
  let ?q = "\<lambda>es. NewMessageQueue\<lparr>mq_queue := es\<rparr>"
  from pr_drain [OF overtaken_added, of "[''r'']"]
  have "par_run [(0, ?x), (1, ?y)] [(1, ?y), (0, ?x)] [] (two_handlers Idle Idle (Visiting [''r''] [] 0) [?q [?y, ?x]])"
    by (simp add: range_order_def keys_of_def) (simp add: two_handlers_def)
  from pr_visit [OF this, of "''r''" "[]" "[]" 0 0 "[?y, ?x]" 0
      "\<lparr>sh_queues = [?q []], sh_group = Some [(''r'', 0)], sh_counter = 2\<rparr>"]
  obtain s where "par_run [(0, ?x), (1, ?y)] [(1, ?y), (0, ?x)] [?y, ?x] s"
    by simp (simp add: two_handlers_def queue_drain_def MessageQueue_DrainTo_def)
  then show ?thesis by (intro exI conjI) (assumption, simp_all add: sample_msg_def)
qed

section \<open>Instances\<close>

theorem interleaved_queues_fifo_witness:
  "\<exists>s. par_run [(0, sample_msg ''1'' ''r''), (1, sample_msg ''2'' ''r'')] [(1, sample_msg ''2'' ''r'')] [] s \<and>
     carried (th_pc s 0) = [sample_msg ''1'' ''r''] \<and>
     subseq (par_waiting s ''r'') [sample_msg ''2'' ''r''] \<and> par_waiting s ''r'' = [sample_msg ''2'' ''r'']"
  using interleaved_queues_fifo [OF overtaken_start, of 0 "''r''"] overtaken_start
  by (intro exI conjI) (assumption, auto simp: par_waiting_def)

theorem atomic_operations_refined_witness:
  "\<exists>sh. map_option abs_group (add_alone (sample_msg ''3'' ''r'') sh) = MessageQueueGroup_Add (sample_msg ''3'' ''r'') (abs_group sh) \<and>
     (\<exists>rest g. MessageQueueGroup_DrainTo [''r''] [] 10000 (abs_group sh) = ([sample_msg ''2'' ''r''], rest, g))"
proof -
  let ?sh = "th_shared (two_handlers (Create (sample_msg ''1'' ''r'')) Idle Resting [NewMessageQueue\<lparr>mq_queue := [sample_msg ''2'' ''r'']\<rparr>])"
  obtain rest sh' where "visit_alone 10000 [''r''] ([], 0, ?sh) = ([sample_msg ''2'' ''r''], rest, sh')"
    by (simp add: queue_drain_def MessageQueue_DrainTo_def)
  from atomic_operations_refined [OF overtaken_start refl this, of "sample_msg ''3'' ''r''"] show ?thesis by blast
qed



end
