(* ===== verification/Room_Threads.thy ===== *)
theory Room_Threads
  imports Subscriber
begin

text \<open>
  \<^verbatim>\<open>room.go\<close> and the delivery of router messages (\<^verbatim>\<open>subscribe.go\<close>) under concurrency.

  The maps of the rooms are objects. A delivery to a room fetches the map of the room under the lock
  of the room manager, gives the lock back, takes it again to read the users off the map it holds,
  and then, without that lock, looks every user up in the client manager and pushes the message
  to the client found. Entering a room is two critical sections too. Here the sections are single steps, and the steps
  of the other goroutines come between them.
\<close>

section \<open>State\<close>

text \<open>The state of the process with the maps of the rooms as objects: \<open>pl_rooms\<close> and \<open>pl_maps\<close> take the place
  of the component \<open>w_rooms\<close> of the world.\<close>

record plaza =
  pl_world :: world
  pl_rooms :: "(string, nat) gomap"
  pl_maps :: "(string, addr) gomap list"

definition plaza_world :: "plaza \<Rightarrow> world" where
  "plaza_world p = (pl_world p)\<lparr>w_rooms := deref_map (pl_maps p) (pl_rooms p)\<rparr>"

section \<open>Critical sections of the room manager\<close>

definition room_leave :: "string \<Rightarrow> addr \<Rightarrow> plaza \<Rightarrow> plaza" where
  "room_leave roomId c p =
     (let userId = c_ID (deref (pl_world p) c)
      in case map_of (pl_rooms p) roomId of
           None \<Rightarrow> p
         | Some a \<Rightarrow>
             if map_of (pl_maps p ! a) userId = Some c then
               (let m = AList.delete userId (pl_maps p ! a);
                    p = p\<lparr>pl_maps := (pl_maps p)[a := m]\<rparr>
                in if length m = 0 then p\<lparr>pl_rooms := AList.delete roomId (pl_rooms p)\<rparr> else p)
             else p)"

text \<open>The map of a room, made if there is none.\<close>

definition room_map :: "string \<Rightarrow> plaza \<Rightarrow> plaza \<times> nat" where
  "room_map roomId p =
     (case map_of (pl_rooms p) roomId of
        Some a \<Rightarrow> (p, a)
      | None \<Rightarrow>
          (p\<lparr>pl_maps := pl_maps p @ [[]], pl_rooms := AList.update roomId (length (pl_maps p)) (pl_rooms p)\<rparr>,
           length (pl_maps p)))"

definition room_join :: "addr \<Rightarrow> string \<Rightarrow> plaza \<Rightarrow> plaza" where
  "room_join c roomId p =
     (let userId = c_ID (deref (pl_world p) c);
          (p, a) = room_map roomId p;
          found = (map_of (pl_maps p ! a) userId = Some c);
          p = (if \<not> found then p\<lparr>pl_maps := (pl_maps p)[a := AList.update userId c (pl_maps p ! a)]\<rparr> else p)
      in p\<lparr>pl_world := upd_client c (\<lambda>x. x\<lparr>c_roomId := roomId\<rparr>) (pl_world p)\<rparr>)"

section \<open>The invariant\<close>

text \<open>Rooms do not share their maps, no room is empty, and a map that is no longer that of a room is empty.\<close>

definition plaza_ok :: "plaza \<Rightarrow> bool" where
  "plaza_ok p \<longleftrightarrow> pointers_distinct (pl_maps p) (pl_rooms p) \<and>
     (\<forall>a < length (pl_maps p). gomap_ok (pl_maps p ! a) \<and> (pl_maps p ! a = [] \<longleftrightarrow> (\<forall>r. map_of (pl_rooms p) r \<noteq> Some a)))"

lemma plaza_okD:
  assumes "plaza_ok p"
  shows "pointers_distinct (pl_maps p) (pl_rooms p)" and "map_of (pl_rooms p) r = Some a \<Longrightarrow> a < length (pl_maps p)"
    and "map_of (pl_rooms p) r = Some a \<Longrightarrow> map_of (pl_rooms p) s = Some a \<Longrightarrow> r = s"
    and "a < length (pl_maps p) \<Longrightarrow> gomap_ok (pl_maps p ! a)"
    and "a < length (pl_maps p) \<Longrightarrow> pl_maps p ! a = [] \<longleftrightarrow> (\<forall>r. map_of (pl_rooms p) r \<noteq> Some a)"
proof -
  show d: "pointers_distinct (pl_maps p) (pl_rooms p)" using assms by (simp add: plaza_ok_def)
  note pointers_distinctD [OF d]
  then show "map_of (pl_rooms p) r = Some a \<Longrightarrow> a < length (pl_maps p)"
    and "map_of (pl_rooms p) r = Some a \<Longrightarrow> map_of (pl_rooms p) s = Some a \<Longrightarrow> r = s" by blast+
qed (use assms in \<open>simp_all add: plaza_ok_def\<close>)

lemma plaza_ok_others:
  assumes "plaza_ok p" and "map_of (pl_rooms p) r = Some a" and "b < length (pl_maps p)"
  shows "b = a \<or> pl_maps p ! b = [] \<longleftrightarrow> (\<forall>s. s \<noteq> r \<longrightarrow> map_of (pl_rooms p) s \<noteq> Some b)"
proof (cases "b = a")
  case True
  have "s = r" if "map_of (pl_rooms p) s = Some a" for s by (rule plaza_okD(3) [OF assms(1) that assms(2)])
  with True show ?thesis by metis
next
  case False
  with assms(2) have "map_of (pl_rooms p) r \<noteq> Some b" by simp
  with plaza_okD(5) [OF assms(1,3)] False show ?thesis by metis
qed

lemma plaza_ok_leave:
  assumes "plaza_ok p"
  shows "plaza_ok (room_leave r c p)"
proof (cases "map_of (pl_rooms p) r")
  case None
  with assms show ?thesis by (simp add: room_leave_def)
next
  case (Some a)
  let ?u = "c_ID (deref (pl_world p) c)"
  let ?m = "AList.delete ?u (pl_maps p ! a)"
  note ok = plaza_okD [OF assms]
  show ?thesis
  proof (cases "map_of (pl_maps p ! a) ?u = Some c")
    case False
    with Some assms show ?thesis by (simp add: room_leave_def)
  next
    case True
    have d: "pointers_distinct ((pl_maps p)[a := ?m]) (pl_rooms p)"
      by (rule pointers_distinct_length [THEN iffD2, OF _ ok(1)]) simp
    note others = plaza_ok_others [OF assms Some]
    have leave: "room_leave r c p = (if ?m = [] then p\<lparr>pl_maps := (pl_maps p)[a := ?m], pl_rooms := AList.delete r (pl_rooms p)\<rparr>
        else p\<lparr>pl_maps := (pl_maps p)[a := ?m]\<rparr>)"
      using Some True by (simp add: room_leave_def Let_def)
    show ?thesis
    proof (cases "?m = []")
      case True
      with d others pointers_distinct_delete [OF d, of r] ok(2) [OF Some] ok(4) show ?thesis
        unfolding leave by (simp add: plaza_ok_def nth_list_update gomap_simps) metis
    next
      case False
      with d ok(2) [OF Some] ok(4,5) Some show ?thesis
        unfolding leave by (auto simp: plaza_ok_def nth_list_update)
    qed
  qed
qed

lemma room_map_found: "map_of (pl_rooms p) r = Some a \<Longrightarrow> room_map r p = (p, a)"
  by (simp add: room_map_def)

lemma room_join_eq:
  "room_join c r p =
     (let (q, a) = room_map r p; userId = c_ID (deref (pl_world p) c)
      in q\<lparr>pl_world := upd_client c (\<lambda>x. x\<lparr>c_roomId := r\<rparr>) (pl_world p),
           pl_maps := (if map_of (pl_maps q ! a) userId = Some c then pl_maps q
             else (pl_maps q)[a := AList.update userId c (pl_maps q ! a)])\<rparr>)"
  by (auto simp: room_join_def room_map_def Let_def split: option.split)

lemma room_map_ok:
  assumes "plaza_ok p" and "room_map r p = (q, a)"
  shows "map_of (pl_rooms q) r = Some a" and "a < length (pl_maps q)" and "pointers_distinct (pl_maps q) (pl_rooms q)"
    and "b < length (pl_maps q) \<Longrightarrow> gomap_ok (pl_maps q ! b)"
    and "b < length (pl_maps q) \<Longrightarrow> b \<noteq> a \<Longrightarrow> pl_maps q ! b = [] \<longleftrightarrow> (\<forall>s. map_of (pl_rooms q) s \<noteq> Some b)"
proof -
  note ok = plaza_okD [OF assms(1)]
  have "map_of (pl_rooms q) r = Some a \<and> a < length (pl_maps q) \<and> pointers_distinct (pl_maps q) (pl_rooms q) \<and>
    (b < length (pl_maps q) \<longrightarrow> gomap_ok (pl_maps q ! b) \<and>
      (b \<noteq> a \<longrightarrow> (pl_maps q ! b = [] \<longleftrightarrow> (\<forall>s. map_of (pl_rooms q) s \<noteq> Some b))))"
  proof (cases "map_of (pl_rooms p) r")
    case None
    with assms(2) have q: "q = p\<lparr>pl_maps := pl_maps p @ [[]], pl_rooms := AList.update r a (pl_rooms p)\<rparr>" "a = length (pl_maps p)"
      by (auto simp: room_map_def)
    have "b < length (pl_maps p) \<Longrightarrow> (\<forall>s. s \<noteq> r \<longrightarrow> map_of (pl_rooms p) s \<noteq> Some b) \<longleftrightarrow> pl_maps p ! b = []"
      using ok(5) None by (metis option.distinct(1))
    with pointers_distinct_new [OF ok(1), of "[]" r] ok(4) show ?thesis
      by (auto simp: q gomap_simps nth_append less_Suc_eq)
  next
    case (Some d)
    with assms(2) have "q = p" "a = d" by (simp_all add: room_map_found)
    with Some ok(1,4,5) ok(2) [OF Some] show ?thesis by simp
  qed
  then show "map_of (pl_rooms q) r = Some a" and "a < length (pl_maps q)" and "pointers_distinct (pl_maps q) (pl_rooms q)"
    and "b < length (pl_maps q) \<Longrightarrow> gomap_ok (pl_maps q ! b)"
    and "b < length (pl_maps q) \<Longrightarrow> b \<noteq> a \<Longrightarrow> pl_maps q ! b = [] \<longleftrightarrow> (\<forall>s. map_of (pl_rooms q) s \<noteq> Some b)"
    by blast+
qed

lemma plaza_ok_join:
  assumes "plaza_ok p"
  shows "plaza_ok (room_join c r p)"
proof -
  obtain q a where q: "room_map r p = (q, a)" by fastforce
  note ok = room_map_ok [OF assms q]
  let ?u = "c_ID (deref (pl_world p) c)"
  let ?m = "if map_of (pl_maps q ! a) ?u = Some c then pl_maps q ! a else AList.update ?u c (pl_maps q ! a)"
  have join: "room_join c r p = q\<lparr>pl_world := upd_client c (\<lambda>x. x\<lparr>c_roomId := r\<rparr>) (pl_world p), pl_maps := (pl_maps q)[a := ?m]\<rparr>"
    by (simp add: room_join_eq q)
  have "gomap_ok ?m" "?m \<noteq> []" using ok(4) [OF ok(2)] by (auto simp: update_nonempty)
  moreover have "pointers_distinct ((pl_maps q)[a := ?m]) (pl_rooms q)"
    by (rule pointers_distinct_length [THEN iffD2, OF _ ok(3)]) simp
  ultimately show ?thesis
    unfolding join plaza_ok_def using ok(1,2,4,5) by (auto simp: nth_list_update)
qed

section \<open>Without interruption\<close>

lemma plaza_world_deref [simp]: "deref (plaza_world p) c = deref (pl_world p) c"
  by (simp add: plaza_world_def)

lemma room_leave_abs:
  assumes "plaza_ok p"
  shows "plaza_world (room_leave r c p) = RoomManager_ending r c (plaza_world p)"
proof (cases "map_of (pl_rooms p) r")
  case None
  then show ?thesis
    by (simp add: room_leave_def RoomManager_ending_def rooms_ending_def) (simp add: plaza_world_def)
next
  case (Some a)
  note d = plaza_okD(1) [OF assms]
  note upd = deref_map_update [OF d Some]
  have del: "AList.delete r (AList.update r m rs) = AList.delete r rs" for m and rs :: rooms
    by (induction rs) auto
  from Some upd show ?thesis
    by (simp add: room_leave_def RoomManager_ending_def rooms_ending_def Let_def plaza_world_def deref_map_delete del)
qed

lemma room_join_abs:
  assumes "plaza_ok p"
  shows "plaza_world (room_join c r p) =
    upd_client c (\<lambda>x. x\<lparr>c_roomId := r\<rparr>) ((plaza_world p)\<lparr>w_rooms :=
      (let rs = (if map_of (w_rooms (plaza_world p)) r = None then AList.update r [] (w_rooms (plaza_world p)) else w_rooms (plaza_world p));
           userId = c_ID (deref (pl_world p) c)
       in if \<not> search rs r userId c
          then AList.update r (AList.update userId c (case map_of rs r of None \<Rightarrow> [] | Some m \<Rightarrow> m)) rs else rs)\<rparr>)"
proof -
  obtain q a where q: "room_map r p = (q, a)" by fastforce
  note ok = room_map_ok [OF assms q]
  have rs: "deref_map (pl_maps q) (pl_rooms q) =
      (if map_of (w_rooms (plaza_world p)) r = None then AList.update r [] (w_rooms (plaza_world p)) else w_rooms (plaza_world p))"
    using q deref_map_new [OF plaza_okD(1) [OF assms], of r "[]"]
    by (cases "map_of (pl_rooms p) r") (auto simp: room_map_def plaza_world_def)
  have w: "pl_world q = pl_world p" using q by (auto simp: room_map_def split: option.splits)
  show ?thesis
    unfolding rs [symmetric] using ok(1) deref_map_update [OF ok(3,1)]
    by (simp add: room_join_eq q plaza_world_def upd_client_def search_def member_def Let_def)
qed

lemma clientIn_sections:
  assumes "plaza_ok p" and "r \<noteq> ''''"
  shows "plaza_world (room_join c r (room_leave r c p)) = RoomManager_clientIn c r (plaza_world p)"
proof -
  have "pl_world (room_leave r c p) = pl_world p" by (simp add: room_leave_def Let_def split: option.split)
  then show ?thesis
    using room_join_abs [OF plaza_ok_leave [OF assms(1)], of c r r c] assms(2)
    by (simp add: room_leave_abs [OF assms(1)] RoomManager_clientIn_def rooms_clientIn_def RoomManager_ending_def Let_def)
qed

text \<open>
  The two critical sections of \<^verbatim>\<open>RoomManager.clientIn\<close>, one after the other, are the atomic operation
  of the model, and so is the one of \<^verbatim>\<open>RoomManager.ending\<close>, on the maps that the pointers stand
  for; both keep the invariant of the objects.
\<close>

theorem room_sections_refined:
  assumes "plaza_ok p"
  shows "plaza_world (room_leave r c p) = RoomManager_ending r c (plaza_world p) \<and>
    (r \<noteq> '''' \<longrightarrow> plaza_world (room_join c r (room_leave r c p)) = RoomManager_clientIn c r (plaza_world p)) \<and>
    plaza_ok (room_leave r c p) \<and> plaza_ok (room_join c r p)"
  by (simp add: clientIn_sections plaza_ok_leave plaza_ok_join room_leave_abs assms)

section \<open>Deliveries and the other goroutines\<close>

text \<open>
  Where the subscriber is in \<^verbatim>\<open>handleSubscription\<close>. \<open>Serve m us k\<close>: the message \<open>m\<close> is still to be
  delivered to the users \<open>us\<close>, and with \<open>k\<close> the room part of the router message follows;
  \<open>Hand m u c us k\<close>: the client \<open>c\<close> of the user \<open>u\<close> has been found; \<open>Everyone m us\<close>: in the loop of
  \<^verbatim>\<open>deliverToWorld\<close>, which holds the lock of the client manager.
\<close>

datatype deliverer =
    Done
  | Begin FromRouterMessage
  | Rest FromRouterMessage
  | Seek FromRouterMessage
  | Found FromRouterMessage nat
  | Serve maddr "string list" "FromRouterMessage option"
  | Hand maddr string addr "string list" "FromRouterMessage option"
  | Everyone maddr "string list"

type_synonym street = "plaza \<times> deliverer"

definition put_msg :: "FromRouterMessage \<Rightarrow> plaza \<Rightarrow> plaza \<times> maddr" where
  "put_msg fr p = (let (w, m) = alloc_msg (convert fr) (pl_world p) in (p\<lparr>pl_world := w\<rparr>, m))"

definition push_msg :: "addr \<Rightarrow> maddr \<Rightarrow> plaza \<Rightarrow> plaza" where
  "push_msg c m p = p\<lparr>pl_world := Client_ServerHello (Some c) m (pl_world p)\<rparr>"

text \<open>A step of the subscriber, with the user served by it and the client that was given the message.\<close>

inductive deliver_step :: "street \<Rightarrow> (string \<times> addr) list \<Rightarrow> street \<Rightarrow> bool" where
  d_user: "fr_ToUserId fr \<noteq> '''' \<Longrightarrow> put_msg fr p = (p', m) \<Longrightarrow>
    deliver_step (p, Begin fr) [] (p', Serve m [fr_ToUserId fr] (Some fr))"
| d_no_user: "fr_ToUserId fr = '''' \<Longrightarrow> deliver_step (p, Begin fr) [] (p, Rest fr)"
| d_world: "fr_ToRoomId fr = ''world'' \<Longrightarrow> put_msg fr p = (p', m) \<Longrightarrow> range_order (w_clients (pl_world p')) order \<Longrightarrow>
    deliver_step (p, Rest fr) [] (p', Everyone m order)"
| d_room: "fr_ToRoomId fr \<noteq> ''world'' \<Longrightarrow> fr_ToRoomId fr \<noteq> '''' \<Longrightarrow> deliver_step (p, Rest fr) [] (p, Seek fr)"
| d_no_room: "fr_ToRoomId fr = '''' \<Longrightarrow> deliver_step (p, Rest fr) [] (p, Done)"
| d_find: "map_of (pl_rooms p) (fr_ToRoomId fr) = Some a \<Longrightarrow> deliver_step (p, Seek fr) [] (p, Found fr a)"
| d_missing: "map_of (pl_rooms p) (fr_ToRoomId fr) = None \<Longrightarrow> deliver_step (p, Seek fr) [] (p, Done)"
| d_collect: "range_order (pl_maps p ! a) order \<Longrightarrow> put_msg fr p = (p', m) \<Longrightarrow>
    deliver_step (p, Found fr a) [] (p', Serve m (room_userIds order (fr_ToRoomId fr) (pl_maps p ! a)) None)"
| d_lookup: "ClientManager_Client u (pl_world p) = Some c \<Longrightarrow>
    deliver_step (p, Serve m (u # us) k) [] (p, Hand m u c us k)"
| d_absent: "ClientManager_Client u (pl_world p) = None \<Longrightarrow>
    deliver_step (p, Serve m (u # us) k) [] (p, Serve m us k)"
| d_push: "deliver_step (p, Hand m u c us k) [(u, c)] (push_msg c m p, Serve m us k)"
| d_next: "deliver_step (p, Serve m [] (Some fr)) [] (p, Rest fr)"
| d_end: "deliver_step (p, Serve m [] None) [] (p, Done)"
| d_each: "map_of (w_clients (pl_world p)) u = Some c \<Longrightarrow>
    deliver_step (p, Everyone m (u # us)) [(u, c)] (push_msg c m p, Everyone m us)"
| d_all: "deliver_step (p, Everyone m []) [] (p, Done)"

text \<open>
  A step of another goroutine: a critical section of the room manager, a registration, the
  removal of a client, any change to a client object, or anything that touches neither clients nor rooms.
  While the client manager is \<open>locked\<close> for reading nobody registers or is removed.
\<close>

inductive others_step :: "bool \<Rightarrow> plaza \<Rightarrow> plaza \<Rightarrow> bool" for locked where
  o_leave: "others_step locked p (room_leave r c p)"
| o_join: "others_step locked p (room_join c r p)"
| o_login: "\<not> locked \<Longrightarrow> ClientManager_clientIn env nanos reg msc (pl_world p) = (w, res) \<Longrightarrow>
    others_step locked p (p\<lparr>pl_world := w\<rparr>)"
| o_logout: "\<not> locked \<Longrightarrow> others_step locked p (p\<lparr>pl_world := ClientManager_removeClient c (pl_world p)\<rparr>)"
| o_client: "others_step locked p (p\<lparr>pl_world := upd_client c f (pl_world p)\<rparr>)"
| o_rest: "w_clients w = w_clients (pl_world p) \<Longrightarrow> w_heap w = w_heap (pl_world p) \<Longrightarrow>
    others_step locked p (p\<lparr>pl_world := w\<rparr>)"

fun holds_lock :: "deliverer \<Rightarrow> bool" where
  "holds_lock (Everyone m us) = True"
| "holds_lock _ = False"

text \<open>\<open>town_run P s log t\<close>: an interleaving from \<open>s\<close> to \<open>t\<close> in which \<open>P\<close> holds at all times.\<close>

inductive town_run :: "(plaza \<Rightarrow> bool) \<Rightarrow> street \<Rightarrow> (string \<times> addr) list \<Rightarrow> street \<Rightarrow> bool" for P s where
  tr_start: "P (fst s) \<Longrightarrow> town_run P s [] s"
| tr_others: "town_run P s log (p, pc) \<Longrightarrow> others_step (holds_lock pc) p p' \<Longrightarrow> P p' \<Longrightarrow> town_run P s log (p', pc)"
| tr_deliver: "town_run P s log t \<Longrightarrow> deliver_step t served t' \<Longrightarrow> P (fst t') \<Longrightarrow> town_run P s (log @ served) t'"

section \<open>What the steps of others leave alone\<close>

definition room_members :: "string \<Rightarrow> plaza \<Rightarrow> string set" where
  "room_members r p = (case map_of (pl_rooms p) r of None \<Rightarrow> {} | Some a \<Rightarrow> keys_of (pl_maps p ! a))"

lemma room_leave_simps [simp]: "pl_world (room_leave r c p) = pl_world p" "length (pl_maps (room_leave r c p)) = length (pl_maps p)"
  by (simp_all add: room_leave_def Let_def split: option.split)

lemma put_msg_simps:
  "put_msg fr p = (p', m) \<Longrightarrow> pl_rooms p' = pl_rooms p \<and> pl_maps p' = pl_maps p \<and> m = length (w_msgs (pl_world p)) \<and>
   w_clients (pl_world p') = w_clients (pl_world p)"
  by (auto simp: put_msg_def alloc_msg_def)

lemma push_msg_simps [simp]: "pl_rooms (push_msg c m p) = pl_rooms p" "pl_maps (push_msg c m p) = pl_maps p"
  by (simp_all add: push_msg_def)

lemma plaza_ok_world [simp]: "plaza_ok (p\<lparr>pl_world := w\<rparr>) = plaza_ok p"
  by (simp add: plaza_ok_def)

lemma plaza_ok_cong: "pl_rooms q = pl_rooms p \<Longrightarrow> pl_maps q = pl_maps p \<Longrightarrow> plaza_ok q = plaza_ok p"
  by (simp add: plaza_ok_def)

lemma others_ok: "others_step locked p p' \<Longrightarrow> plaza_ok p \<Longrightarrow> plaza_ok p'"
  by (auto elim!: others_step.cases simp: plaza_ok_leave plaza_ok_join)

lemma deliver_step_same: "deliver_step (p, pc) served (p', pc') \<Longrightarrow> pl_rooms p' = pl_rooms p \<and> pl_maps p' = pl_maps p"
  by (cases rule: deliver_step.cases) (auto dest: put_msg_simps)

lemma town_run_ok: "town_run P s log t \<Longrightarrow> plaza_ok (fst s) \<Longrightarrow> plaza_ok (fst t)"
proof (induction rule: town_run.induct)
  case (tr_deliver log t served t')
  have "plaza_ok (fst t') = plaza_ok (fst t)"
    using tr_deliver.hyps(2) deliver_step_same [of "fst t" "snd t" served "fst t'" "snd t'"] by (intro plaza_ok_cong) simp_all
  with tr_deliver show ?case by simp
qed (auto intro: others_ok)

text \<open>A room keeps its map as long as it has a member, and a map that is no longer that of a room stays
  empty.\<close>

lemma others_attached:
  assumes "others_step locked p p'" and "map_of (pl_rooms p) r = Some a"
  shows "map_of (pl_rooms p') r = Some a \<or> map_of (pl_rooms p') r = None"
  using assms
  by (cases rule: others_step.cases)
    (auto simp: room_leave_def room_join_eq room_map_def Let_def gomap_simps split: option.split if_splits)

lemma others_owner:
  assumes "others_step locked p p'" and "plaza_ok p" and "map_of (pl_rooms p) r = Some a" and "map_of (pl_rooms p') s = Some a"
  shows "s = r"
proof -
  have "map_of (pl_rooms p) s = Some a"
    using assms(1,4) plaza_okD(2) [OF assms(2,3)]
    by (cases rule: others_step.cases)
      (auto simp: room_leave_def room_join_eq room_map_def Let_def gomap_simps split: option.splits if_splits)
  then show ?thesis using plaza_okD(3) [OF assms(2)] assms(3) by blast
qed

lemma others_maps: "others_step locked p p' \<Longrightarrow> length (pl_maps p) \<le> length (pl_maps p')"
  by (cases rule: others_step.cases) (auto simp: room_join_eq room_map_def Let_def split: option.split)

lemma others_detached:
  assumes "others_step locked p p'" and "plaza_ok p" and "a < length (pl_maps p)" and "\<And>r. map_of (pl_rooms p) r \<noteq> Some a"
  shows "map_of (pl_rooms p') r \<noteq> Some a"
  using assms
  by (cases rule: others_step.cases)
    (auto simp: room_leave_def room_join_eq room_map_def Let_def gomap_simps split: option.splits if_splits)

section \<open>Stable members are served\<close>

definition stays :: "string \<Rightarrow> string \<Rightarrow> addr \<Rightarrow> plaza \<Rightarrow> bool" where
  "stays r u c p \<longleftrightarrow> u \<in> room_members r p \<and> ClientManager_Client u (pl_world p) = Some c"

text \<open>Where the delivery to a user who stays has got to.\<close>

definition stays_inv :: "FromRouterMessage \<Rightarrow> string \<Rightarrow> addr \<Rightarrow> (string \<times> addr) list \<Rightarrow> street \<Rightarrow> bool" where
  "stays_inv fr u c log t \<longleftrightarrow>
     (let mine = filter (\<lambda>e. fst e = u) log
      in case snd t of
           Seek fr' \<Rightarrow> fr' = fr \<and> mine = []
         | Found fr' a \<Rightarrow> fr' = fr \<and> mine = [] \<and> map_of (pl_rooms (fst t)) (fr_ToRoomId fr) = Some a
         | Serve m us k \<Rightarrow> k = None \<and> distinct us \<and> mine = (if u \<in> set us then [] else [(u, c)])
         | Hand m v d us k \<Rightarrow> k = None \<and> distinct (v # us) \<and> (v = u \<longrightarrow> d = c) \<and>
             mine = (if u \<in> set (v # us) then [] else [(u, c)])
         | Done \<Rightarrow> mine = [(u, c)]
         | _ \<Rightarrow> False)"

lemma stays_inv_others:
  assumes "stays_inv fr u c log (p, pc)" and "others_step locked p p'" and "stays (fr_ToRoomId fr) u c p'"
  shows "stays_inv fr u c log (p', pc)"
proof (cases pc)
  case (Found fr' a)
  with assms(1) have "map_of (pl_rooms p) (fr_ToRoomId fr) = Some a" by (simp add: stays_inv_def Let_def)
  from others_attached [OF assms(2) this] assms(3) have "map_of (pl_rooms p') (fr_ToRoomId fr) = Some a"
    by (auto simp: stays_def room_members_def)
  with Found assms(1) show ?thesis by (simp add: stays_inv_def Let_def)
qed (use assms(1) in \<open>simp_all add: stays_inv_def\<close>)

lemma stays_inv_deliver:
  assumes "deliver_step t served t'" and "stays_inv fr u c log t" and "stays (fr_ToRoomId fr) u c (fst t)"
  shows "stays_inv fr u c (log @ served) t'"
  using assms(1)
proof (cases rule: deliver_step.cases)
  case (d_collect p a order fr' p' m)
  have at: "map_of (pl_rooms p) (fr_ToRoomId fr) = Some a" "fr' = fr"
    using assms(2) d_collect by (simp_all add: stays_inv_def Let_def)
  have "u \<in> keys_of (pl_maps p ! a)" using assms(3) at d_collect by (simp add: stays_def room_members_def)
  with d_collect assms(2) at set_room_userIds [OF d_collect(4), of "fr_ToRoomId fr"] show ?thesis
    by (simp add: stays_inv_def Let_def distinct_room_userIds range_order_def)
qed (use assms(2,3) in \<open>auto simp: stays_inv_def stays_def room_members_def Let_def split: if_splits\<close>)

text \<open>
  C4: A room message misses no member that stays, although the delivery fetches the map of the room and reads it in two
  critical sections and looks the clients up and pushes without the lock of the room. Whatever the other
  goroutines do in the meantime: a user who is in the room and keeps the same session from the
  beginning to the end of the delivery is given the message exactly once, in that session.
\<close>

theorem stable_member_served_once:
  assumes "town_run (stays (fr_ToRoomId fr) u c) (p, Seek fr) log (p', Done)"
  shows "filter (\<lambda>e. fst e = u) log = [(u, c)]"
proof -
  have "town_run (stays (fr_ToRoomId fr) u c) (p, Seek fr) log t \<Longrightarrow>
      stays (fr_ToRoomId fr) u c (fst t) \<and> stays_inv fr u c log t" for t
  proof (induction rule: town_run.induct)
    case tr_start
    then show ?case by (simp add: stays_inv_def)
  next
    case (tr_others log p pc p')
    then show ?case using stays_inv_others by auto
  next
    case (tr_deliver log t served t')
    then show ?case using stays_inv_deliver by blast
  qed
  from this [OF assms] show ?thesis by (simp add: stays_inv_def Let_def)
qed

section \<open>Deliveries are atomic reads of the room\<close>

abbreviation any_run :: "street \<Rightarrow> (string \<times> addr) list \<Rightarrow> street \<Rightarrow> bool" where
  "any_run \<equiv> town_run (\<lambda>_. True)"

text \<open>\<open>members_at r s us t\<close>: at a moment between \<open>s\<close> and \<open>t\<close>, before anybody was served, all of \<open>us\<close> were in the
  room \<open>r\<close>.\<close>

definition members_at :: "string \<Rightarrow> street \<Rightarrow> (string \<times> addr) list \<Rightarrow> string list \<Rightarrow> street \<Rightarrow> bool" where
  "members_at r s log us t \<longleftrightarrow> distinct (map fst log @ us) \<and>
     (\<exists>q. any_run s [] q \<and> any_run q log t \<and> set (map fst log @ us) \<subseteq> room_members r (fst q))"

definition read_inv :: "FromRouterMessage \<Rightarrow> street \<Rightarrow> (string \<times> addr) list \<Rightarrow> street \<Rightarrow> bool" where
  "read_inv fr s log t \<longleftrightarrow>
     (case snd t of
        Seek fr' \<Rightarrow> fr' = fr \<and> log = []
      | Found fr' a \<Rightarrow> fr' = fr \<and> log = [] \<and> a < length (pl_maps (fst t)) \<and>
          (map_of (pl_rooms (fst t)) (fr_ToRoomId fr) = Some a \<or>
           (\<forall>r. map_of (pl_rooms (fst t)) r \<noteq> Some a) \<and>
           (\<exists>q. any_run s [] q \<and> any_run q [] t \<and> room_members (fr_ToRoomId fr) (fst q) = {}))
      | Serve m us k \<Rightarrow> k = None \<and> members_at (fr_ToRoomId fr) s log us t
      | Hand m v d us k \<Rightarrow> k = None \<and> members_at (fr_ToRoomId fr) s log (v # us) t
      | Done \<Rightarrow> members_at (fr_ToRoomId fr) s log [] t
      | _ \<Rightarrow> False)"

lemma members_at_others:
  "members_at r s log us (p, pc) \<Longrightarrow> others_step (holds_lock pc) p p' \<Longrightarrow> members_at r s log us (p', pc)"
  unfolding members_at_def by (blast intro: tr_others)

lemma members_at_deliver:
  assumes "members_at r s log us t" and "deliver_step t served t'"
    and "set (map fst served @ us') \<subseteq> set us" and "distinct us \<Longrightarrow> distinct (map fst served @ us')"
  shows "members_at r s (log @ served) us' t'"
proof -
  obtain q where q: "any_run s [] q" "any_run q log t" "set (map fst log @ us) \<subseteq> room_members r (fst q)"
    using assms(1) unfolding members_at_def by blast
  have "distinct (map fst log @ us)" using assms(1) by (simp add: members_at_def)
  with assms(3,4) have "distinct (map fst (log @ served) @ us')" by (simp add: image_Un) blast
  moreover have "any_run q (log @ served) t'" using tr_deliver [OF q(2) assms(2)] by simp
  ultimately show ?thesis using q(1,3) assms(3) unfolding members_at_def by (intro conjI exI [of _ q]) auto
qed

lemma read_inv_others:
  assumes "read_inv fr s log (p, pc)" and "any_run s log (p, pc)" and "plaza_ok p"
    and "others_step (holds_lock pc) p p'"
  shows "read_inv fr s log (p', pc)"
proof (cases pc)
  case (Found fr' a)
  let ?r = "fr_ToRoomId fr"
  have a: "fr' = fr" "log = []" "a < length (pl_maps p)" using assms(1) Found by (simp_all add: read_inv_def)
  then have a': "a < length (pl_maps p')" using others_maps [OF assms(4)] by simp
  have run: "any_run s [] (p', pc)" "any_run (p', pc) [] (p', pc)"
    using tr_others [OF assms(2,4)] a(2) by (simp_all add: tr_start)
  show ?thesis
  proof (cases "map_of (pl_rooms p) ?r = Some a")
    case True
    have only: "map_of (pl_rooms p') r \<noteq> Some a" if "map_of (pl_rooms p') ?r = None" for r
      using others_owner [OF assms(4,3) True, of r] that by auto
    have empty: "room_members ?r p' = {}" if "map_of (pl_rooms p') ?r = None" using that by (simp add: room_members_def)
    from others_attached [OF assms(4) True] a a' run only empty Found show ?thesis
      by (auto simp: read_inv_def)
  next
    case False
    with assms(1) Found have d: "\<And>r. map_of (pl_rooms p) r \<noteq> Some a"
      and q: "\<exists>q. any_run s [] q \<and> any_run q [] (p, pc) \<and> room_members ?r (fst q) = {}"
      by (auto simp: read_inv_def)
    from q have "\<exists>q. any_run s [] q \<and> any_run q [] (p', pc) \<and> room_members ?r (fst q) = {}"
      using assms(4) by (blast intro: tr_others)
    with a a' Found others_detached [OF assms(4,3) a(3) d] show ?thesis by (auto simp: read_inv_def)
  qed
qed (use assms(1) members_at_others [OF _ assms(4)] in \<open>auto simp: read_inv_def\<close>)

lemma read_inv_collect:
  assumes "read_inv fr s log (p, Found fr' a)" and "any_run s log (p, Found fr' a)" and "plaza_ok p"
    and "range_order (pl_maps p ! a) order" and "put_msg fr' p = (p', m)"
  shows "members_at (fr_ToRoomId fr) s log (room_userIds order (fr_ToRoomId fr') (pl_maps p ! a))
    (p', Serve m (room_userIds order (fr_ToRoomId fr') (pl_maps p ! a)) None)"
proof -
  let ?r = "fr_ToRoomId fr" and ?us = "room_userIds order (fr_ToRoomId fr') (pl_maps p ! a)"
  have a: "fr' = fr" "log = []" "a < length (pl_maps p)" using assms(1) by (simp_all add: read_inv_def)
  have step: "deliver_step (p, Found fr' a) [] (p', Serve m ?us None)" by (rule d_collect [OF assms(4,5)])
  have us: "distinct ?us" "set ?us = keys_of (pl_maps p ! a)"
    using assms(4) set_room_userIds distinct_room_userIds by (auto simp: range_order_def)
  show ?thesis
  proof (cases "map_of (pl_rooms p) ?r = Some a")
    case True
    have "any_run (p, Found fr' a) [] (p', Serve m ?us None)" using tr_deliver [OF tr_start step] by simp
    moreover have "any_run s [] (p, Found fr' a)" using assms(2) a(2) by simp
    moreover have "set ?us \<subseteq> room_members ?r p" using True us(2) by (simp add: room_members_def)
    ultimately show ?thesis using us(1) a(2) unfolding members_at_def by fastforce
  next
    case False
    with assms(1) have "\<forall>r. map_of (pl_rooms p) r \<noteq> Some a"
      and q: "\<exists>q. any_run s [] q \<and> any_run q [] (p, Found fr' a)" by (auto simp: read_inv_def)
    then have "?us = []" using plaza_okD(5) [OF assms(3) a(3)] us(2) by (simp add: keys_of_def)
    moreover from q have "\<exists>q. any_run s [] q \<and> any_run q [] (p', Serve m ?us None)"
      using tr_deliver [OF _ step] by fastforce
    ultimately show ?thesis using a(2) by (simp add: members_at_def)
  qed
qed

lemma read_inv_deliver:
  assumes "deliver_step t served t'" and "read_inv fr s log t" and "any_run s log t" and "plaza_ok (fst t)"
  shows "read_inv fr s (log @ served) t'"
  using assms(1)
proof (cases rule: deliver_step.cases)
  case (d_find p fr' a)
  with assms(2) plaza_okD(2) [OF assms(4)] show ?thesis by (simp add: read_inv_def)
next
  case (d_missing p fr')
  with assms(2) have "log = []" "room_members (fr_ToRoomId fr) p = {}" by (auto simp: read_inv_def room_members_def)
  with tr_deliver [OF assms(3,1)] d_missing show ?thesis
    by (auto simp: read_inv_def members_at_def intro!: exI [of _ t'] tr_start)
next
  case (d_collect p a order fr' p' m)
  with read_inv_collect [OF _ _ _ d_collect(4,5), of fr s log] assms(2-4)
  have "members_at (fr_ToRoomId fr) s log (room_userIds order (fr_ToRoomId fr') (pl_maps p ! a)) t'" by simp
  then show ?thesis unfolding d_collect(2,3) by (simp add: read_inv_def)
next
  case (d_lookup u p c m us k)
  with assms(2) members_at_deliver [OF _ assms(1), of "fr_ToRoomId fr" s log "u # us" "u # us"] show ?thesis by (auto simp: read_inv_def)
next
  case (d_absent u p m us k)
  with assms(2) members_at_deliver [OF _ assms(1), of "fr_ToRoomId fr" s log "u # us" us] show ?thesis by (auto simp: read_inv_def)
next
  case (d_push p m u c us k)
  with assms(2) members_at_deliver [OF _ assms(1), of "fr_ToRoomId fr" s log "u # us" us] show ?thesis by (auto simp: read_inv_def)
next
  case (d_end p m)
  with assms(2) members_at_deliver [OF _ assms(1), of "fr_ToRoomId fr" s log "[]" "[]"] show ?thesis by (simp add: read_inv_def)
qed (use assms(2) in \<open>auto simp: read_inv_def\<close>)

text \<open>
  C6: A room message goes out as if the room had been read at one moment. Although the map that a delivery
  holds may have been given up and replaced between the two critical sections, there is a moment during
  the delivery, before the first push, at which all who are given the message were members of the room; and
  nobody is served twice.
\<close>

theorem room_delivery_linearizable:
  assumes "plaza_ok p" and "any_run (p, Seek fr) log (p', Done)"
  shows "distinct (map fst log) \<and>
    (\<exists>q. any_run (p, Seek fr) [] q \<and> any_run q log (p', Done) \<and> fst ` set log \<subseteq> room_members (fr_ToRoomId fr) (fst q))"
proof -
  have "any_run (p, Seek fr) log t \<Longrightarrow> any_run (p, Seek fr) log t \<and> read_inv fr (p, Seek fr) log t" for t
  proof (induction rule: town_run.induct)
    case tr_start
    then show ?case by (simp add: read_inv_def town_run.tr_start)
  next
    case (tr_others log q pc q')
    then show ?case
      using read_inv_others town_run_ok [OF tr_others.hyps(1)] assms(1) by (auto intro: town_run.tr_others)
  next
    case (tr_deliver log t served t')
    then show ?case
      using read_inv_deliver town_run_ok [OF tr_deliver.hyps(1)] assms(1) by (auto intro: town_run.tr_deliver)
  qed
  from this [OF assms(2)] show ?thesis by (simp add: read_inv_def members_at_def)
qed

section \<open>Messages to the world\<close>

lemma others_locked: "others_step True p p' \<Longrightarrow> w_clients (pl_world p') = w_clients (pl_world p)"
  by (cases rule: others_step.cases) (auto simp: room_join_eq Let_def room_map_def split: option.split)

lemma push_msg_clients [simp]: "w_clients (pl_world (push_msg c m p)) = w_clients (pl_world p)"
  by (simp add: push_msg_def Client_ServerHello_def)

text \<open>From the moment at which the lock was taken (\<open>q\<close>) to \<open>t\<close> all but \<open>us\<close> have been served.\<close>

definition all_but :: "street \<Rightarrow> (string \<times> addr) list \<Rightarrow> string list \<Rightarrow> street \<Rightarrow> bool" where
  "all_but s log us t \<longleftrightarrow> distinct (map fst log @ us) \<and>
     (\<exists>q. any_run s [] q \<and> any_run q log t \<and>
        set us \<subseteq> keys_of (w_clients (pl_world (fst q))) \<and>
        set log = {(u, c). map_of (w_clients (pl_world (fst q))) u = Some c \<and> u \<notin> set us} \<and>
        (holds_lock (snd t) \<longrightarrow> w_clients (pl_world (fst t)) = w_clients (pl_world (fst q))))"

definition world_inv :: "FromRouterMessage \<Rightarrow> street \<Rightarrow> (string \<times> addr) list \<Rightarrow> street \<Rightarrow> bool" where
  "world_inv fr s log t \<longleftrightarrow>
     (case snd t of
        Rest fr' \<Rightarrow> fr' = fr \<and> log = []
      | Everyone m us \<Rightarrow> all_but s log us t
      | Done \<Rightarrow> all_but s log [] t
      | _ \<Rightarrow> False)"

lemma all_but_others:
  assumes "all_but s log us (p, pc)" and "others_step (holds_lock pc) p p'"
  shows "all_but s log us (p', pc)"
proof -
  have "holds_lock pc \<Longrightarrow> w_clients (pl_world p') = w_clients (pl_world p)"
    using others_locked assms(2) by simp
  then show ?thesis using assms unfolding all_but_def by (fastforce intro: tr_others)
qed

lemma all_but_deliver:
  assumes "deliver_step (p, Everyone m us) served t'" and "all_but s log us (p, Everyone m us)"
  shows "world_inv fr s (log @ served) t'"
proof -
  let ?cs = "\<lambda>q. w_clients (pl_world (fst q))"
  from assms(2) obtain q where q: "any_run s [] q" "any_run q log (p, Everyone m us)" "set us \<subseteq> keys_of (?cs q)"
    "set log = {(u, c). map_of (?cs q) u = Some c \<and> u \<notin> set us}" "w_clients (pl_world p) = ?cs q" "distinct (map fst log @ us)"
    unfolding all_but_def by auto
  have run: "any_run q (log @ served) t'" using tr_deliver [OF q(2) assms(1)] by simp
  from assms(1) show ?thesis
  proof (cases rule: deliver_step.cases)
    case (d_each u c us')
    have "set (log @ [(u, c)]) = {(v, d). map_of (?cs q) v = Some d \<and> v \<notin> set us'}"
      using d_each q(4,5,6) by auto
    moreover have "distinct (map fst (log @ served) @ us')" using d_each q(6) by simp
    ultimately have "all_but s (log @ served) us' t'"
      unfolding all_but_def using d_each q(1,3,5) run by (intro conjI exI [of _ q]) simp_all
    then show ?thesis using d_each by (simp add: world_inv_def)
  next
    case d_all
    then have "all_but s (log @ served) [] t'"
      unfolding all_but_def using q run by (intro conjI exI [of _ q]) simp_all
    then show ?thesis using d_all by (simp add: world_inv_def)
  qed
qed

lemma world_inv_deliver:
  assumes "deliver_step t served t'" and "world_inv fr s log t" and "any_run s log t" and "fr_ToRoomId fr = ''world''"
  shows "world_inv fr s (log @ served) t'"
proof (cases "snd t")
  case (Rest fr')
  with assms(2) have fr: "fr' = fr" "log = []" by (simp_all add: world_inv_def)
  from assms(1) Rest fr(1) assms(4) obtain p' m order where t': "t' = (p', Everyone m order)" "served = []"
    and order: "range_order (w_clients (pl_world p')) order"
    by (cases rule: deliver_step.cases) (auto dest: put_msg_simps)
  have "any_run s [] t'" "any_run t' [] t'" using tr_deliver [OF assms(3,1)] fr t' by (simp_all add: tr_start)
  then have "all_but s [] order t'"
    using order t' unfolding all_but_def
    by (intro conjI exI [of _ t']) (auto simp: range_order_def keys_of_conv)
  then show ?thesis using t' fr(2) by (simp add: world_inv_def)
next
  case (Everyone m us)
  then have "t = (fst t, Everyone m us)" by (metis prod.collapse)
  with assms(1,2) Everyone show ?thesis
    using all_but_deliver [of "fst t" m us served t' s log fr] by (simp add: world_inv_def)
next
  case Done
  with assms(1) show ?thesis by (auto elim: deliver_step.cases)
qed (use assms(2) in \<open>simp_all add: world_inv_def\<close>)

text \<open>
  C23: A message to the world reaches, exactly once each, the sessions that are registered at one moment of
  the delivery, and no others, whatever the other goroutines do in the meantime: the loop holds the lock of the
  client manager, so nobody can come or go until it is over.
\<close>

theorem world_delivery_complete:
  assumes "any_run (p, Rest fr) log (p', Done)" and "fr_ToRoomId fr = ''world''"
  shows "distinct (map fst log) \<and>
    (\<exists>q. any_run (p, Rest fr) [] q \<and> any_run q log (p', Done) \<and>
       set log = {(u, c). ClientManager_Client u (pl_world (fst q)) = Some c})"
proof -
  have "any_run (p, Rest fr) log t \<Longrightarrow> any_run (p, Rest fr) log t \<and> world_inv fr (p, Rest fr) log t" for t
  proof (induction rule: town_run.induct)
    case tr_start
    then show ?case by (simp add: world_inv_def town_run.tr_start)
  next
    case (tr_others log q pc q')
    then have "world_inv fr (p, Rest fr) log (q', pc)"
      using all_but_others by (cases pc) (auto simp: world_inv_def)
    with tr_others show ?case by (auto intro: town_run.tr_others)
  next
    case (tr_deliver log t served t')
    then show ?case using world_inv_deliver assms(2) by (auto intro: town_run.tr_deliver)
  qed
  from this [OF assms(1)] show ?thesis by (simp add: world_inv_def all_but_def ClientManager_Client_def)
qed

section \<open>A delivery without interruption\<close>

inductive deliver_run :: "street \<Rightarrow> (string \<times> addr) list \<Rightarrow> street \<Rightarrow> bool" where
  dr_refl: "deliver_run s [] s"
| dr_step: "deliver_step s served t \<Longrightarrow> deliver_run t log u \<Longrightarrow> deliver_run s (served @ log) u"

lemma deliver_run_trans:
  "deliver_run s log t \<Longrightarrow> deliver_run t log' u \<Longrightarrow> deliver_run s (log @ log') u"
  by (induction rule: deliver_run.induct) (auto intro: dr_step)

lemma deliver_run_one: "deliver_step s served t \<Longrightarrow> deliver_run s served t"
  using dr_step [OF _ dr_refl] by fastforce

text \<open>\<open>alone s w\<close>: with nobody else running the delivery ends, in the world \<open>w\<close>.\<close>

definition alone :: "street \<Rightarrow> world \<Rightarrow> bool" where
  "alone s w \<longleftrightarrow> (\<exists>log p. deliver_run s log (p, Done) \<and> plaza_world p = w)"

lemma alone_step: "deliver_step s served t \<Longrightarrow> alone t w \<Longrightarrow> alone s w"
  unfolding alone_def by (blast intro: dr_step)

lemma alone_run: "deliver_run s log t \<Longrightarrow> alone t w \<Longrightarrow> alone s w"
  unfolding alone_def by (blast intro: deliver_run_trans)

lemma alone_done: "alone (p, Done) (plaza_world p)"
  unfolding alone_def by (blast intro: dr_refl)

lemma push_msg_world: "plaza_world (push_msg c m p) = Client_ServerHello (Some c) m (plaza_world p)"
  by (simp add: plaza_world_def push_msg_def Client_ServerHello_def upd_client_def)

lemma put_msg_world: "put_msg fr p = (p', m) \<Longrightarrow> alloc_msg (convert fr) (plaza_world p) = (plaza_world p', m)"
  by (auto simp: put_msg_def alloc_msg_def plaza_world_def)

lemma plaza_world_clients [simp]: "w_clients (plaza_world p) = w_clients (pl_world p)"
  by (simp add: plaza_world_def)

lemma single_plaza:
  "map_of (w_clients (pl_world p)) u = None \<Longrightarrow> deliverToSingleClient u m (plaza_world p) = plaza_world p"
  "map_of (w_clients (pl_world p)) u = Some c \<Longrightarrow> deliverToSingleClient u m (plaza_world p) = plaza_world (push_msg c m p)"
  by (simp_all add: deliverToSingleClient_def ClientManager_Client_def push_msg_world)

text \<open>The users of a list are served one after the other, whichever loop does it.\<close>

lemma serve_alone:
  "\<exists>log p'. deliver_run (p, Serve m us k) log (p', Serve m [] k) \<and>
     plaza_world p' = fold (\<lambda>u. deliverToSingleClient u m) us (plaza_world p) \<and> pl_rooms p' = pl_rooms p \<and> pl_maps p' = pl_maps p"
proof (induction us arbitrary: p)
  case Nil
  then show ?case by (auto intro: dr_refl)
next
  case (Cons u us)
  show ?case
  proof (cases "ClientManager_Client u (pl_world p)")
    case None
    obtain log p' where "deliver_run (p, Serve m us k) log (p', Serve m [] k)"
      "plaza_world p' = fold (\<lambda>u. deliverToSingleClient u m) us (plaza_world p)" "pl_rooms p' = pl_rooms p" "pl_maps p' = pl_maps p"
      using Cons.IH by blast
    with None dr_step [OF d_absent [OF None] this(1)] show ?thesis
      by (intro exI [of _ log] exI [of _ p']) (simp add: ClientManager_Client_def single_plaza)
  next
    case (Some c)
    from d_push d_lookup [OF Some]
    have "deliver_run (p, Serve m (u # us) k) [(u, c)] (push_msg c m p, Serve m us k)"
      using deliver_run_trans [OF deliver_run_one deliver_run_one] by fastforce
    moreover obtain log p' where "deliver_run (push_msg c m p, Serve m us k) log (p', Serve m [] k)"
      "plaza_world p' = fold (\<lambda>u. deliverToSingleClient u m) us (plaza_world (push_msg c m p))"
      "pl_rooms p' = pl_rooms p" "pl_maps p' = pl_maps p"
      using Cons.IH [of "push_msg c m p"] by auto
    ultimately show ?thesis
      using Some deliver_run_trans
      by (intro exI [of _ "(u, c) # log"] exI [of _ p']) (force simp: ClientManager_Client_def single_plaza)
  qed
qed

lemma everyone_alone:
  "set us \<subseteq> keys_of (w_clients (pl_world p)) \<Longrightarrow>
   alone (p, Everyone m us) (fold (\<lambda>u. deliverToSingleClient u m) us (plaza_world p))"
proof (induction us arbitrary: p)
  case Nil
  then show ?case using alone_step [OF d_all alone_done] by simp
next
  case (Cons u us)
  then obtain c where "map_of (w_clients (pl_world p)) u = Some c" by (auto simp: keys_of_conv)
  with Cons alone_step [OF d_each [OF this]] show ?case by (simp add: single_plaza)
qed

lemma room_alone:
  assumes "map_of (w_rooms (plaza_world p)) (fr_ToRoomId fr) = None \<or>
    (\<exists>users. map_of (w_rooms (plaza_world p)) (fr_ToRoomId fr) = Some users \<and> range_order users order)"
  shows "alone (p, Seek fr) (deliverToRoom order fr (plaza_world p))"
proof (cases "map_of (pl_rooms p) (fr_ToRoomId fr)")
  case None
  then show ?thesis using alone_step [OF d_missing alone_done] by (simp add: deliverToRoom_def plaza_world_def)
next
  case (Some a)
  have room: "map_of (w_rooms (plaza_world p)) (fr_ToRoomId fr) = Some (pl_maps p ! a)" using Some by (simp add: plaza_world_def)
  obtain p' m where m: "put_msg fr p = (p', m)" by fastforce
  let ?us = "room_userIds order (fr_ToRoomId fr) (pl_maps p ! a)"
  obtain log q where q: "deliver_run (p', Serve m ?us None) log (q, Serve m [] None)"
    "plaza_world q = fold (\<lambda>u. deliverToSingleClient u m) ?us (plaza_world p')"
    using serve_alone by blast
  have "deliverToRoom order fr (plaza_world p) = plaza_world q"
    using room q(2) put_msg_world [OF m] by (simp add: deliverToRoom_def)
  moreover have "range_order (pl_maps p ! a) order" using assms room by simp
  ultimately show ?thesis
    using alone_step [OF d_find [of p, OF Some]] alone_step [OF d_collect [OF _ m]] alone_run [OF q(1)]
      alone_step [OF d_end] alone_done by metis
qed

lemma rest_alone:
  assumes "map_of (w_rooms (plaza_world p)) (fr_ToRoomId fr) = None \<or>
      (\<exists>users. map_of (w_rooms (plaza_world p)) (fr_ToRoomId fr) = Some users \<and> range_order users roomOrder)"
    and "range_order (w_clients (plaza_world p)) worldOrder"
  shows "alone (p, Rest fr)
    (if fr_ToRoomId fr = ''world'' then deliverToWorld worldOrder fr (plaza_world p)
     else if fr_ToRoomId fr \<noteq> '''' then deliverToRoom roomOrder fr (plaza_world p) else plaza_world p)"
proof (cases "fr_ToRoomId fr = ''world''")
  case True
  obtain p' m where m: "put_msg fr p = (p', m)" by fastforce
  have order: "range_order (w_clients (pl_world p')) worldOrder" using assms(2) put_msg_simps [OF m] by simp
  have "deliverToWorld worldOrder fr (plaza_world p) = fold (\<lambda>u. deliverToSingleClient u m) worldOrder (plaza_world p')"
    using put_msg_world [OF m] by (simp add: deliverToWorld_def world_loop_fold)
  then show ?thesis
    using True alone_step [OF d_world [OF True m order] everyone_alone] order by (simp add: range_order_def)
next
  case False
  then show ?thesis
    using alone_step [OF d_room room_alone [OF assms(1)]] alone_step [OF d_no_room alone_done] by simp
qed

text \<open>
  C22: The atomic \<^verbatim>\<open>handleSubscription\<close> of the model is what the critical sections do when nothing comes between them:
  from every state a delivery that is left alone ends, in the state that the atomic operation yields.
\<close>

theorem subscription_uninterrupted:
  assumes "FromRouterMessage_Unmarshal (string_bytes payload) zero_FromRouterMessage = (fr, e)"
    and "map_of (w_rooms (plaza_world p)) (fr_ToRoomId fr) = None \<or>
      (\<exists>users. map_of (w_rooms (plaza_world p)) (fr_ToRoomId fr) = Some users \<and> range_order users roomOrder)"
    and "range_order (w_clients (plaza_world p)) worldOrder"
  shows "alone (p, Begin fr) (handleSubscription roomOrder worldOrder payload (plaza_world p))"
proof (cases "fr_ToUserId fr = ''''")
  case True
  from alone_step [OF d_no_user [OF True] rest_alone [OF assms(2,3)]] True show ?thesis
    by (simp add: handleSubscription_def assms(1) Let_def split: if_splits)
next
  case False
  obtain p' m where m: "put_msg fr p = (p', m)" by fastforce
  obtain log q where q: "deliver_run (p', Serve m [fr_ToUserId fr] (Some fr)) log (q, Serve m [] (Some fr))"
    "plaza_world q = deliverToSingleClient (fr_ToUserId fr) m (plaza_world p')" "pl_rooms q = pl_rooms p'" "pl_maps q = pl_maps p'"
    using serve_alone [of p' m "[fr_ToUserId fr]" "Some fr"] by auto
  have user: "plaza_world q = deliverToUser fr (plaza_world p)"
    using q(2) put_msg_world [OF m] by (simp add: deliverToUser_def)
  have same: "w_rooms (plaza_world q) = w_rooms (plaza_world p)"
    using q(3,4) put_msg_simps [OF m] by (simp add: plaza_world_def)
  have clients: "w_clients (plaza_world q) = w_clients (plaza_world p)"
    using q(2) same_but_queuesD(1) [OF single_same] put_msg_simps [OF m] by (metis plaza_world_clients)
  have "alone (q, Rest fr) (handleSubscription roomOrder worldOrder payload (plaza_world p))"
    using rest_alone [of q fr roomOrder worldOrder, unfolded same clients, OF assms(2,3), unfolded user] False
    by (simp add: handleSubscription_def assms(1) Let_def split: if_splits)
  from alone_step [OF d_user [OF False m] alone_run [OF q(1) alone_step [OF d_next this]]] show ?thesis .
qed

section \<open>What interleavings can do\<close>

definition small_plaza :: plaza where
  "small_plaza = \<lparr>pl_world = two_sessions, pl_rooms = [(''r'', 0)], pl_maps = [[(''u'', 1)]]\<rparr>"

definition to_r :: FromRouterMessage where
  "to_r = zero_FromRouterMessage\<lparr>fr_ToRoomId := ''r''\<rparr>"

definition mailed_plaza :: plaza where
  "mailed_plaza = fst (put_msg to_r small_plaza)"

lemma small_plaza_ok: "plaza_ok small_plaza"
  by (simp add: plaza_ok_def small_plaza_def pointers_distinct_def)

lemma mailed_plaza_facts:
  "put_msg to_r small_plaza = (mailed_plaza, 0)" "pl_rooms mailed_plaza = [(''r'', 0)]" "pl_maps mailed_plaza = [[(''u'', 1)]]"
  "w_clients (pl_world mailed_plaza) = [(''u'', 1)]" "w_heap (pl_world mailed_plaza) = w_heap two_sessions"
  by (simp_all add: mailed_plaza_def put_msg_def alloc_msg_def small_plaza_def two_sessions_def init_world_def)

text \<open>The delivery has found the session of the only member.\<close>

lemma found_session:
  assumes "P small_plaza" and "P mailed_plaza"
  shows "town_run P (small_plaza, Seek to_r) [] (mailed_plaza, Hand 0 ''u'' 1 [] None)"
proof -
  have "town_run P (small_plaza, Seek to_r) [] (small_plaza, Found to_r 0)"
    using tr_deliver [OF tr_start d_find [of small_plaza to_r 0], of P] assms(1) by (simp add: small_plaza_def to_r_def)
  from tr_deliver [OF this d_collect [of small_plaza 0 "[''u'']" to_r, OF _ mailed_plaza_facts(1)]] assms(2)
  have "town_run P (small_plaza, Seek to_r) [] (mailed_plaza, Serve 0 [''u''] None)"
    by (simp add: small_plaza_def to_r_def range_order_def keys_of_def room_userIds_def roomOwnerIdResolver_def)
  from tr_deliver [OF this d_lookup [of "''u''" mailed_plaza 1]] assms(2) show ?thesis
    by (simp add: ClientManager_Client_def mailed_plaza_facts)
qed

lemma hand_over:
  assumes "town_run P s log (p, Hand m u c [] None)" and "P (push_msg c m p)"
  shows "town_run P s (log @ [(u, c)]) (push_msg c m p, Done)"
  using tr_deliver [OF tr_deliver [OF assms(1) d_push] d_end] assms(2) by simp

text \<open>
  Entering the room one is in gives up the membership for a moment, between the two critical sections of
  \<^verbatim>\<open>RoomManager.clientIn\<close>; a room message that comes then is not delivered to the client, although nobody has left the room.
\<close>

theorem reentry_misses_message:
  "\<exists>p p'. plaza_ok p \<and> room_members ''r'' p = {''u''} \<and> any_run (p, Seek to_r) [] (p', Done) \<and>
     plaza_world p' = RoomManager_clientIn 1 ''r'' (plaza_world p) \<and> room_members ''r'' p' = {''u''}"
proof -
  let ?out = "room_leave ''r'' 1 small_plaza"
  let ?in = "room_join 1 ''r'' ?out"
  have out: "pl_rooms ?out = []" "pl_maps ?out = [[]]"
    by (simp_all add: room_leave_def small_plaza_def two_sessions_def deref_def sample_client_def Let_def)
  have "any_run (small_plaza, Seek to_r) [] (?out, Seek to_r)"
    by (rule tr_others [OF tr_start o_leave]) simp_all
  moreover have "deliver_step (?out, Seek to_r) [] (?out, Done)" by (rule d_missing) (simp only: out map_of.simps)
  ultimately have "any_run (small_plaza, Seek to_r) [] (?out, Done)" using tr_deliver by fastforce
  from tr_others [OF this o_join] have "any_run (small_plaza, Seek to_r) [] (?in, Done)" by simp
  moreover have "plaza_world ?in = RoomManager_clientIn 1 ''r'' (plaza_world small_plaza)"
    by (rule clientIn_sections [OF small_plaza_ok]) simp
  moreover have "room_members ''r'' small_plaza = {''u''}" by (simp add: room_members_def small_plaza_def keys_of_def)
  moreover have "room_members ''r'' ?in = {''u''}"
    using out by (simp add: room_members_def room_join_eq room_map_def Let_def keys_of_def)
      (simp add: small_plaza_def two_sessions_def deref_def sample_client_def)
  ultimately show ?thesis using small_plaza_ok by blast
qed

text \<open>
  A session that is taken over between lookup and push keeps the message: the user is in the room and
  logged in all the time, but the message is in the queue of the session that was told to stop.
\<close>

theorem take_over_loses_message:
  "\<exists>p p'. town_run (\<lambda>q. ''u'' \<in> room_members ''r'' q \<and> ClientManager_Client ''u'' (pl_world q) \<noteq> None) (p, Seek to_r)
       [(''u'', 1)] (p', Done) \<and>
     stopped (pl_world p') (c_msc (deref (pl_world p') 1)) \<and>
     ClientManager_Client ''u'' (pl_world p') = Some 2 \<and> c_queue (deref (pl_world p') 2) = []"
proof -
  let ?P = "\<lambda>q. ''u'' \<in> room_members ''r'' q \<and> ClientManager_Client ''u'' (pl_world q) \<noteq> None"
  obtain w res where login: "ClientManager_clientIn accept_env 0 sample_Register 9 (pl_world mailed_plaza) = (w, res)" by fastforce
  have w: "w_clients w = [(''u'', 2)]" "length (w_heap w) = 3" "c_queue (deref w 2) = []" "c_msc (deref w 1) = 8" "stopped w 8"
    using login mailed_plaza_facts(4,5)
    by (auto simp: ClientManager_clientIn_def refreshToken0_def accept_env_def sample_Register_def createClient_def
        add_LoginUsers_def Let_def two_sessions_def sample_client_def new_client_def deref_def nth_append upd_client_def stopped_def
        emit_def spawn_def)
  have members: "room_members ''r'' q = {''u''}" if "pl_rooms q = [(''r'', 0)]" "pl_maps q = [[(''u'', 1)]]" for q
    using that by (simp add: room_members_def keys_of_def)
  let ?q = "mailed_plaza\<lparr>pl_world := w\<rparr>"
  have "town_run ?P (small_plaza, Seek to_r) [] (mailed_plaza, Hand 0 ''u'' 1 [] None)"
    using members mailed_plaza_facts
    by (intro found_session) (simp_all add: small_plaza_def ClientManager_Client_def two_sessions_def)
  moreover have "?P ?q" "?P (push_msg 1 0 ?q)"
    using members w(1) mailed_plaza_facts by (simp_all add: ClientManager_Client_def)
  ultimately have "town_run ?P (small_plaza, Seek to_r) ([] @ [(''u'', 1)]) (push_msg 1 0 ?q, Done)"
    by (intro hand_over tr_others [OF _ o_login [OF _ login]]) simp_all
  with w show ?thesis
    by (intro exI [of _ small_plaza] exI [of _ "push_msg 1 0 ?q"])
      (simp add: push_msg_def ClientManager_Client_def Client_ServerHello_def)
qed

section \<open>Instances\<close>

theorem room_sections_refined_witness:
  "plaza_world (room_join 1 ''q'' (room_leave ''q'' 1 small_plaza)) = RoomManager_clientIn 1 ''q'' (plaza_world small_plaza)"
  using room_sections_refined [OF small_plaza_ok, of "''q''" 1] by simp

lemma delivered_run: "town_run (stays ''r'' ''u'' 1) (small_plaza, Seek to_r) [(''u'', 1)] (push_msg 1 0 mailed_plaza, Done)"
proof -
  have "stays ''r'' ''u'' 1 small_plaza" "stays ''r'' ''u'' 1 mailed_plaza" "stays ''r'' ''u'' 1 (push_msg 1 0 mailed_plaza)"
    using mailed_plaza_facts
    by (simp_all add: stays_def room_members_def small_plaza_def ClientManager_Client_def keys_of_def two_sessions_def)
  then show ?thesis using hand_over [OF found_session, of "stays ''r'' ''u'' 1"] by simp
qed

theorem stable_member_served_once_witness:
  "\<exists>log p'. town_run (stays ''r'' ''u'' 1) (small_plaza, Seek to_r) log (p', Done) \<and> filter (\<lambda>e. fst e = ''u'') log = [(''u'', 1)]"
  using stable_member_served_once [of to_r "''u''" 1] delivered_run by (fastforce simp: to_r_def)

theorem room_delivery_linearizable_witness:
  "\<exists>p'. any_run (small_plaza, Seek to_r) [(''u'', 1)] (p', Done) \<and>
     (\<exists>q. any_run (small_plaza, Seek to_r) [] q \<and> {''u''} \<subseteq> room_members ''r'' (fst q))"
proof -
  have "any_run (small_plaza, Seek to_r) [(''u'', 1)] (push_msg 1 0 mailed_plaza, Done)"
    using hand_over [OF found_session, of "\<lambda>_. True"] by simp
  with room_delivery_linearizable [OF small_plaza_ok this] show ?thesis by (auto simp: to_r_def)
qed

definition to_all :: FromRouterMessage where
  "to_all = zero_FromRouterMessage\<lparr>fr_ToRoomId := ''world''\<rparr>"

theorem world_delivery_complete_witness:
  "\<exists>p' q. any_run (small_plaza, Rest to_all) [(''u'', 1)] (p', Done) \<and> any_run (small_plaza, Rest to_all) [] q \<and>
     {(''u'', 1)} = {(u, c). ClientManager_Client u (pl_world (fst q)) = Some c}"
proof -
  obtain p m where m: "put_msg to_all small_plaza = (p, m)" by fastforce
  have cs: "w_clients (pl_world p) = [(''u'', 1)]" using put_msg_simps [OF m] by (simp add: small_plaza_def two_sessions_def)
  have "any_run (small_plaza, Rest to_all) [] (p, Everyone m [''u''])"
    using tr_deliver [OF tr_start d_world [OF _ m, of "[''u'']"]] cs by (simp add: to_all_def range_order_def keys_of_def)
  from tr_deliver [OF tr_deliver [OF this d_each [of p "''u''" 1]] d_all] cs
  have "any_run (small_plaza, Rest to_all) [(''u'', 1)] (push_msg 1 m p, Done)" by simp
  with world_delivery_complete [OF this] show ?thesis by (auto simp: to_all_def)
qed

definition to_r_text :: string where
  \<open>to_r_text = ''{"toRoomId":"r"}''\<close>

theorem subscription_uninterrupted_witness:
  "alone (small_plaza, Begin to_r) (handleSubscription [''u''] [''u''] to_r_text (plaza_world small_plaza))"
proof -
  have "json_parse (string_bytes to_r_text) = Some (JObj [(''toRoomId'', JStr ''r'')])" by code_simp
  then have fr: "FromRouterMessage_Unmarshal (string_bytes to_r_text) zero_FromRouterMessage = (to_r, None)"
    by (simp add: FromRouterMessage_Unmarshal_def json_Unmarshal_def FromRouterMessage_schema_def find_field_def
        dec_string_def first_err_def zero_FromRouterMessage_def to_r_def)
  show ?thesis
    by (rule subscription_uninterrupted [OF fr])
      (auto simp: small_plaza_def plaza_world_def two_sessions_def range_order_def keys_of_def to_r_def)
qed

end
