(* ===== verification/Session_Threads.thy ===== *)
theory Session_Threads
  imports Room_Threads
begin

text \<open>
  The end of a session (\<^verbatim>\<open>Client.ending\<close>, \<^verbatim>\<open>client.go\<close>) under concurrency. The monitor goroutine of a
  session runs it when the connection has stopped; it takes the lock of the room manager and then that
  of the client manager, one after the other. In between other sessions, also newer ones of the same user,
  register, enter rooms and end.

  Whether a handler of the session may still be running when its monitor sees the connection
  stopped is up to bdmsg. It is the parameter \<open>late\<close>: without it, as the connector relies on, handlers are over
  before the end begins.
\<close>

section \<open>State\<close>

text \<open>How far the end of a session has got.\<close>

datatype ending_pc = Serving | Unbound | OutOfRoom | OutOfRegistry | Quitting | Ended

text \<open>What the handler goroutine of a session is doing: nothing that matters here, or entering a room, between the
  two critical sections of \<^verbatim>\<open>RoomManager.clientIn\<close>.\<close>

datatype handler_pc = Free | Entering string

record village =
  vi_plaza :: plaza
  vi_ending :: "addr \<Rightarrow> ending_pc"
  vi_handler :: "addr \<Rightarrow> handler_pc"

abbreviation vi_world :: "village \<Rightarrow> world" where
  "vi_world v \<equiv> pl_world (vi_plaza v)"

definition init_village :: village where
  "init_village = \<lparr>vi_plaza = \<lparr>pl_world = init_world, pl_rooms = [], pl_maps = []\<rparr>, vi_ending = (\<lambda>_. Serving),
     vi_handler = (\<lambda>_. Free)\<rparr>"

definition on_world :: "(world \<Rightarrow> world) \<Rightarrow> plaza \<Rightarrow> plaza" where
  "on_world f p = p\<lparr>pl_world := f (pl_world p)\<rparr>"

section \<open>The critical sections of \<^verbatim>\<open>ending\<close>\<close>

definition ending_unbind :: "addr \<Rightarrow> plaza \<Rightarrow> plaza" where
  "ending_unbind c = on_world (\<lambda>w. emit (CallSetUserData (c_msc (deref w c)) UD_nil) w)"

definition ending_room :: "addr \<Rightarrow> plaza \<Rightarrow> plaza" where
  "ending_room c p = room_leave (c_roomId (deref (pl_world p) c)) c p"

definition ending_registry :: "addr \<Rightarrow> plaza \<Rightarrow> plaza" where
  "ending_registry c = on_world (ClientManager_removeClient c)"

definition ending_quit :: "addr \<Rightarrow> plaza \<Rightarrow> plaza" where
  "ending_quit c = on_world (\<lambda>w. upd_client c stop_timer (upd_client c (\<lambda>x. x\<lparr>c_q := True\<rparr>) w))"

definition ending_count :: "plaza \<Rightarrow> plaza" where
  "ending_count = on_world (add_LoginUsers (- 1))"

section \<open>Interleavings\<close>

text \<open>What other goroutines do to a client object: everything but its identity, its room and the mark of
  its end.\<close>

definition harmless :: "(client \<Rightarrow> client) \<Rightarrow> bool" where
  "harmless f \<longleftrightarrow> (\<forall>x. c_ID (f x) = c_ID x \<and> c_roomId (f x) = c_roomId x \<and> c_q (f x) = c_q x \<and> c_msc (f x) = c_msc x)"

inductive village_step :: "bool \<Rightarrow> village \<Rightarrow> village \<Rightarrow> bool" for late where
  v_login: "ClientManager_clientIn env nanos reg msc (vi_world v) = (w, res) \<Longrightarrow>
    village_step late v (v\<lparr>vi_plaza := (vi_plaza v)\<lparr>pl_world := w\<rparr>\<rparr>)"
| v_touch: "harmless f \<Longrightarrow> village_step late v (v\<lparr>vi_plaza := on_world (upd_client c f) (vi_plaza v)\<rparr>)"
| v_leave: "c < length (w_heap (vi_world v)) \<Longrightarrow> vi_handler v c = Free \<Longrightarrow> late \<or> vi_ending v c = Serving \<Longrightarrow> r \<noteq> '''' \<Longrightarrow>
    village_step late v (v\<lparr>vi_plaza := room_leave r c (vi_plaza v), vi_handler := (vi_handler v)(c := Entering r)\<rparr>)"
| v_join: "vi_handler v c = Entering r \<Longrightarrow>
    village_step late v (v\<lparr>vi_plaza := room_join c r (vi_plaza v), vi_handler := (vi_handler v)(c := Free)\<rparr>)"
| v_unbind: "c < length (w_heap (vi_world v)) \<Longrightarrow> vi_ending v c = Serving \<Longrightarrow> late \<or> vi_handler v c = Free \<Longrightarrow>
    village_step late v (v\<lparr>vi_plaza := ending_unbind c (vi_plaza v), vi_ending := (vi_ending v)(c := Unbound)\<rparr>)"
| v_room: "vi_ending v c = Unbound \<Longrightarrow>
    village_step late v (v\<lparr>vi_plaza := ending_room c (vi_plaza v), vi_ending := (vi_ending v)(c := OutOfRoom)\<rparr>)"
| v_registry: "vi_ending v c = OutOfRoom \<Longrightarrow>
    village_step late v (v\<lparr>vi_plaza := ending_registry c (vi_plaza v), vi_ending := (vi_ending v)(c := OutOfRegistry)\<rparr>)"
| v_quit: "vi_ending v c = OutOfRegistry \<Longrightarrow>
    village_step late v (v\<lparr>vi_plaza := ending_quit c (vi_plaza v), vi_ending := (vi_ending v)(c := Quitting)\<rparr>)"
| v_count: "vi_ending v c = Quitting \<Longrightarrow>
    village_step late v (v\<lparr>vi_plaza := ending_count (vi_plaza v), vi_ending := (vi_ending v)(c := Ended)\<rparr>)"

abbreviation village_reachable :: "bool \<Rightarrow> village \<Rightarrow> bool" where
  "village_reachable late \<equiv> reachable (\<lambda>v. v = init_village) (village_step late)"

section \<open>Frames\<close>

text \<open>Who is in a room, read through the map object.\<close>

definition at_room :: "plaza \<Rightarrow> string \<Rightarrow> string \<Rightarrow> addr option" where
  "at_room p r u = (case map_of (pl_rooms p) r of None \<Rightarrow> None | Some a \<Rightarrow> map_of (pl_maps p ! a) u)"

lemma on_world_simps [simp]:
  "pl_world (on_world f p) = f (pl_world p)" "pl_rooms (on_world f p) = pl_rooms p" "pl_maps (on_world f p) = pl_maps p"
  "at_room (on_world f p) r u = at_room p r u" "plaza_ok (on_world f p) = plaza_ok p"
  by (simp_all add: on_world_def at_room_def cong: option.case_cong)

lemma at_room_world [simp]: "at_room (p\<lparr>pl_world := w\<rparr>) r u = at_room p r u"
  by (simp add: at_room_def cong: option.case_cong)

lemma at_room_leave:
  assumes "plaza_ok p"
  shows "at_room (room_leave r c p) s u = Some d \<Longrightarrow> at_room p s u = Some d"
    and "at_room (room_leave r c p) r (c_ID (deref (pl_world p) c)) \<noteq> Some c"
  using plaza_okD(2) [OF assms, of r]
  by (auto simp: room_leave_def at_room_def Let_def gomap_simps nth_list_update split: option.splits if_splits)

lemma at_room_map:
  assumes "plaza_ok p" and "room_map r p = (q, a)" and "at_room q s u = Some d"
  shows "at_room p s u = Some d"
proof (cases "map_of (pl_rooms p) r")
  case None
  have "map_of (pl_rooms p) s = Some b \<Longrightarrow> b < length (pl_maps p)" for b by (rule plaza_okD(2) [OF assms(1)])
  with None assms(2,3) show ?thesis
    by (auto simp: room_map_def at_room_def gomap_simps nth_append split: option.splits if_splits)
qed (use assms(2,3) in \<open>simp add: room_map_def\<close>)

lemma at_room_join:
  assumes "plaza_ok p" and "at_room (room_join c r p) s u = Some d"
  shows "d = c \<or> at_room p s u = Some d"
proof -
  obtain q a where q: "room_map r p = (q, a)" by fastforce
  note ok = room_map_ok [OF assms(1) q]
  have "d = c \<or> at_room q s u = Some d"
    using assms(2) ok(2)
    by (auto simp: room_join_eq q at_room_def Let_def gomap_simps nth_list_update split: option.splits if_splits)
  then show ?thesis using at_room_map [OF assms(1) q] by blast
qed

lemma room_join_world [simp]: "pl_world (room_join c r p) = upd_client c (\<lambda>x. x\<lparr>c_roomId := r\<rparr>) (pl_world p)"
  by (simp add: room_join_eq Let_def split: prod.split)

lemma clientIn_cases:
  assumes "ClientManager_clientIn env nanos r s w = (w', res)"
  obtains "w' = w"
  | x where "w_heap w' = w_heap w @ [x]" "c_ID x = reg_UserId r" "\<not> c_q x"
    "w_clients w' = AList.update (reg_UserId r) (length (w_heap w)) (w_clients w)"
    "info_LoginUsers (w_info w') = info_LoginUsers (w_info w) + 1"
proof (cases "\<exists>claims. refreshToken0 env (reg_Token r) = Inr (claims, None)")
  case True
  then obtain claims where "refreshToken0 env (reg_Token r) = Inr (claims, None)" by blast
  note a = clientIn_accepted [OF this assms]
  show ?thesis by (rule that(2) [OF a(2) _ _ a(3,9)]) (simp_all add: new_client_def)
next
  case False
  then have "w' = w"
    using clientIn_rejects [where env = env and r = r and nanos = nanos and s = s and w = w] assms by (auto split: sum.splits prod.splits option.splits)
  then show ?thesis by (rule that(1))
qed

section \<open>Invariants\<close>

definition bounds_ok :: "village \<Rightarrow> bool" where
  "bounds_ok v \<longleftrightarrow> plaza_ok (vi_plaza v) \<and>
     (\<forall>c. vi_ending v c \<noteq> Serving \<or> vi_handler v c \<noteq> Free \<longrightarrow> c < length (w_heap (vi_world v)))"

text \<open>A registered client is registered under its own id and has not been taken out of the registry.\<close>

definition registry_ok :: "village \<Rightarrow> bool" where
  "registry_ok v \<longleftrightarrow>
     (\<forall>u c. map_of (w_clients (vi_world v)) u = Some c \<longrightarrow> c < length (w_heap (vi_world v)) \<and>
        c_ID (deref (vi_world v) c) = u \<and> vi_ending v c \<in> {Serving, Unbound, OutOfRoom})"

text \<open>A session that has left its room is not in it.\<close>

definition rooms_left_ok :: "village \<Rightarrow> bool" where
  "rooms_left_ok v \<longleftrightarrow>
     (\<forall>c. vi_ending v c \<noteq> Serving \<longrightarrow> vi_handler v c = Free) \<and>
     (\<forall>c. vi_ending v c \<notin> {Serving, Unbound} \<longrightarrow>
        at_room (vi_plaza v) (c_roomId (deref (vi_world v) c)) (c_ID (deref (vi_world v) c)) \<noteq> Some c)"

text \<open>The mark of the end, and the counter of logged-in users.\<close>

definition marks_ok :: "village \<Rightarrow> bool" where
  "marks_ok v \<longleftrightarrow> (\<forall>c < length (w_heap (vi_world v)). c_q (deref (vi_world v) c) \<longleftrightarrow> vi_ending v c \<in> {Quitting, Ended})"

definition count_ok :: "village \<Rightarrow> bool" where
  "count_ok v \<longleftrightarrow> info_LoginUsers (w_info (vi_world v)) =
     of_nat (length (filter (\<lambda>c. vi_ending v c \<noteq> Ended) [0..<length (w_heap (vi_world v))]))"

lemmas ending_defs = ending_unbind_def ending_room_def ending_registry_def ending_quit_def ending_count_def

lemma deref_grown: "w_heap w' = w_heap w @ [x] \<Longrightarrow> deref w' c = (if c < length (w_heap w) then deref w c else if c = length (w_heap w) then x else deref w' c)"
  by (simp add: deref_def nth_append)

lemma harmlessD: "harmless f \<Longrightarrow> c_ID (f x) = c_ID x" "harmless f \<Longrightarrow> c_roomId (f x) = c_roomId x" "harmless f \<Longrightarrow> c_q (f x) = c_q x"
  by (simp_all add: harmless_def)

lemma registry_okD:
  "registry_ok v \<Longrightarrow> map_of (w_clients (vi_world v)) u = Some c \<Longrightarrow> vi_ending v c \<in> {Serving, Unbound, OutOfRoom}"
  by (simp add: registry_ok_def)

lemma bounds_step: "village_step late v v' \<Longrightarrow> bounds_ok v \<Longrightarrow> bounds_ok v'"
proof (induction rule: village_step.induct)
  case (v_login env nanos reg msc v w res)
  from v_login(1) show ?case
    by (rule clientIn_cases) (use v_login(2) in \<open>auto simp: bounds_ok_def less_SucI\<close>)
qed (auto simp: bounds_ok_def ending_defs plaza_ok_leave plaza_ok_join)

lemma registry_step: "village_step late v v' \<Longrightarrow> bounds_ok v \<Longrightarrow> registry_ok v \<Longrightarrow> registry_ok v'"
proof (induction rule: village_step.induct)
  case (v_login env nanos reg msc v w res)
  from v_login(1) show ?case
  proof (rule clientIn_cases)
    fix x assume x: "w_heap w = w_heap (vi_world v) @ [x]" "c_ID x = reg_UserId reg"
      "w_clients w = AList.update (reg_UserId reg) (length (w_heap (vi_world v))) (w_clients (vi_world v))"
    have "vi_ending v (length (w_heap (vi_world v))) = Serving" using v_login(2) by (auto simp: bounds_ok_def)
    then show ?case using v_login(3) x
      by (auto simp: registry_ok_def deref_grown [OF x(1)] gomap_simps less_SucI split: if_splits)
  qed (use v_login in simp)
next
  case (v_touch f v c)
  then show ?case by (auto simp: registry_ok_def harmlessD)
next
  case (v_registry v c)
  then show ?case by (auto simp: registry_ok_def ending_defs lookup_clients_remove split: if_splits)
next
  case (v_quit v c)
  have "map_of (w_clients (vi_world v)) u \<noteq> Some c" for u using registry_okD [OF v_quit(3), of u c] v_quit(1) by auto
  with v_quit show ?case by (auto simp: registry_ok_def ending_defs)
next
  case (v_count v c)
  have "map_of (w_clients (vi_world v)) u \<noteq> Some c" for u using registry_okD [OF v_count(3), of u c] v_count(1) by auto
  with v_count show ?case by (auto simp: registry_ok_def ending_defs)
qed (auto simp: registry_ok_def ending_defs)

lemma rooms_left_step:
  "village_step False v v' \<Longrightarrow> bounds_ok v \<Longrightarrow> rooms_left_ok v \<Longrightarrow> rooms_left_ok v'"
proof (induction v v' rule: village_step.induct)
  case (v_login env nanos reg msc v w res)
  from v_login(1) show ?case
  proof (rule clientIn_cases)
    fix x assume x: "w_heap w = w_heap (vi_world v) @ [x]"
    have "deref w c = deref (vi_world v) c" if "vi_ending v c \<noteq> Serving" for c
      using v_login(2) that by (auto simp: bounds_ok_def deref_grown [OF x])
    then show ?case using v_login(3) by (auto simp: rooms_left_ok_def)
  qed (use v_login in simp)
next
  case (v_touch f v c)
  then show ?case by (auto simp: rooms_left_ok_def harmlessD)
next
  case (v_leave c v r)
  then have "plaza_ok (vi_plaza v)" by (simp add: bounds_ok_def)
  from at_room_leave(1) [OF this] v_leave show ?case by (auto simp: rooms_left_ok_def)
next
  case (v_join v c r)
  then have ok: "plaza_ok (vi_plaza v)" and serving: "vi_ending v c = Serving" by (auto simp: bounds_ok_def rooms_left_ok_def)
  with v_join at_room_join [OF ok] show ?case by (fastforce simp: rooms_left_ok_def)
next
  case (v_room v c)
  then have ok: "plaza_ok (vi_plaza v)" by (simp add: bounds_ok_def)
  from at_room_leave [OF ok] v_room show ?case by (auto simp: rooms_left_ok_def ending_defs)
qed (auto simp: rooms_left_ok_def ending_defs)

lemma marks_step: "village_step late v v' \<Longrightarrow> bounds_ok v \<Longrightarrow> marks_ok v \<Longrightarrow> marks_ok v'"
proof (induction rule: village_step.induct)
  case (v_login env nanos reg msc v w res)
  from v_login(1) show ?case
  proof (rule clientIn_cases)
    fix x assume x: "w_heap w = w_heap (vi_world v) @ [x]" "\<not> c_q x"
    have "vi_ending v (length (w_heap (vi_world v))) = Serving" using v_login(2) by (auto simp: bounds_ok_def)
    then show ?case using v_login(3) x by (auto simp: marks_ok_def deref_grown [OF x(1)] less_Suc_eq)
  qed (use v_login in simp)
qed (auto simp: marks_ok_def ending_defs harmlessD)

lemma count_remove:
  assumes "c < n" and "P c"
  shows "length (filter P [0..<n]) = Suc (length (filter (\<lambda>d. d \<noteq> c \<and> P d) [0..<n]))"
proof -
  have "[0..<n] = [0..<c] @ c # [Suc c..<n]" 
    using assms(1) upt_add_eq_append [of 0 c "n - c"] by (simp add: upt_conv_Cons)
  moreover have "filter (\<lambda>d. d \<noteq> c \<and> P d) [0..<c] = filter P [0..<c]" "filter (\<lambda>d. d \<noteq> c \<and> P d) [Suc c..<n] = filter P [Suc c..<n]"
    by (auto intro!: filter_cong)
  ultimately show ?thesis using assms(2) by simp
qed

lemma count_ok_same:
  assumes "count_ok v" and "\<And>c. vi_ending v' c = Ended \<longleftrightarrow> vi_ending v c = Ended"
    and "length (w_heap (vi_world v')) = length (w_heap (vi_world v))"
    and "info_LoginUsers (w_info (vi_world v')) = info_LoginUsers (w_info (vi_world v))"
  shows "count_ok v'"
  using assms by (simp add: count_ok_def)

lemma count_step: "village_step late v v' \<Longrightarrow> bounds_ok v \<Longrightarrow> count_ok v \<Longrightarrow> count_ok v'"
proof (induction rule: village_step.induct)
  case (v_login env nanos reg msc v w res)
  from v_login(1) show ?case
  proof (rule clientIn_cases)
    fix x assume x: "w_heap w = w_heap (vi_world v) @ [x]" "info_LoginUsers (w_info w) = info_LoginUsers (w_info (vi_world v)) + 1"
    have "vi_ending v (length (w_heap (vi_world v))) = Serving" using v_login(2) by (auto simp: bounds_ok_def)
    then show ?case using v_login(3) x by (simp add: count_ok_def)
  qed (use v_login in simp)
next
  case (v_count v c)
  let ?n = "length (w_heap (vi_world v))"
  have "c < ?n" using v_count(1,2) by (auto simp: bounds_ok_def)
  then have "length (filter (\<lambda>d. vi_ending v d \<noteq> Ended) [0..<?n]) = Suc (length (filter (\<lambda>d. d \<noteq> c \<and> vi_ending v d \<noteq> Ended) [0..<?n]))"
    using v_count(1) by (intro count_remove) simp_all
  moreover have "filter (\<lambda>d. ((vi_ending v)(c := Ended)) d \<noteq> Ended) [0..<?n] = filter (\<lambda>d. d \<noteq> c \<and> vi_ending v d \<noteq> Ended) [0..<?n]"
    by (rule filter_cong) auto
  ultimately show ?case using v_count(3) by (simp add: count_ok_def ending_defs del: fun_upd_apply)
qed (auto elim!: count_ok_same simp: ending_defs split: if_splits)

definition village_ok :: "bool \<Rightarrow> village \<Rightarrow> bool" where
  "village_ok late v \<longleftrightarrow> bounds_ok v \<and> registry_ok v \<and> (\<not> late \<longrightarrow> rooms_left_ok v) \<and> marks_ok v \<and> count_ok v"

interpretation village: inductive_invariant "\<lambda>v. v = init_village" "village_step late" "village_ok late" for late
proof unfold_locales
  fix v assume "v = init_village"
  then show "village_ok late v"
    by (simp add: village_ok_def init_village_def bounds_ok_def plaza_ok_def pointers_distinct_def registry_ok_def
        rooms_left_ok_def marks_ok_def count_ok_def init_world_def)
next
  fix v v' assume step: "village_step late v v'" and "village_ok late v"
  then have ok: "bounds_ok v" "registry_ok v" "marks_ok v" "count_ok v" "\<not> late \<longrightarrow> rooms_left_ok v"
    by (simp_all add: village_ok_def)
  have "\<not> late \<longrightarrow> rooms_left_ok v'" using step ok(1,5) by (auto intro: rooms_left_step)
  with bounds_step [OF step ok(1)] registry_step [OF step ok(1,2)] marks_step [OF step ok(1,3)] count_step [OF step ok(1,4)]
  show "village_ok late v'" by (simp add: village_ok_def)
qed

section \<open>Correctness\<close>

text \<open>
  C7: The end of a session is thorough, however it is interleaved with registrations, room changes and the
  ends of other sessions. In every reachable state a session whose end has passed the client manager is registered
  under no user id; one whose end has passed the room manager is not in the room it was in, provided that bdmsg
  lets no handler run once the connection counts as stopped; its goroutine has been told to quit when and only
  when the end has come that far; and the counter of logged-in users is, modulo \<^verbatim>\<open>2^32\<close>, the number of sessions
  whose end is not complete.
\<close>

theorem session_end_thorough:
  assumes "village_reachable late v"
  shows "(\<forall>u c. ClientManager_Client u (vi_world v) = Some c \<longrightarrow>
        c_ID (deref (vi_world v) c) = u \<and> vi_ending v c \<notin> {OutOfRegistry, Quitting, Ended}) \<and>
    (\<not> late \<longrightarrow> (\<forall>c. vi_ending v c \<in> {OutOfRoom, OutOfRegistry, Quitting, Ended} \<longrightarrow>
        at_room (vi_plaza v) (c_roomId (deref (vi_world v) c)) (c_ID (deref (vi_world v) c)) \<noteq> Some c)) \<and>
    (\<forall>c < length (w_heap (vi_world v)). c_q (deref (vi_world v) c) \<longleftrightarrow> vi_ending v c \<in> {Quitting, Ended}) \<and>
    info_LoginUsers (w_info (vi_world v)) =
      of_nat (length (filter (\<lambda>c. vi_ending v c \<noteq> Ended) [0..<length (w_heap (vi_world v))]))"
proof -
  have ok: "village_ok late v" by (rule village.reachable_inv [OF assms])
  have "registry_ok v" "marks_ok v" "count_ok v" "\<not> late \<longrightarrow> rooms_left_ok v" using ok by (auto simp: village_ok_def)
  then show ?thesis
    by (intro conjI) (fastforce simp: registry_ok_def ClientManager_Client_def, simp add: rooms_left_ok_def,
      simp_all add: marks_ok_def count_ok_def)
qed

text \<open>
  C26: A session stays registered until it ends itself or its user registers again: no step of the end of
  another session, of an older one of the same user in particular, takes it out of the client manager.
\<close>

theorem successor_stays_registered:
  assumes "village_reachable late v" and "village_step late v v'" and "ClientManager_Client u (vi_world v) = Some c"
  shows "ClientManager_Client u (vi_world v') = Some c \<or>
    (vi_ending v c = OutOfRoom \<and> vi_ending v' c = OutOfRegistry) \<or>
    (\<exists>d. ClientManager_Client u (vi_world v') = Some d \<and> d = length (w_heap (vi_world v)) \<and> vi_ending v' d = Serving)"
proof -
  have ok: "village_ok late v" by (rule village.reachable_inv [OF assms(1)])
  from assms(2) show ?thesis
  proof (cases rule: village_step.cases)
    case (v_login env nanos reg msc w res)
    have "vi_ending v (length (w_heap (vi_world v))) = Serving" using ok by (auto simp: village_ok_def bounds_ok_def)
    with assms(3) v_login show ?thesis
      by (auto elim!: clientIn_cases simp: ClientManager_Client_def gomap_simps split: if_splits)
  next
    case (v_registry d)
    then show ?thesis using assms(3) ok
      by (auto simp: ClientManager_Client_def ending_defs lookup_clients_remove)
  qed (use assms(3) in \<open>auto simp: ClientManager_Client_def ending_defs\<close>)
qed

lemma plaza_world_on:
  "plaza_world (on_world (ClientManager_removeClient c) p) = ClientManager_removeClient c (plaza_world p)"
  "plaza_world (on_world (\<lambda>w. upd_client c g (upd_client c f w)) p) = upd_client c g (upd_client c f (plaza_world p))"
  "plaza_world (on_world (add_LoginUsers k) p) = add_LoginUsers k (plaza_world p)"
  "plaza_world (on_world (\<lambda>w. emit (CallSetUserData (c_msc (deref w c)) UD_nil) w) p) =
     emit (CallSetUserData (c_msc (deref (pl_world p) c)) UD_nil) (plaza_world p)"
  by (simp_all add: plaza_world_def on_world_def ClientManager_removeClient_def upd_client_def add_LoginUsers_def emit_def
      deref_def Let_def)

text \<open>
  The atomic end of a session of the model is what the critical sections do when nothing comes between them.
\<close>

theorem ending_uninterrupted:
  assumes "plaza_ok p"
  shows "plaza_world (ending_count (ending_quit c (ending_registry c (ending_room c (ending_unbind c p))))) =
    Client_ending False c (plaza_world p)"
proof -
  let ?q = "ending_unbind c p"
  have "plaza_ok ?q" using assms by (simp add: ending_defs)
  from room_leave_abs [OF this, of "c_roomId (deref (pl_world p) c)" c]
  have "plaza_world (ending_room c ?q) = RoomManager_ending (c_roomId (deref (pl_world p) c)) c (plaza_world ?q)"
    by (simp add: ending_defs)
  then show ?thesis
    by (simp add: Client_ending_def Let_def ending_registry_def ending_quit_def ending_count_def ending_unbind_def plaza_world_on)
qed

lemma at_room_joined:
  assumes "plaza_ok p"
  shows "at_room (room_join c r p) r (c_ID (deref (pl_world p) c)) = Some c"
proof -
  obtain q a where q: "room_map r p = (q, a)" by fastforce
  note ok = room_map_ok [OF assms q]
  from q have "map_of (pl_rooms q) r = Some a" "pl_world q = pl_world p"
    by (auto simp: room_map_def gomap_simps split: option.splits)
  then show ?thesis using ok(2)
    by (simp add: room_join_eq q at_room_def Let_def gomap_simps)
qed

text \<open>The whole end of a session, as steps of its monitor goroutine.\<close>

definition village_ended :: "addr \<Rightarrow> village \<Rightarrow> village" where
  "village_ended c v = v\<lparr>vi_plaza := ending_count (ending_quit c (ending_registry c (ending_room c (ending_unbind c (vi_plaza v))))),
     vi_ending := (vi_ending v)(c := Ended)\<rparr>"

lemma reachable_ended:
  assumes "village_reachable late v" and "c < length (w_heap (vi_world v))" and "vi_ending v c = Serving"
    and "late \<or> vi_handler v c = Free"
  shows "village_reachable late (village_ended c v)"
proof -
  let ?at = "\<lambda>p pc. v\<lparr>vi_plaza := p, vi_ending := (vi_ending v)(c := pc)\<rparr>"
  let ?p1 = "ending_unbind c (vi_plaza v)"
  let ?p2 = "ending_room c ?p1"
  let ?p3 = "ending_registry c ?p2"
  let ?p4 = "ending_quit c ?p3"
  have "village_reachable late (?at ?p1 Unbound)"
    using reach_step [OF assms(1) v_unbind [OF assms(2-4)]] .
  then have "village_reachable late (?at ?p2 OutOfRoom)" by (rule reach_step) (use v_room [of "?at ?p1 Unbound" c] in simp)
  then have "village_reachable late (?at ?p3 OutOfRegistry)"
    by (rule reach_step) (use v_registry [of "?at ?p2 OutOfRoom" c] in simp)
  then have "village_reachable late (?at ?p4 Quitting)" by (rule reach_step) (use v_quit [of "?at ?p3 OutOfRegistry" c] in simp)
  then have "village_reachable late (?at (ending_count ?p4) Ended)" by (rule reach_step) (use v_count [of "?at ?p4 Quitting" c] in simp)
  then show ?thesis by (simp add: village_ended_def)
qed

text \<open>
  What the connector relies on is needed: if bdmsg lets a handler of the session still run, one that is
  between the two critical sections of \<^verbatim>\<open>RoomManager.clientIn\<close> while the session ends puts the
  client of the finished session into the room, and nothing is left to take it out.
\<close>

theorem late_entry_leaks:
  assumes "village_reachable True v" and "c < length (w_heap (vi_world v))"
    and "vi_ending v c = Serving" and "vi_handler v c = Free" and "r \<noteq> ''''"
  shows "\<exists>v'. village_reachable True v' \<and> vi_ending v' c = Ended \<and> vi_handler v' c = Free \<and>
    c_roomId (deref (vi_world v') c) = r \<and>
    at_room (vi_plaza v') r (c_ID (deref (vi_world v') c)) = Some c"
proof -
  let ?v1 = "v\<lparr>vi_plaza := room_leave r c (vi_plaza v), vi_handler := (vi_handler v)(c := Entering r)\<rparr>"
  let ?v2 = "village_ended c ?v1"
  let ?v3 = "?v2\<lparr>vi_plaza := room_join c r (vi_plaza ?v2), vi_handler := (vi_handler ?v2)(c := Free)\<rparr>"
  have "village_reachable True ?v1"
    by (rule reach_step [OF assms(1) v_leave [OF assms(2,4) _ assms(5)]]) simp
  then have r2: "village_reachable True ?v2" by (rule reachable_ended) (use assms(2,3) in simp_all)
  then have "village_reachable True ?v3" by (rule reach_step) (rule v_join, simp add: village_ended_def)
  moreover have "plaza_ok (vi_plaza ?v2)"
    using village.reachable_inv [OF r2] by (simp add: village_ok_def bounds_ok_def)
  note joined = at_room_joined [OF this, of c r]
  moreover have "length (w_heap (vi_world ?v2)) = length (w_heap (vi_world v))"
    by (simp add: village_ended_def ending_defs)
  ultimately show ?thesis using assms(2) by (intro exI [of _ ?v3]) (simp add: village_ended_def)
qed

section \<open>Witnesses\<close>

definition logged_in :: "village" where
  "logged_in = init_village\<lparr>vi_plaza := (vi_plaza init_village)\<lparr>pl_world :=
     fst (ClientManager_clientIn accept_env 0 sample_Register 9 init_world)\<rparr>\<rparr>"

lemma reachable_logged_in: "village_reachable late logged_in"
proof (rule reach_step)
  show "village_reachable late init_village" by (rule reach_init) simp
  show "village_step late init_village logged_in"
    unfolding logged_in_def
    by (rule v_login [where env = accept_env and nanos = 0 and reg = sample_Register and msc = 9]) (simp add: init_village_def prod_eq_iff)
qed

lemma logged_in_simps:
  "length (w_heap (vi_world logged_in)) = 1" "vi_ending logged_in = (\<lambda>_. Serving)" "vi_handler logged_in = (\<lambda>_. Free)"
  "w_clients (vi_world logged_in) = [(''u'', 0)]" "c_ID (deref (vi_world logged_in) 0) = ''u''"
  by (simp_all add: logged_in_def init_village_def ClientManager_clientIn_def refreshToken0_def accept_env_def Let_def
      init_world_def createClient_def sample_Register_def new_client_def upd_client_def deref_def spawn_def)

theorem session_end_thorough_witness:
  "ClientManager_Client ''u'' (vi_world (village_ended 0 logged_in)) \<noteq> Some 0 \<and>
   info_LoginUsers (w_info (vi_world (village_ended 0 logged_in))) = 0"
proof -
  have "village_reachable False (village_ended 0 logged_in)"
    by (rule reachable_ended [OF reachable_logged_in]) (simp_all add: logged_in_simps)
  note over = session_end_thorough [OF this]
  have "vi_ending (village_ended 0 logged_in) 0 = Ended" "length (w_heap (vi_world (village_ended 0 logged_in))) = 1"
    by (simp_all add: village_ended_def ending_defs logged_in_simps)
  with over show ?thesis by auto
qed

theorem successor_stays_registered_witness:
  "\<exists>v'. village_step False logged_in v' \<and> ClientManager_Client ''u'' (vi_world v') = Some 0"
proof -
  let ?v = "logged_in\<lparr>vi_plaza := ending_unbind 0 (vi_plaza logged_in), vi_ending := (vi_ending logged_in)(0 := Unbound)\<rparr>"
  have step: "village_step False logged_in ?v" by (rule v_unbind) (simp_all add: logged_in_simps)
  from successor_stays_registered [OF reachable_logged_in this, of "''u''" 0]
  have "ClientManager_Client ''u'' (vi_world ?v) = Some 0"
    by (auto simp: logged_in_simps ClientManager_Client_def ending_defs)
  with step show ?thesis by blast
qed

theorem late_entry_leaks_witness:
  "\<exists>v'. village_reachable True v' \<and> vi_ending v' 0 = Ended \<and> at_room (vi_plaza v') ''r'' (c_ID (deref (vi_world v') 0)) = Some 0"
  using late_entry_leaks [OF reachable_logged_in, of 0 "''r''"] by (auto simp: logged_in_simps)

theorem ending_uninterrupted_witness:
  "plaza_world (ending_count (ending_quit 0 (ending_registry 0 (ending_room 0 (ending_unbind 0 (vi_plaza logged_in)))))) =
     Client_ending False 0 (plaza_world (vi_plaza logged_in))"
  by (rule ending_uninterrupted)
    (use village.reachable_inv [OF reachable_logged_in] in \<open>simp add: village_ok_def bounds_ok_def\<close>)

end
