(* ===== verification/Test_Client.thy ===== *)
theory Test_Client
  imports Service
begin

text \<open>
  \<^verbatim>\<open>tool/testclient/main.go\<close>: a client for trying out the connector. The message types \<^verbatim>\<open>ConnectReply\<close>,
  \<^verbatim>\<open>ServerHello\<close> and \<^verbatim>\<open>ClientHello\<close> it uses are no longer declared by \<^verbatim>\<open>pconnector\<close>; what the
  program does with them is modelled with their encoders as parameters. The rest is as it was written,
  and what it sends on connecting is a message the connector accepts.
\<close>

section \<open>The client\<close>

text \<open>The handlers that could be registered with the mux.\<close>

datatype tc_handler = ConnectReplyHandler | ServerHelloHandler

record tclient =
  tcl_sent :: "(int \<times> bytes) list"
  tcl_mux :: "(int, tc_handler) gomap"
  tcl_connected :: bool
  tcl_printed :: "string list"

record tc_types =
  tt_ServerHello_Unmarshal :: "bytes \<Rightarrow> string result"
  tt_ClientHello_Marshal :: "string \<Rightarrow> bytes"
  tt_MsgTypeClientHello :: int

definition tc_Output :: "int \<Rightarrow> bytes \<Rightarrow> tclient \<Rightarrow> tclient" where
  "tc_Output t b c = c\<lparr>tcl_sent := tcl_sent c @ [(t, b)]\<rparr>"

definition doRegister :: "tclient \<Rightarrow> tclient" where
  "doRegister c =
     (let request = zero_Register;
          mr = (case Register_Marshal request of Inr b \<Rightarrow> b | Inl err \<Rightarrow> [])
      in tc_Output MsgTypeRegister mr c)"

definition newClient :: tclient where
  "newClient =
     (let c = \<lparr>tcl_sent = [], tcl_mux = [], tcl_connected = False, tcl_printed = []\<rparr>
      in doRegister c)"

definition handleConnectReply :: "bytes \<Rightarrow> tclient \<Rightarrow> tclient" where
  "handleConnectReply m c = c\<lparr>tcl_connected := True\<rparr>"

definition handleServerHello :: "tc_types \<Rightarrow> bytes \<Rightarrow> tclient \<Rightarrow> tclient may_panic" where
  "handleServerHello tt m c =
     (case tt_ServerHello_Unmarshal tt m of
        Inl err \<Rightarrow> Inl (PanicErr ErrParameter)
      | Inr message \<Rightarrow> Inr (c\<lparr>tcl_printed := tcl_printed c @ [message]\<rparr>))"

definition clientHello :: "tc_types \<Rightarrow> string \<Rightarrow> tclient \<Rightarrow> tclient" where
  "clientHello tt msg c = tc_Output (tt_MsgTypeClientHello tt) (tt_ClientHello_Marshal tt msg) c"

text \<open>A received message goes to the handler registered for its type.\<close>

definition tc_process :: "tc_types \<Rightarrow> int \<Rightarrow> bytes \<Rightarrow> tclient \<Rightarrow> tclient may_panic" where
  "tc_process tt t m c =
     (case map_of (tcl_mux c) t of
        None \<Rightarrow> Inr c
      | Some ConnectReplyHandler \<Rightarrow> Inr (handleConnectReply m c)
      | Some ServerHelloHandler \<Rightarrow> handleServerHello tt m c)"

text \<open>Both flags set the same variable; of several the last one counts.\<close>

definition parseFlag :: "(string \<times> string) list \<Rightarrow> string" where
  "parseFlag flags =
     fold (\<lambda>(name, v) serverAddr. if name = ''addr'' \<or> name = ''a'' then v else serverAddr) flags ''127.0.0.1:9001''"

section \<open>The main loop\<close>

datatype tc_phase = Awaiting | Chatting | Over

definition testclient_main :: "(string \<Rightarrow> err option) \<Rightarrow> (string \<times> string) list \<Rightarrow> (tc_phase \<times> tclient) option" where
  "testclient_main dial flags =
     (let serverAddr = parseFlag flags
      in case dial serverAddr of Some err \<Rightarrow> None | None \<Rightarrow> Some (Awaiting, newClient))"

inductive tc_step :: "tc_types \<Rightarrow> tc_phase \<times> tclient \<Rightarrow> tc_phase \<times> tclient \<Rightarrow> bool" for tt where
  ts_receive: "tc_process tt t m c = Inr c' \<Longrightarrow> tc_step tt (ph, c) (ph, c')"
| ts_second: "\<not> tcl_connected c \<Longrightarrow> tc_step tt (Awaiting, c) (Awaiting, c)"
| ts_connected: "tcl_connected c \<Longrightarrow>
    tc_step tt (Awaiting, c) (Chatting, c\<lparr>tcl_printed := tcl_printed c @ [''connected'']\<rparr>)"
| ts_hello: "tc_step tt (Chatting, c) (Chatting, clientHello tt now c)"
| ts_stopped: "tc_step tt (Chatting, c) (Over, c\<lparr>tcl_printed := tcl_printed c @ [''disconnected'']\<rparr>)"

section \<open>Correctness\<close>

lemma first_message:
  "tcl_sent newClient = [(MsgTypeRegister, json_print (Register_json zero_Register))]"
  "Register_Unmarshal (json_print (Register_json zero_Register)) zero_Register = (zero_Register, None)"
  using Register_decode [of zero_Register zero_Register]
  by (simp_all add: newClient_def doRegister_def tc_Output_def Register_encode zero_Register_def in_int64_def)

text \<open>
  The test client registers no handler with its mux, so whatever the connector sends, it never takes itself
  to be connected: after the registration it sends nothing and waits for ever.
\<close>

theorem test_client_keeps_waiting:
  assumes "testclient_main dial flags = Some s" and "(tc_step tt)\<^sup>*\<^sup>* s (ph, c)"
  shows "ph = Awaiting \<and> (\<exists>b. tcl_sent c = [(MsgTypeRegister, b)]) \<and> tcl_printed c = []"
proof -
  have s: "s = (Awaiting, newClient)" using assms(1) by (auto simp: testclient_main_def Let_def split: option.splits)
  have new: "tcl_mux newClient = []" "\<not> tcl_connected newClient" "tcl_printed newClient = []"
    by (simp_all add: newClient_def doRegister_def tc_Output_def Let_def)
  from assms(2) have "(ph, c) = (Awaiting, newClient)"
    unfolding s by (induction rule: rtranclp_induct) (auto elim!: tc_step.cases simp: tc_process_def new)
  then show ?thesis using first_message(1) new by auto
qed

text \<open>
  A connector without a key accepts what the test client sends on connecting, as a registration of the
  empty user id, and all test clients share it: the session of one takes over from the session of the one before.
\<close>

theorem test_clients_displace_each_other:
  assumes "testclient_main dial flags = Some (ph, c)" and "(t, m) \<in> set (tcl_sent c)"
    and "te_PemFile (se_token env) = ''''" and "userData w s = UD_SClient s"
  shows "\<exists>w'. dispatch env nanos False t s m w = Some (w', Inr ()) \<and>
    (\<exists>a. map_of (w_clients w') '''' = Some a \<and> c_msc (deref w' a) = s \<and> alive w' a) \<and> CallHandshake s \<in> set (w_calls w') \<and>
    (\<forall>old. map_of (w_clients w) '''' = Some old \<longrightarrow> stopped w' (c_msc (deref w old)))"
proof -
  have "c = newClient" using assms(1) by (auto simp: testclient_main_def Let_def split: option.splits)
  with assms(2) have m: "t = MsgTypeRegister" "Register_Unmarshal m zero_Register = (zero_Register, None)"
    using first_message by simp_all
  obtain w1 res where r: "ClientManager_clientIn (se_token env) nanos zero_Register s w = (w1, res)" by fastforce
  have "refreshToken0 (se_token env) (reg_Token zero_Register) = Inr (zero_Token\<lparr>tk_ExpireTime := - 1\<rparr>, None)"
    using assms(3) by (simp add: refreshToken0_def)
  note a = clientIn_accepted [OF this r]
  have "dispatch env nanos False t s m w = Some (emit (CallHandshake s) w1, Inr ())"
    using assms(4) m r a(1) by (simp add: dispatch_def handleRegister_def)
  moreover have "reg_UserId zero_Register = ''''" by (simp add: zero_Register_def)
  ultimately show ?thesis
    by (auto simp: a(2,3,7,8) gomap_simps deref_def new_client_def alive_def stopped_def)
qed

section \<open>Instances\<close>

theorem test_client_keeps_waiting_witness:
  "\<exists>tt c. (tc_step tt)\<^sup>*\<^sup>* (Awaiting, newClient) (Awaiting, c) \<and> (\<exists>b. tcl_sent c = [(MsgTypeRegister, b)]) \<and> tcl_printed c = []"
proof -
  have "testclient_main (\<lambda>_. None) [] = Some (Awaiting, newClient)" by (simp add: testclient_main_def)
  from test_client_keeps_waiting [OF this, of _ Awaiting newClient] show ?thesis by blast
qed

theorem test_clients_displace_each_other_witness:
  "\<exists>m w'. dispatch (svc_env.make accept_env) 0 False MsgTypeRegister 7 m init_world = Some (w', Inr ()) \<and> map_of (w_clients w') '''' \<noteq> None"
proof -
  have "testclient_main (\<lambda>_. None) [] = Some (Awaiting, newClient)" by (simp add: testclient_main_def)
  from test_clients_displace_each_other [OF this, of MsgTypeRegister _ "svc_env.make accept_env" init_world 7 0] show ?thesis
    by (force simp: first_message(1) svc_env.defs accept_env_def userData_def init_world_def)
qed

end
