(* ===== verification/Clock.thy ===== *)
theory Clock
  imports Go_Prelude
begin

text \<open>
  The clock helpers: \<^verbatim>\<open>NowInMS\<close> (\<^verbatim>\<open>common/utility/time.go\<close>) and \<^verbatim>\<open>timeFormat\<close> (\<^verbatim>\<open>utils.go\<close>), which the log statements
  use with the one layout \<^verbatim>\<open>15:04:05.999\<close>. A clock reading is seconds and nanoseconds; the offset of
  the local zone is an argument.
\<close>

section \<open>Operations\<close>

definition NowInMS :: "int \<Rightarrow> int \<Rightarrow> int" where
  "NowInMS secs nanosecond = wrap64 (wrap64 (secs * 1000) + nanosecond sdiv 1000000)"

text \<open>\<^verbatim>\<open>time.Unix\<close> brings the nanoseconds into range.\<close>

definition time_Unix :: "int \<Rightarrow> int \<Rightarrow> int \<times> int" where
  "time_Unix sec nsec =
     (if nsec < 0 \<or> 1000000000 \<le> nsec then
        (let n = nsec sdiv 1000000000;
             sec = sec + n;
             nsec = nsec - n * 1000000000
         in if nsec < 0 then (sec - 1, nsec + 1000000000) else (sec, nsec))
      else (sec, nsec))"

definition two_digits :: "nat \<Rightarrow> string" where
  "two_digits n = [digit_char (n div 10), digit_char (n mod 10)]"

text \<open>\<^verbatim>\<open>.999\<close>: the milliseconds without trailing zeros, and nothing at all when there are none.\<close>

definition frac_digits :: "nat \<Rightarrow> string" where
  "frac_digits n =
     (let ds = rev (dropWhile (\<lambda>c. c = digit_char 0)
                 [digit_char (n mod 10), digit_char (n div 10 mod 10), digit_char (n div 100)])
      in if ds = [] then [] else CHR ''.'' # ds)"

definition timeFormat :: "int \<Rightarrow> int \<Rightarrow> string" where
  "timeFormat zone millis =
     (let (sec, nsec) = time_Unix (millis sdiv 1000) (millis smod 1000 * 1000000);
          s = nat ((sec + zone) mod 86400)
      in two_digits (s div 3600) @ '':'' @ two_digits (s div 60 mod 60) @ '':'' @ two_digits (s mod 60) @
         frac_digits (nat (nsec div 1000000)))"

section \<open>Reading a clock\<close>

fun frac_value :: "string \<Rightarrow> nat" where
  "frac_value [dot, a] = 100 * digit_val a"
| "frac_value [dot, a, b] = 100 * digit_val a + 10 * digit_val b"
| "frac_value [dot, a, b, c] = 100 * digit_val a + 10 * digit_val b + digit_val c"
| "frac_value _ = 0"

text \<open>The milliseconds since midnight that a text of the layout stands for.\<close>

fun clock_value :: "string \<Rightarrow> nat" where
  "clock_value (a # b # c1 # c # d # c2 # e # f # rest) =
     1000 * (3600 * (10 * digit_val a + digit_val b) + 60 * (10 * digit_val c + digit_val d) +
             (10 * digit_val e + digit_val f)) + frac_value rest"
| "clock_value _ = 0"

section \<open>Correctness\<close>

lemma digit_char_0: "n < 10 \<Longrightarrow> digit_char n = digit_char 0 \<longleftrightarrow> n = 0"
  by (metis digit_val_char less_numeral_extra(3) zero_less_numeral)

lemma frac_value_digits:
  assumes "n < 1000"
  shows "frac_value (frac_digits n) = n"
proof -
  have d: "n mod 10 < 10" "n div 10 mod 10 < 10" "n div 100 < 10" using assms by auto
  have "n div 100 = n div 10 div 10" by (simp add: div_mult2_eq [symmetric])
  then have n: "n = 100 * (n div 100) + 10 * (n div 10 mod 10) + n mod 10"
    using div_mult_mod_eq [of n 10] div_mult_mod_eq [of "n div 10" 10] by linarith
  show ?thesis
    using d n by (simp add: frac_digits_def Let_def digit_char_0)
qed

lemma two_digits_value: "n < 100 \<Longrightarrow> 10 * digit_val (digit_char (n div 10)) + digit_val (digit_char (n mod 10)) = n"
  by simp

lemma time_Unix_millis: "time_Unix (m sdiv 1000) (m smod 1000 * 1000000) = (m div 1000, m mod 1000 * 1000000)"
proof (cases "0 \<le> m")
  case True
  then have "m sdiv 1000 = m div 1000" "m smod 1000 = m mod 1000"
    by (simp_all add: signed_divide_int_def signed_modulo_int_def sgn_if)
  moreover have "\<not> m mod 1000 < 0" "\<not> 1000 \<le> m mod 1000" by (simp_all add: not_less not_le)
  ultimately show ?thesis by (simp add: time_Unix_def)
next
  case False
  then have q: "m sdiv 1000 = - (- m div 1000)" "m smod 1000 = - (- m mod 1000)"
    by (simp_all add: signed_divide_int_def signed_modulo_int_def sgn_if)
  show ?thesis
  proof (cases "- m mod 1000 = 0")
    case True
    then have "m div 1000 = - (- m div 1000)" "m mod 1000 = 0"
      using zdiv_zminus1_eq_if [of 1000 "- m"] zmod_zminus1_eq_if [of "- m" 1000] by simp_all
    then show ?thesis using q True by (simp add: time_Unix_def)
  next
    case False
    then have r: "m div 1000 = - (- m div 1000) - 1" "m mod 1000 = 1000 - (- m mod 1000)" "0 < - m mod 1000" "- m mod 1000 < 1000"
      using zdiv_zminus1_eq_if [of 1000 "- m"] zmod_zminus1_eq_if [of "- m" 1000] pos_mod_sign [of 1000 "- m"]
      by simp_all
    then have "(- (- m mod 1000) * 1000000) sdiv 1000000000 = 0"
      by (simp add: signed_divide_int_def div_pos_pos_trivial)
    then show ?thesis using q r by (simp add: time_Unix_def Let_def)
  qed
qed

lemma clock_value_text:
  assumes "s < 86400" and "n < 1000"
  shows "clock_value (two_digits (s div 3600) @ '':'' @ two_digits (s div 60 mod 60) @ '':'' @ two_digits (s mod 60) @ frac_digits n) =
    1000 * s + n"
proof -
  have d: "s div 3600 < 100" "s div 60 mod 60 < 100" "s mod 60 < 100" using assms(1) by auto
  have "s div 3600 = s div 60 div 60" by (simp add: div_mult2_eq [symmetric])
  then have sum: "3600 * (s div 3600) + 60 * (s div 60 mod 60) + s mod 60 = s"
    using div_mult_mod_eq [of s 60] div_mult_mod_eq [of "s div 60" 60] by linarith
  show ?thesis
    unfolding two_digits_def append_Cons append_Nil clock_value.simps
    by (simp only: two_digits_value d frac_value_digits [OF assms(2)] sum)
qed

text \<open>
  The text of a clock reading is right for every number of milliseconds, before 1970 too: it reads as the
  time of day in the local zone.
\<close>

theorem timeFormat_correct: "int (clock_value (timeFormat zone millis)) = (millis + 1000 * zone) mod 86400000"
proof -
  define s where "s = nat ((millis div 1000 + zone) mod 86400)"
  have s: "s < 86400" "int s = (millis div 1000 + zone) mod 86400" by (simp_all add: s_def)
  have "timeFormat zone millis = two_digits (s div 3600) @ '':'' @ two_digits (s div 60 mod 60) @ '':'' @ two_digits (s mod 60) @
      frac_digits (nat (millis mod 1000))"
    by (simp only: timeFormat_def time_Unix_millis Let_def prod.case s_def) simp
  then have "clock_value (timeFormat zone millis) = 1000 * s + nat (millis mod 1000)"
    using clock_value_text [OF s(1), of "nat (millis mod 1000)"] by simp
  then have "int (clock_value (timeFormat zone millis)) = 1000 * ((millis div 1000 + zone) mod 86400) + millis mod 1000"
    using s(2) by simp
  also have "\<dots> = (millis + 1000 * zone) mod (1000 * 86400)" 
    by (subst zmod_zmult2_eq) (simp_all add: add.commute)
  finally show ?thesis by simp
qed

theorem NowInMS_floor:
  assumes "0 \<le> nanosecond" and "nanosecond < 1000000000" and "in_int64 (secs * 1000)" and "in_int64 (secs * 1000 + 1000)"
  shows "NowInMS secs nanosecond = (secs * 1000000000 + nanosecond) div 1000000"
proof -
  have "nanosecond sdiv 1000000 = nanosecond div 1000000" using assms(1) by (simp add: sdiv_nonneg)
  moreover have "0 \<le> nanosecond div 1000000" "nanosecond div 1000000 < 1000" using assms(1,2) by simp_all
  ultimately have "in_int64 (secs * 1000 + nanosecond div 1000000)" using assms(3,4) by (simp add: in_int64_def)
  moreover have "(secs * 1000000000 + nanosecond) div 1000000 = secs * 1000 + nanosecond div 1000000"
    using div_mult_self3 [of 1000000 "secs * 1000" nanosecond] by simp
  ultimately show ?thesis
    using assms(3) \<open>nanosecond sdiv 1000000 = nanosecond div 1000000\<close> by (simp add: NowInMS_def)
qed

theorem NowInMS_floor_witness: "NowInMS 1500000000 999999999 = 1500000000999"
  using NowInMS_floor [of 999999999 1500000000] by (simp add: in_int64_def)

end
