(* ===== verification/Spec2Isabelle.thy ===== *)
theory Spec2Isabelle
  imports Boot Timed_Service Purge Http_Client Queue_Threads Session_Threads Test_Client Clock
begin

text \<open>
  A verification of the connector of an instant-messaging system (\<^verbatim>\<open>src/src/server/connector\<close>):
  the server that keeps the clients' connections, forwards their chat messages in batches to
  compute servers, and delivers the messages that a router publishes to the clients they are
  addressed to.

  \<^bold>\<open>How the program works.\<close> A client connects and registers with a user id and a token
  (\<^verbatim>\<open>connectsvc.go\<close>, \<^verbatim>\<open>client.go\<close>, \<^verbatim>\<open>token.go\<close>); the newest registration of a user
  takes over from the older one. It may enter rooms (\<^verbatim>\<open>room.go\<close>). A chat message goes into the
  bounded queue of its room (\<^verbatim>\<open>tocompute.go\<close>); every 50 ms a consumer drains the queues and
  sends one frame to a compute server (\<^verbatim>\<open>plainrpc.go\<close>). A subscriber (\<^verbatim>\<open>subscribe.go\<close>)
  receives messages from the router, converts them (\<^verbatim>\<open>protodef/pconnector\<close>) and puts them
  into the queues of the clients; a goroutine per client sends them out. A heart-beat task
  (\<^verbatim>\<open>heartbeat.go\<close>) closes silent clients, another task publishes statistics
  (\<^verbatim>\<open>stat.go\<close>) under an address found out by asking web services (\<^verbatim>\<open>naming.go\<close>).

  \<^bold>\<open>The theories.\<close>
  \<^item> \<open>Go_Prelude\<close>: errors and panics as values, machine integers, Go maps with their
    arbitrary visiting order, and the contracts that several components share: locales
    \<open>commuting_body\<close> (a loop over a map whose result does not depend on the order),
    \<open>owner_registry\<close> (a registry that only its owner may leave) and
    \<open>inductive_invariant\<close> (a step relation with an invariant).
  \<^item> \<open>Go_Utf8\<close>, \<open>Go_Json_Text\<close>: what the program uses of Go's strings (decoding of runes,
    replacement of what is not UTF-8) and the text of JSON, a scanner and a printer after
    \<^verbatim>\<open>encoding/json\<close>: what is printed is read back as the same value.
  \<^item> \<open>Go_Json\<close>, \<open>Protocol\<close>: decoding of JSON values into structs and encoding as
    \<^verbatim>\<open>encoding/json\<close> does it, the message types of \<^verbatim>\<open>pconnector.go\<close> and the helpers of
    \<^verbatim>\<open>protodef.go\<close>. Proved: round trip of a registration, that what a client is sent can be
    read, that the shared cache of encoded messages returns what an uncached encoder returns, and
    what the colliding tags cost.
  \<^item> \<open>Token\<close>: hexadecimal text, block splitting and decryption of session tokens, against
    reference definitions.
  \<^item> \<open>Message_Queue\<close>: the bounded queues of chat messages. The locale \<open>bounded_fifo\<close> states
    what a client of such a queue relies on; over every run no message is duplicated, reordered
    or moved to another room.
  \<^item> \<open>Queue_Threads\<close>: the same queues as objects behind locks, with chat handlers and the consumer
    interleaved at the critical sections: the locks suffice for the order of every room, no handler
    is stuck, and the atomic operations of \<open>Message_Queue\<close> are the uninterrupted runs.
  \<^item> \<open>Connector_State\<close>: the state the goroutines share, as the record \<open>world\<close>: client and
    message objects by address, the two registries, the queues, the counters, the calls made to
    the connection library and the goroutines that are running.
  \<^item> \<open>Rooms\<close>, \<open>Clients\<close>: the two managers, both interpretations of \<open>owner_registry\<close>;
    registration, take-over, session timer, heart beats, ending.
  \<^item> \<open>Client_Pump\<close>: the outbound goroutine cut into its critical sections, interleaved with
    pushes and the end of the session: first in first out, exactly once, progress, and the
    interleavings in which a wake-up is lost.
  \<^item> \<open>Subscriber\<close>: routing and delivery of router messages, exactly once to each addressee.
  \<^item> \<open>Room_Threads\<close>: rooms as objects, and deliveries interleaved with everybody else: who stays in
    a room and in a session is served exactly once, a delivery is an atomic read of the room, and
    what may go wrong otherwise. The atomic operations are again the uninterrupted runs.
  \<^item> \<open>Session_Threads\<close>: the end of a session cut at its locks and interleaved with registrations, room
    changes and other ends, also of older sessions of the same user: nothing of an ended session stays behind, and a
    successor stays registered.
  \<^item> \<open>Purge\<close>: the purge of overlong queues with its heap of clients: the bound it restores and
    whose messages it spares.
  \<^item> \<open>Timers\<close>: when the turns of the timed loops begin. The locale \<open>paced\<close> states what a loop that waits for a timer
    or a ticker promises; all five loops of the connector are interpretations.
  \<^item> \<open>Heart_Beat\<close>: which clients a tick closes, over whole schedules of heart beats and ticks, and how soon a client
    that falls silent is closed.
  \<^item> \<open>Plain_Rpc\<close>: framing, retry and server discovery over an arbitrary network; whatever fails,
    the stream of every connection that is still held consists of whole frames.
  \<^item> \<open>Service\<close>: the message handlers, the consumer and the step relation \<open>service_step\<close> of the
    whole system with its invariant \<open>world_ok\<close>: one live session per user, the login counter,
    one session at most for each connection, isolation of clients, no chat message refused.
  \<^item> \<open>Naming\<close>, \<open>Statistics\<close>: the regular-expression matcher against the language it stands
    for, the vote on the connector's address, the counters and the periodic report.
  \<^item> \<open>Lifecycle\<close>: start-up (\<^verbatim>\<open>main.go\<close>, \<^verbatim>\<open>Start\<close>, \<^verbatim>\<open>newService\<close>), the registration in the naming
    service and shutdown, as a process around the system of \<open>Service\<close>: when the process comes
    up, how long its entry lasts, and that a shutdown reaches every session.
  \<^item> \<open>Boot\<close>: what runs before \<^verbatim>\<open>main\<close>, flags and package initialisers, and when the connector
    comes up at all, also with loggers that \<^verbatim>\<open>log.json\<close> does not name.
  \<^item> \<open>Chat_Stream\<close>: runs of the whole system with what the clients said, what the consumer collected and the frames on the wire:
    order, numbering, room and content are kept, and what is forwarded is well-typed text.
  \<^item> \<open>Timed_Service\<close>: runs of the system with a clock: how long a chat message waits for the consumer, and how long
    a dead compute server stays in use.
  \<^item> \<open>Go_Duration\<close>: the texts of durations after Go's package \<^verbatim>\<open>time\<close>: what is printed is read back.
  \<^item> \<open>Connector_Config\<close>, \<open>Log_Factory\<close>, \<open>Http_Client\<close>: the configuration files, the loggers
    they ask for, and calls to web services.
  \<^item> \<open>Test_Client\<close>, \<open>Clock\<close>: the test client, against the handler of registrations, and the helpers
    for clock readings.
  \<^item> This theory: the two paths through the whole system, from a client's chat message to the
    frame on the wire to a compute server, and from a router message to the client's connection.

  \<^bold>\<open>Conventions.\<close> A definition has the name of the Go function it models, a method
  \<^verbatim>\<open>T.m\<close> is \<open>T_m\<close>. A function that changes shared state takes and returns it. Clock
  readings, visiting orders of maps and what libraries answer are arguments, so every theorem
  holds for all of them. An error is a value of \<open>err\<close>, a panic a value of \<open>panic\<close>. The
  only loop that may run for ever, the trimming loop of a queue, is a partial function into
  \<open>option\<close>, with the exact condition under which it returns; no definition uses fuel. Loops of
  goroutines are modelled by one turn and, where it matters, by step relations.

  \<^bold>\<open>Parameters.\<close> Packages that are not part of the repository are arguments of the
  definitions that call them: the connection library bdmsg (its connections are numbers, its
  callbacks arguments, the calls to it recorded in order), redis, the RSA package, protocol
  buffers, the heap of gods, lumber, go-units; so are zlib, HTTP, TCP and the text of
  floating-point numbers. What is assumed of them is named: \<open>net_fresh\<close> (dialling yields a new
  connection), \<open>heap_laws\<close> (a heap returns a least element), \<open>net_works\<close> (a network on which
  nothing fails, for the end-to-end theorem about chat messages), \<open>sane_env\<close> (the files of the
  loggers can be opened). Whether bdmsg lets a handler run on when it reports a connection as stopped is the parameter
  \<open>late\<close> of \<open>Session_Threads\<close>; the durations of the turns of a loop are arguments in \<open>Timers\<close>.
  What lumber does with a call on a nil logger is the parameter \<open>bo_nil_log\<close> of \<open>Boot\<close>; elsewhere log lines are left out.
  Resolving addresses is a parameter too, and so are the one floating-point expression in the parser of durations, of
  which only \<open>float_exact\<close> is assumed, and the slice of
  the input that a custom \<^verbatim>\<open>UnmarshalJSON\<close> is given.

  \<^bold>\<open>Not modelled.\<close> The pprof handlers, logging output, the creation of redis clients, and the
  accessors that \<^verbatim>\<open>protoc\<close> generated. Of the undeclared message types of the test client
  only the encoders are parameters. Data races are outside the model, and so are the locks that
  the value receivers of \<^verbatim>\<open>plainrpc.go\<close> copy: operations are atomic but for
  the outbound goroutine, the chat queues, the rooms, the deliveries and the ends of sessions, which are cut at their
  locks. The helper \<^verbatim>\<open>intValue\<close>, which nothing calls, and \<^verbatim>\<open>ternaryIf\<close>, which only chooses a word of a log line in \<^verbatim>\<open>deliverToRoom\<close>, are left out.
\<close>

section \<open>From a chat message to the compute server\<close>








section \<open>From the router to a client\<close>

text \<open>What the goroutine hands to the connection for a message: its encoding, if there is one.\<close>

definition pushed_as :: "(bytes \<Rightarrow> bytes) \<Rightarrow> conn \<Rightarrow> ToClientMessage \<Rightarrow> call list" where
  "pushed_as zl s x = (case snd (ToClientMessage_Marshal zl x) of Inl err \<Rightarrow> [] | Inr b \<Rightarrow> [CallOutput s MsgTypePush b])"

lemma marshal_again:
  "snd (ToClientMessage_Marshal zl (fst (ToClientMessage_Marshal zl x))) = snd (ToClientMessage_Marshal zl x)"
  by (simp add: ToClientMessage_Marshal_def Let_def split: option.split sum.split)

lemma marshal_in_place:
  assumes "ToClientMessage_Marshal zl (ms ! m) = (p, r)"
  shows "snd (ToClientMessage_Marshal zl (ms[m := p] ! i)) = snd (ToClientMessage_Marshal zl (ms ! i))"
  using marshal_again [of zl "ms ! m"] assms
  by (cases "i = m \<and> m < length ms") (auto simp: nth_list_update list_update_beyond)

lemma pump_turn_sends:
  assumes "c < length (w_heap w)" and "\<not> c_q (deref w c)" and "c_queue (deref w c) = m # ms" and "v = pump_turn zl c w"
  shows "c < length (w_heap v) \<and> \<not> c_q (deref v c) \<and> c_queue (deref v c) = ms \<and> c_msc (deref v c) = c_msc (deref w c) \<and>
    w_calls v = w_calls w @ pushed_as zl (c_msc (deref w c)) (w_msgs w ! m) \<and>
    (\<forall>i. pushed_as zl (c_msc (deref w c)) (w_msgs v ! i) = pushed_as zl (c_msc (deref w c)) (w_msgs w ! i))"
proof -
  obtain p r where p: "ToClientMessage_Marshal zl (w_msgs w ! m) = (p, r)" by fastforce
  note same = marshal_in_place [OF p]
  show ?thesis
    using assms(1-3) p same unfolding assms(4)
    by (cases r) (simp_all add: pump_turn_def a_take_def a_send_def marshal_msg_def pushed_as_def)
qed

lemma pump_turns_send:
  assumes "c < length (w_heap w)" and "\<not> c_q (deref w c)" and "c_queue (deref w c) = ms" and "s = c_msc (deref w c)"
    and "v = (pump_turn zl c ^^ length ms) w"
  shows "c_queue (deref v c) = [] \<and> w_calls v = w_calls w @ concat (map (\<lambda>m. pushed_as zl s (w_msgs w ! m)) ms)"
  using assms
proof (induction ms arbitrary: w)
  case (Cons m ms)
  let ?u = "pump_turn zl c w"
  note turn = pump_turn_sends [OF Cons.prems(1-3) refl, of zl, folded Cons.prems(4)]
  have "v = (pump_turn zl c ^^ length ms) ?u" using Cons.prems(5) by (simp add: funpow_swap1)
  from Cons.IH [OF _ _ _ _ this] turn show ?case by simp
qed simp

lemma convert_pushed:
  "pushed_as zl s (convert fr) = [CallOutput s MsgTypePush (1 # zl (json_print (ToClientMessage_json (convert fr))))]"
  by (simp add: pushed_as_def ToClientMessage_Marshal_def json_Marshal_def convert_def Let_def)

text \<open>
  C12: End to end: in every reachable state, let a message arrive from the router, and let the outbound goroutine of a registered client
  take one turn for each message that waited in the client's queue before and one for each copy of the new message that is addressed to it (one for
  its user id, one for a room it is in or for the world), with nothing else happening meanwhile. Then its queue is empty, and what was written is pushes on
  this client's connection only: at most one for each message that waited before, and after these the new
  message, as often as it is addressed to the client, as one byte and the compressed text of a JSON value that is the message.
  In particular it is the very next push when no message waits.
\<close>

theorem router_message_reaches_client:
  assumes "reachable_system l y" and "w = sys_world y" and "ClientManager_Client u w = Some c"
    and "range_order (w_clients w) worldOrder"
    and "\<And>users. map_of (w_rooms w) (fr_ToRoomId fr) = Some users \<Longrightarrow> range_order users roomOrder"
    and "FromRouterMessage_Unmarshal (string_bytes payload) zero_FromRouterMessage = (fr, e)"
    and "w1 = subscribe_turn roomOrder worldOrder (Inr (''router'', payload)) w"
    and "w2 = (pump_turn (l_zlib l) c ^^ (length (c_queue (deref w c)) + copies w fr c)) w1"
  shows "\<exists>raw before. json_parse raw = Some (coerce_json (ToClientMessage_json (convert fr))) \<and>
    c_queue (deref w2 c) = [] \<and>
    w_calls w2 = w_calls w @ before @ replicate (copies w fr c) (CallOutput (c_msc (deref w c)) MsgTypePush (1 # l_zlib l raw)) \<and>
    length before \<le> length (c_queue (deref w c)) \<and> set before \<subseteq> range (CallOutput (c_msc (deref w c)) MsgTypePush)"
proof -
  have ok: "sessions_ok w" using reachable_world_ok [OF assms(1)] assms(2) by (simp add: world_ok_def)
  have reg: "map_of (w_clients w) u = Some c" using assms(3) by (simp add: ClientManager_Client_def)
  then have c: "c < length (w_heap w)" "\<not> c_q (deref w c)"
    using ok unfolding sessions_ok_def by blast+
  have cl: "clients_ok w" using ok by (simp add: sessions_ok_def)
  let ?s = "c_msc (deref w c)" and ?raw = "json_print (ToClientMessage_json (convert fr))"
  let ?p = "\<lambda>m. pushed_as (l_zlib l) ?s (w_msgs w1 ! m)" and ?old = "c_queue (deref w c)"
  have "w1 = handleSubscription roomOrder worldOrder payload w" using assms(7) by (simp add: subscribe_turn_def)
  then obtain new where same: "same_but_queues w w1" and new: "c_queue (deref w1 c) = ?old @ new"
    "map (\<lambda>m. w_msgs w1 ! m) new = replicate (copies w fr c) (convert fr)"
    using routed_bodies [OF handleSubscription_routed [OF cl assms(4-6), of c]] by blast
  obtain q where q: "deref w1 c = (deref w c)\<lparr>c_queue := q\<rparr>" using same unfolding same_but_queues_def by blast
  have calls: "w_calls w1 = w_calls w" and len: "length (w_heap w1) = length (w_heap w)" using same by (simp_all add: same_but_queues_def)
  have n: "length new = copies w fr c" using arg_cong [OF new(2), of length] by simp
  have "concat (map ?p new) = concat (map (pushed_as (l_zlib l) ?s) (map (\<lambda>m. w_msgs w1 ! m) new))" by (simp add: o_def)
  also have "\<dots> = replicate (copies w fr c) (CallOutput ?s MsgTypePush (1 # l_zlib l ?raw))"
    unfolding new(2) by (simp add: convert_pushed concat_replicate_single)
  finally have sent: "concat (map ?p new) = replicate (copies w fr c) (CallOutput ?s MsgTypePush (1 # l_zlib l ?raw))" .
  have "c_queue (deref w2 c) = [] \<and> w_calls w2 = w_calls w1 @ concat (map ?p (?old @ new))"
    by (rule pump_turns_send) (use c len q new(1) n assms(8) in simp_all)
  moreover have "length (concat (map ?p ms)) \<le> length ms \<and> set (concat (map ?p ms)) \<subseteq> range (CallOutput ?s MsgTypePush)" for ms
    by (induction ms) (auto simp: pushed_as_def split: sum.splits)
  ultimately show ?thesis
    using sent calls
    by (intro exI [of _ ?raw] exI [of _ "concat (map ?p ?old)"]) (simp add: json_roundtrip ToClientMessage_json_numbers)
qed

section \<open>Witnesses\<close>





definition push_text :: string where
  \<open>push_text = ''{"toUserId":"u"}''\<close>

theorem router_message_reaches_client_witness:
  "\<exists>raw. w_calls (pump_turn id 1 (subscribe_turn [] [''u''] (Inr (''router'', push_text)) second_login)) =
     w_calls second_login @ [CallOutput 8 MsgTypePush (1 # raw)] \<and> json_parse raw \<noteq> None"
proof -
  let ?fr = "zero_FromRouterMessage\<lparr>fr_ToUserId := ''u''\<rparr>"
  have "json_parse (string_bytes push_text) = Some (JObj [(''toUserId'', JStr ''u'')])" by code_simp
  then have "FromRouterMessage_Unmarshal (string_bytes push_text) zero_FromRouterMessage = (?fr, None)"
    by (simp add: FromRouterMessage_Unmarshal_def json_Unmarshal_def
        FromRouterMessage_schema_def find_field_def dec_string_def first_err_def zero_FromRouterMessage_def)
  note msg = router_message_reaches_client [OF second_login_reachable _ _ _ _ this refl refl, of second_login "''u''" 1 "[''u'']" "[]"]
  have "ClientManager_Client ''u'' second_login = Some 1" "c_queue (deref second_login 1) = []"
    "range_order (w_clients second_login) [''u'']" "map_of (w_rooms second_login) r = None" "copies second_login ?fr 1 = 1" for r
    by (simp_all add: ClientManager_Client_def second_login_def first_login_def deref_def new_client_def range_order_def keys_of_def
        copies_def registered_def zero_FromRouterMessage_def)
  with msg second_login_facts show ?thesis
    by (auto simp: sample_libs_def)
qed

end
